(* ===== verification/Utf8.thy ===== *)
theory Utf8
  imports Prelude
begin

text \<open>
  Go strings are byte strings; \<^typ>\<open>string\<close> (a list of 8-bit \<^typ>\<open>char\<close>s) models them
  exactly, and \<open>length\<close> is Go's \<open>len\<close>. This theory models what the program uses of
  package \<open>unicode/utf8\<close>: decoding the first and the last rune (invalid input is the rune
  U+FFFD of width 1), the runes a \<open>range\<close> loop visits, validity, and encoding. Runes are
  natural numbers. The lemmas are the round trip between encoding and decoding and the
  behaviour of a string cut at a rune boundary.
\<close>

section \<open>Bytes and runes\<close>

abbreviation bval :: "char \<Rightarrow> nat" where
  "bval c \<equiv> of_char c"

definition rune_error :: nat where
  "rune_error = 0xFFFD"

text \<open>\<open>utf8.RuneStart\<close>: not a continuation byte.\<close>

definition cont :: "char \<Rightarrow> bool" where
  "cont c \<longleftrightarrow> bval c div 64 = 2"

definition rune_start :: "char \<Rightarrow> bool" where
  "rune_start c \<longleftrightarrow> \<not> cont c"

text \<open>\<open>utf8.DecodeRuneInString\<close>: the first rune and its width.\<close>

definition decode_rune :: "string \<Rightarrow> nat \<times> nat" where
  "decode_rune s =
     (case s of
        [] \<Rightarrow> (rune_error, 0)
      | c0 # cs \<Rightarrow>
          (let b0 = bval c0 in
           if b0 < 0x80 then (b0, 1)
           else if b0 < 0xC2 then (rune_error, 1)
           else if b0 < 0xE0 then
             (case cs of
                c1 # _ \<Rightarrow> if cont c1 then ((b0 mod 32) * 64 + bval c1 mod 64, 2) else (rune_error, 1)
              | _ \<Rightarrow> (rune_error, 1))
           else if b0 < 0xF0 then
             (case cs of
                c1 # c2 # _ \<Rightarrow>
                  if cont c1 \<and> cont c2 \<and> \<not> (b0 = 0xE0 \<and> bval c1 < 0xA0) \<and> \<not> (b0 = 0xED \<and> 0x9F < bval c1)
                  then (((b0 mod 16) * 64 + bval c1 mod 64) * 64 + bval c2 mod 64, 3)
                  else (rune_error, 1)
              | _ \<Rightarrow> (rune_error, 1))
           else if b0 < 0xF5 then
             (case cs of
                c1 # c2 # c3 # _ \<Rightarrow>
                  if cont c1 \<and> cont c2 \<and> cont c3 \<and> \<not> (b0 = 0xF0 \<and> bval c1 < 0x90) \<and> \<not> (b0 = 0xF4 \<and> 0x8F < bval c1)
                  then ((((b0 mod 8) * 64 + bval c1 mod 64) * 64 + bval c2 mod 64) * 64 + bval c3 mod 64, 4)
                  else (rune_error, 1)
              | _ \<Rightarrow> (rune_error, 1))
           else (rune_error, 1)))"

text \<open>\<open>utf8.AppendRune\<close>: surrogates and values past U+10FFFF are written as U+FFFD.\<close>

definition valid_rune :: "nat \<Rightarrow> bool" where
  "valid_rune r \<longleftrightarrow> r < 0xD800 \<or> 0xE000 \<le> r \<and> r < 0x110000"

definition encode_rune :: "nat \<Rightarrow> string" where
  "encode_rune r0 =
     (let r = (if valid_rune r0 then r0 else rune_error) in
      if r < 0x80 then [char_of r]
      else if r < 0x800 then [char_of (0xC0 + r div 64), char_of (0x80 + r mod 64)]
      else if r < 0x10000 then
        [char_of (0xE0 + r div 4096), char_of (0x80 + r div 64 mod 64), char_of (0x80 + r mod 64)]
      else
        [char_of (0xF0 + r div 262144), char_of (0x80 + r div 4096 mod 64),
         char_of (0x80 + r div 64 mod 64), char_of (0x80 + r mod 64)])"

lemma bval_lt [simp]: "bval c < 256"
  by simp

lemma decode_rune_Nil [simp]: "decode_rune [] = (rune_error, 0)"
  by (simp add: decode_rune_def)

lemma decode_rune_width:
  assumes "s \<noteq> []"
  shows "1 \<le> snd (decode_rune s) \<and> snd (decode_rune s) \<le> length s \<and> snd (decode_rune s) \<le> 4"
  using assms by (auto simp: decode_rune_def Let_def split: list.splits)

lemma decode_rune_ascii:
  "bval c < 0x80 \<Longrightarrow> decode_rune (c # cs) = (bval c, 1)"
  by (simp add: decode_rune_def)

section \<open>Encoding then decoding\<close>

lemma encode_rune_1: "r < 0x80 \<Longrightarrow> encode_rune r = [char_of r]"
  by (simp add: encode_rune_def valid_rune_def)

lemma encode_rune_2: "0x80 \<le> r \<Longrightarrow> r < 0x800 \<Longrightarrow>
   encode_rune r = [char_of (0xC0 + r div 64), char_of (0x80 + r mod 64)]"
  by (simp add: encode_rune_def valid_rune_def)

lemma encode_rune_3: "0x800 \<le> r \<Longrightarrow> r < 0x10000 \<Longrightarrow> valid_rune r \<Longrightarrow>
   encode_rune r = [char_of (0xE0 + r div 4096), char_of (0x80 + r div 64 mod 64), char_of (0x80 + r mod 64)]"
  by (simp add: encode_rune_def)

lemma encode_rune_4: "0x10000 \<le> r \<Longrightarrow> valid_rune r \<Longrightarrow>
   encode_rune r = [char_of (0xF0 + r div 262144), char_of (0x80 + r div 4096 mod 64),
         char_of (0x80 + r div 64 mod 64), char_of (0x80 + r mod 64)]"
  by (simp add: encode_rune_def)

lemma encode_rune_invalid: "\<not> valid_rune r \<Longrightarrow> encode_rune r = encode_rune rune_error"
  by (auto simp: encode_rune_def rune_error_def valid_rune_def)

lemma cont_char_of: "n < 64 \<Longrightarrow> cont (char_of (0x80 + n :: nat))"
  by (simp add: cont_def)

lemma mask_mod:
  "q < 32 \<Longrightarrow> (0xC0 + q) mod 32 = (q::nat)"
  "q < 16 \<Longrightarrow> (0xE0 + q) mod 16 = (q::nat)"
  "q < 8 \<Longrightarrow> (0xF0 + q) mod 8 = (q::nat)"
  "q < 64 \<Longrightarrow> (0x80 + q) mod 64 = (q::nat)"
  using mod_add_left_eq [of "0xC0" 32 q] mod_add_left_eq [of "0xE0" 16 q]
    mod_add_left_eq [of "0xF0" 8 q] mod_add_left_eq [of "0x80" 64 q] by simp_all

lemma div_parts3:
  "(r div 4096 * 64 + r div 64 mod 64) * 64 + r mod 64 = (r::nat)"
proof -
  have "r div 64 div 64 * 64 + r div 64 mod 64 = r div 64" by simp
  then show ?thesis by (simp add: div_mult2_eq [symmetric])
qed

lemma div_parts4:
  "((r div 262144 * 64 + r div 4096 mod 64) * 64 + r div 64 mod 64) * 64 + r mod 64 = (r::nat)"
proof -
  have "r div 4096 div 64 * 64 + r div 4096 mod 64 = r div 4096" by simp
  then have "r div 262144 * 64 + r div 4096 mod 64 = r div 4096"
    by (simp add: div_mult2_eq [symmetric])
  then show ?thesis by (simp only: div_parts3)
qed

lemma decode_rune_2:
  assumes "q < 32" "2 \<le> q" "x < 64"
  shows "decode_rune (char_of (0xC0 + q) # char_of (0x80 + x) # s) = (q * 64 + x, 2)"
  using assms mask_mod [of q] mask_mod(4) [of x] cont_char_of [of x]
  by (simp add: decode_rune_def Let_def)

lemma decode_rune_3:
  assumes "q < 16" "x < 64" "y < 64" "\<not> (q = 0 \<and> x < 32)" "\<not> (q = 13 \<and> 31 < x)"
  shows "decode_rune (char_of (0xE0 + q) # char_of (0x80 + x) # char_of (0x80 + y) # s)
    = ((q * 64 + x) * 64 + y, 3)"
  using assms mask_mod [of q] mask_mod(4) [of x] mask_mod(4) [of y] cont_char_of [of x] cont_char_of [of y]
  by (auto simp: decode_rune_def Let_def)

lemma decode_rune_4:
  assumes "q < 5" "x < 64" "y < 64" "z < 64" "\<not> (q = 0 \<and> x < 16)" "\<not> (q = 4 \<and> 15 < x)"
  shows "decode_rune (char_of (0xF0 + q) # char_of (0x80 + x) # char_of (0x80 + y) # char_of (0x80 + z) # s)
    = (((q * 64 + x) * 64 + y) * 64 + z, 4)"
  using assms mask_mod [of q] mask_mod(4) [of x] mask_mod(4) [of y] mask_mod(4) [of z]
    cont_char_of [of x] cont_char_of [of y] cont_char_of [of z]
  by (auto simp: decode_rune_def Let_def)

lemma decode_encode:
  assumes v: "valid_rune r"
  shows "decode_rune (encode_rune r @ s) = (r, length (encode_rune r))"
proof -
  consider (a) "r < 0x80" | (b) "0x80 \<le> r" "r < 0x800" | (c) "0x800 \<le> r" "r < 0x10000" | (d) "0x10000 \<le> r"
    by linarith
  then show ?thesis
  proof cases
    case a
    then show ?thesis by (simp add: encode_rune_1 decode_rune_def)
  next
    case b
    then have "r div 64 < 32" "2 \<le> r div 64" by auto
    with decode_rune_2 [of "r div 64" "r mod 64" s] b show ?thesis by (simp add: encode_rune_2)
  next
    case c
    have q: "r div 64 div 64 = r div 4096" by (simp add: div_mult2_eq [symmetric])
    have 1: "r div 4096 < 16" using c by auto
    have 2: "\<not> (r div 4096 = 0 \<and> r div 64 mod 64 < 32)"
    proof -
      have "32 \<le> r div 64" using c by auto
      then show ?thesis using div_mult_mod_eq [of "r div 64" 64] mod_less_divisor [of 64 "r div 64"] unfolding q by linarith
    qed
    have 3: "\<not> (r div 4096 = 13 \<and> 31 < r div 64 mod 64)"
    proof -
      have "r div 64 < 864 \<or> 896 \<le> r div 64" using v c by (auto simp: valid_rune_def)
      then show ?thesis using div_mult_mod_eq [of "r div 64" 64] mod_less_divisor [of 64 "r div 64"] unfolding q by linarith
    qed
    show ?thesis
      using decode_rune_3 [OF 1 _ _ 2 3, of "r mod 64" s] c v
      by (simp add: encode_rune_3 div_parts3 [simplified])
  next
    case d
    have q: "r div 4096 div 64 = r div 262144" by (simp add: div_mult2_eq [symmetric])
    have u: "r < 0x110000" using v d by (auto simp: valid_rune_def)
    have 1: "r div 262144 < 5" using u by auto
    have 2: "\<not> (r div 262144 = 0 \<and> r div 4096 mod 64 < 16)"
    proof -
      have "16 \<le> r div 4096" using d by auto
      then show ?thesis using div_mult_mod_eq [of "r div 4096" 64] mod_less_divisor [of 64 "r div 4096"] unfolding q by linarith
    qed
    have 3: "\<not> (r div 262144 = 4 \<and> 15 < r div 4096 mod 64)"
    proof -
      have "r div 4096 < 272" using u by auto
      then show ?thesis using div_mult_mod_eq [of "r div 4096" 64] mod_less_divisor [of 64 "r div 4096"] unfolding q by linarith
    qed
    show ?thesis
      using decode_rune_4 [OF 1 _ _ _ 2 3, of "r div 64 mod 64" "r mod 64" s] d v
      by (simp add: encode_rune_4 div_parts4 [simplified])
  qed
qed

section \<open>Decoding then encoding\<close>

lemma cont_bounds: "cont c \<Longrightarrow> 0x80 \<le> bval c \<and> bval c < 0xC0"
  using div_mult_mod_eq [of "bval c :: nat" 64] mod_less_divisor [of 64 "bval c :: nat"]
  unfolding cont_def by linarith

lemma cont_val: "cont c \<Longrightarrow> 0x80 + bval c mod 64 = bval c"
  using div_mult_mod_eq [of "bval c :: nat" 64] unfolding cont_def by simp

lemma lead_val:
  "0xC0 \<le> bval c \<Longrightarrow> bval c < 0xE0 \<Longrightarrow> 0xC0 + bval c mod 32 = bval c"
  "0xE0 \<le> bval c \<Longrightarrow> bval c < 0xF0 \<Longrightarrow> 0xE0 + bval c mod 16 = bval c"
  "0xF0 \<le> bval c \<Longrightarrow> bval c < 0xF8 \<Longrightarrow> 0xF0 + bval c mod 8 = bval c"
proof -
  show "0xC0 + bval c mod 32 = bval c" if "0xC0 \<le> bval c" "bval c < 0xE0"
  proof -
    have "bval c div 32 = 6" using that by auto
    then show ?thesis using div_mult_mod_eq [of "bval c" 32] by simp
  qed
  show "0xE0 + bval c mod 16 = bval c" if "0xE0 \<le> bval c" "bval c < 0xF0"
  proof -
    have "bval c div 16 = 14" using that by auto
    then show ?thesis using div_mult_mod_eq [of "bval c" 16] by simp
  qed
  show "0xF0 + bval c mod 8 = bval c" if "0xF0 \<le> bval c" "bval c < 0xF8"
  proof -
    have "bval c div 8 = 30" using that by auto
    then show ?thesis using div_mult_mod_eq [of "bval c" 8] by simp
  qed
qed

lemma join_parts2:
  "x < 64 \<Longrightarrow> (q * 64 + x) div 64 = (q::nat)" "x < 64 \<Longrightarrow> (q * 64 + x) mod 64 = (x::nat)"
  by simp_all

lemma join_parts3:
  assumes "x < 64" "y < 64"
  shows "((q * 64 + x) * 64 + y) div 4096 = (q::nat)"
    "((q * 64 + x) * 64 + y) div 64 mod 64 = (x::nat)" "((q * 64 + x) * 64 + y) mod 64 = (y::nat)"
proof -
  have "((q * 64 + x) * 64 + y) div 4096 = ((q * 64 + x) * 64 + y) div 64 div 64"
    by (simp only: div_mult2_eq [symmetric]) simp
  then show "((q * 64 + x) * 64 + y) div 4096 = q" using assms by (simp only: join_parts2)
qed (simp_all only: assms join_parts2)

lemma join_parts4:
  assumes "x < 64" "y < 64" "z < 64"
  shows "(((q * 64 + x) * 64 + y) * 64 + z) div 262144 = (q::nat)"
    "(((q * 64 + x) * 64 + y) * 64 + z) div 4096 mod 64 = (x::nat)"
    "(((q * 64 + x) * 64 + y) * 64 + z) div 64 mod 64 = (y::nat)"
    "(((q * 64 + x) * 64 + y) * 64 + z) mod 64 = (z::nat)"
proof -
  let ?r = "((q * 64 + x) * 64 + y) * 64 + z"
  have "?r div 262144 = ?r div 4096 div 64"
    by (simp only: div_mult2_eq [symmetric]) simp
  then show "?r div 262144 = q" using assms by (simp only: join_parts2 join_parts3)
qed (simp_all only: assms join_parts2 join_parts3)

lemma decode_good_cases:
  assumes "decode_rune s = (r, w)" "s \<noteq> []" "\<not> (r = rune_error \<and> w = 1)"
  obtains
    (one) c cs where "s = c # cs" "bval c < 0x80" "r = bval c" "w = 1"
  | (two) c0 c1 cs where "s = c0 # c1 # cs" "0xC2 \<le> bval c0" "bval c0 < 0xE0" "cont c1"
      "r = bval c0 mod 32 * 64 + bval c1 mod 64" "w = 2"
  | (three) c0 c1 c2 cs where "s = c0 # c1 # c2 # cs" "0xE0 \<le> bval c0" "bval c0 < 0xF0"
      "cont c1" "cont c2" "\<not> (bval c0 = 0xE0 \<and> bval c1 < 0xA0)" "\<not> (bval c0 = 0xED \<and> 0x9F < bval c1)"
      "r = (bval c0 mod 16 * 64 + bval c1 mod 64) * 64 + bval c2 mod 64" "w = 3"
  | (four) c0 c1 c2 c3 cs where "s = c0 # c1 # c2 # c3 # cs" "0xF0 \<le> bval c0" "bval c0 < 0xF5"
      "cont c1" "cont c2" "cont c3" "\<not> (bval c0 = 0xF0 \<and> bval c1 < 0x90)" "\<not> (bval c0 = 0xF4 \<and> 0x8F < bval c1)"
      "r = ((bval c0 mod 8 * 64 + bval c1 mod 64) * 64 + bval c2 mod 64) * 64 + bval c3 mod 64" "w = 4"
proof -
  obtain c0 cs where s: "s = c0 # cs" using assms(2) by (cases s) auto
  consider "bval c0 < 0x80" | "0x80 \<le> bval c0" "bval c0 < 0xC2" | "0xC2 \<le> bval c0" "bval c0 < 0xE0"
    | "0xE0 \<le> bval c0" "bval c0 < 0xF0" | "0xF0 \<le> bval c0" "bval c0 < 0xF5" | "0xF5 \<le> bval c0"
    by linarith
  then show thesis
  proof cases
    case 1 then show ?thesis using assms s by (intro one) (auto simp: decode_rune_def)
  next
    case 2 then show ?thesis using assms s by (auto simp: decode_rune_def Let_def)
  next
    case 3 then show ?thesis using assms s
      by (auto simp: decode_rune_def Let_def split: list.splits if_splits intro: two)
  next
    case 4 then show ?thesis using assms s
      by (auto simp: decode_rune_def Let_def split: list.splits if_splits intro: three)
  next
    case 5 then show ?thesis using assms s
      by (auto simp: decode_rune_def Let_def split: list.splits if_splits intro: four)
  next
    case 6 then show ?thesis using assms s by (auto simp: decode_rune_def Let_def)
  qed
qed

lemma decode_good_encode:
  assumes "decode_rune s = (r, w)" "s \<noteq> []" "\<not> (r = rune_error \<and> w = 1)"
  shows "encode_rune r = take w s \<and> valid_rune r"
  using assms
proof (cases rule: decode_good_cases)
  case (one c cs)
  then show ?thesis by (simp add: encode_rune_1 valid_rune_def)
next
  case (two c0 c1 cs)
  define q where "q = bval c0 mod 32"
  define x where "x = bval c1 mod 64"
  have x: "x < 64" by (simp add: x_def)
  have v: "0xC0 + q = bval c0" "0x80 + x = bval c1"
    using lead_val(1) [of c0] cont_val [of c1] two by (auto simp: q_def x_def)
  have q: "2 \<le> q" "q < 32" using two(2,3) v by linarith+
  have r: "r = q * 64 + x" using two(5) by (simp add: q_def x_def)
  have b: "0x80 \<le> r" "r < 0x800" using r q x by linarith+
  then have "encode_rune r = [c0, c1]"
    using v x by (simp only: encode_rune_2) (simp add: r)
  moreover have "valid_rune r" using b by (simp add: valid_rune_def)
  ultimately show ?thesis using two(1,6) by simp
next
  case (three c0 c1 c2 cs)
  define q where "q = bval c0 mod 16"
  define x where "x = bval c1 mod 64"
  define y where "y = bval c2 mod 64"
  have x: "x < 64" "y < 64" by (simp_all add: x_def y_def)
  have v: "0xE0 + q = bval c0" "0x80 + x = bval c1" "0x80 + y = bval c2"
    using lead_val(2) [of c0] cont_val [of c1] cont_val [of c2] three by (auto simp: q_def x_def y_def)
  have q: "q < 16" "\<not> (q = 0 \<and> x < 32)" "\<not> (q = 13 \<and> 31 < x)" using three(3,6,7) v by linarith+
  have r: "r = (q * 64 + x) * 64 + y" using three(8) by (simp add: q_def x_def y_def)
  have rl: "r = q * 4096 + x * 64 + y" by (simp add: r)
  have "q = 0 \<Longrightarrow> 32 \<le> x" "q = 13 \<Longrightarrow> x \<le> 31" using q by auto
  note qx = this
  have "0x800 \<le> r" using rl q(1) x qx by (cases "q = 0") auto
  moreover have "r < 0x10000" using rl q(1) x by linarith
  ultimately have b: "0x800 \<le> r" "r < 0x10000" by simp_all
  have "q \<le> 12 \<or> q = 13 \<or> 14 \<le> q" by linarith
  then have "r < 0xD800 \<or> 0xE000 \<le> r" using rl q(1) x qx by (elim disjE) auto
  then have vr: "valid_rune r" using b by (auto simp: valid_rune_def)
  have "encode_rune r = [c0, c1, c2]"
    using v by (simp only: encode_rune_3 [OF b vr]) (simp only: r join_parts3 x char_of_char)
  with vr show ?thesis using three(1,9) by simp
next
  case (four c0 c1 c2 c3 cs)
  define q where "q = bval c0 mod 8"
  define x where "x = bval c1 mod 64"
  define y where "y = bval c2 mod 64"
  define z where "z = bval c3 mod 64"
  have x: "x < 64" "y < 64" "z < 64" by (simp_all add: x_def y_def z_def)
  have v: "0xF0 + q = bval c0" "0x80 + x = bval c1" "0x80 + y = bval c2" "0x80 + z = bval c3"
    using lead_val(3) [of c0] cont_val [of c1] cont_val [of c2] cont_val [of c3] four
    by (auto simp: q_def x_def y_def z_def)
  have q: "q < 5" "\<not> (q = 0 \<and> x < 16)" "\<not> (q = 4 \<and> 15 < x)" using four(3,7,8) v by linarith+
  have r: "r = ((q * 64 + x) * 64 + y) * 64 + z" using four(9) by (simp add: q_def x_def y_def z_def)
  have rl: "r = q * 262144 + x * 4096 + y * 64 + z" by (simp add: r)
  have "q = 0 \<Longrightarrow> 16 \<le> x" "q = 4 \<Longrightarrow> x \<le> 15" using q by auto
  note qx = this
  have b: "0x10000 \<le> r" using rl q(1) x qx by (cases "q = 0") auto
  have "q \<le> 3 \<or> q = 4" using q(1) by linarith
  then have "r < 0x110000" using rl q(1) x qx by (elim disjE) auto
  then have vr: "valid_rune r" using b by (simp add: valid_rune_def)
  have "encode_rune r = [c0, c1, c2, c3]"
    using v by (simp only: encode_rune_4 [OF b vr]) (simp only: r join_parts4 x char_of_char)
  with vr show ?thesis using four(1,10) by simp
qed

lemma decode_good_append:
  assumes "decode_rune s = (r, w)" "s \<noteq> []" "\<not> (r = rune_error \<and> w = 1)"
  shows "decode_rune (s @ t) = (r, w)"
  using assms
  by (cases rule: decode_good_cases) (auto simp: decode_rune_def Let_def split: if_splits)

lemma decode_good_starts:
  assumes "decode_rune s = (r, w)" "s \<noteq> []" "\<not> (r = rune_error \<and> w = 1)" "i < w"
  shows "rune_start (s ! i) \<longleftrightarrow> i = 0"
proof -
  have ns: "rune_start c" if "bval c < 0x80 \<or> 0xC0 \<le> bval c" for c
    using cont_bounds [of c] that by (auto simp: rune_start_def)
  have "i \<in> {0, 1, 2, 3}" using decode_rune_width [OF assms(2)] assms(1,4) by auto
  with assms show ?thesis
    by (cases rule: decode_good_cases) (auto simp: ns rune_start_def [of c for c] dest: cont_bounds)
qed

section \<open>The runes of a string\<close>

text \<open>
  \<open>for _, r := range s\<close> visits the runes of \<open>s\<close>; each step also covers the bytes it was
  decoded from.
\<close>

function rune_steps :: "string \<Rightarrow> (nat \<times> string) list" where
  "rune_steps s =
     (if s = [] then []
      else (let (r, w) = decode_rune s in (r, take w s) # rune_steps (drop w s)))"
  by pat_completeness auto
termination
proof (relation "measure length")
  fix s r w and p :: "nat \<times> nat"
  assume "s \<noteq> []" "p = decode_rune s" "(r, w) = p"
  then show "(drop w s, s) \<in> measure length"
    using decode_rune_width [of s] by (cases s) (auto dest: arg_cong [of _ _ snd])
qed simp

declare rune_steps.simps [simp del]

lemma rune_steps_Nil [simp]: "rune_steps [] = []"
  by (simp add: rune_steps.simps)

lemma rune_steps_unfold:
  "s \<noteq> [] \<Longrightarrow> rune_steps s =
     (fst (decode_rune s), take (snd (decode_rune s)) s) # rune_steps (drop (snd (decode_rune s)) s)"
  by (subst rune_steps.simps) (simp add: case_prod_beta)

lemma rune_steps_code [code]:
  "rune_steps [] = []"
  "rune_steps (c # cs) =
     (case decode_rune (c # cs) of (r, w) \<Rightarrow> (r, take w (c # cs)) # rune_steps (drop w (c # cs)))"
  by (simp_all add: rune_steps_unfold case_prod_beta)

lemma rune_steps_eq_Nil [simp]: "rune_steps s = [] \<longleftrightarrow> s = []"
  by (cases "s = []") (simp_all add: rune_steps_unfold)

definition good_step :: "nat \<times> string \<Rightarrow> bool" where
  "good_step st \<longleftrightarrow> \<not> (fst st = rune_error \<and> length (snd st) = 1)"

definition runes :: "string \<Rightarrow> nat list" where
  "runes s = map fst (rune_steps s)"

text \<open>\<open>utf8.Valid\<close> and \<open>utf8.ValidString\<close>.\<close>

definition valid_utf8 :: "string \<Rightarrow> bool" where
  "valid_utf8 s \<longleftrightarrow> list_all good_step (rune_steps s)"

lemma runes_Nil [simp]: "runes [] = []"
  by (simp add: runes_def)

lemma valid_utf8_Nil [simp]: "valid_utf8 []"
  by (simp add: valid_utf8_def)

lemma concat_rune_steps [simp]: "concat (map snd (rune_steps s)) = s"
proof (induction s rule: rune_steps.induct)
  case (1 s)
  then show ?case
    by (cases "s = []"; cases "decode_rune s") (simp_all add: rune_steps_unfold)
qed

text \<open>Induction over the runes of a valid string, one whole rune at a time.\<close>

lemma valid_utf8_induct [consumes 1, case_names Nil step]:
  assumes v: "valid_utf8 s"
    and nil: "P []"
    and step: "\<And>s r w. valid_utf8 (drop w s) \<Longrightarrow> s \<noteq> [] \<Longrightarrow> decode_rune s = (r, w) \<Longrightarrow>
      \<not> (r = rune_error \<and> w = 1) \<Longrightarrow> 1 \<le> w \<Longrightarrow> w \<le> length s \<Longrightarrow>
      rune_steps s = (r, take w s) # rune_steps (drop w s) \<Longrightarrow> P (drop w s) \<Longrightarrow> P s"
  shows "P s"
  using v
proof (induction s rule: rune_steps.induct)
  case (1 s)
  show ?case
  proof (cases "s = []")
    case True
    then show ?thesis using nil by simp
  next
    case False
    obtain r w where d: "decode_rune s = (r, w)" by fastforce
    have w: "1 \<le> w" "w \<le> length s" using decode_rune_width [OF False] d by auto
    have st: "rune_steps s = (r, take w s) # rune_steps (drop w s)"
      using rune_steps_unfold [OF False] d by simp
    have g: "\<not> (r = rune_error \<and> w = 1)" "valid_utf8 (drop w s)"
      using 1(2) st w by (auto simp: valid_utf8_def good_step_def)
    have "P (drop w s)" using 1(1) [OF False d [symmetric]] g(2) by simp
    then show ?thesis using step [OF g(2) False d g(1) w st] by simp
  qed
qed

lemma rune_steps_append:
  assumes "valid_utf8 s"
  shows "rune_steps (s @ t) = rune_steps s @ rune_steps t"
  using assms
proof (induction rule: valid_utf8_induct)
  case Nil
  show ?case by simp
next
  case (step s r w)
  have "decode_rune (s @ t) = (r, w)" by (rule decode_good_append [OF step(3,2,4)])
  then show ?case using step by (simp add: rune_steps_unfold [of "s @ t"])
qed

lemma runes_append: "valid_utf8 s \<Longrightarrow> runes (s @ t) = runes s @ runes t"
  by (simp add: runes_def rune_steps_append)

lemma valid_utf8_append:
  "valid_utf8 s \<Longrightarrow> valid_utf8 (s @ t) \<longleftrightarrow> valid_utf8 t"
  by (simp add: valid_utf8_def rune_steps_append)

lemma valid_utf8_appendI: "valid_utf8 s \<Longrightarrow> valid_utf8 t \<Longrightarrow> valid_utf8 (s @ t)"
  by (simp add: valid_utf8_append)

text \<open>A valid string cut where a rune starts gives two valid strings.\<close>

lemma valid_cut:
  assumes "valid_utf8 s" "i = length s \<or> i < length s \<and> rune_start (s ! i)"
  shows "valid_utf8 (take i s) \<and> valid_utf8 (drop i s)"
  using assms
proof (induction arbitrary: i rule: valid_utf8_induct)
  case Nil
  then show ?case by simp
next
  case (step s r w)
  consider "i = 0" | "0 < i" "i < w" | "w \<le> i" by linarith
  then show ?case
  proof cases
    case 1
    then show ?thesis using step by (simp add: valid_utf8_def good_step_def)
  next
    case 2
    then have "\<not> rune_start (s ! i)" using decode_good_starts [OF step(3,2,4)] by auto
    then show ?thesis using step 2 by auto
  next
    case 3
    have cut: "i - w = length (drop w s) \<or> i - w < length (drop w s) \<and> rune_start (drop w s ! (i - w))"
      using step.prems 3 step(6) by auto
    have ih: "valid_utf8 (take (i - w) (drop w s))" "valid_utf8 (drop (i - w) (drop w s))"
      using step.IH [OF cut] by auto
    have tk: "take i s = take w s @ take (i - w) (drop w s)"
      using 3 by (metis append_take_drop_id le_add_diff_inverse take_add)
    have dw: "decode_rune (take w s) = (r, w)"
      using decode_good_encode [OF step(3,2,4)] decode_encode [of r "[]"] step(6) by simp
    have "take w s \<noteq> []" using step(5,2) by (cases s) auto
    then have "valid_utf8 (take w s)"
      using dw step by (simp add: valid_utf8_def good_step_def rune_steps_unfold)
    then show ?thesis using ih tk 3 by (simp add: valid_utf8_appendI)
  qed
qed

lemma ascii_runes:
  "list_all (\<lambda>c. bval c < 0x80) s \<Longrightarrow> rune_steps s = map (\<lambda>c. (bval c, [c])) s"
proof (induction s)
  case (Cons c s)
  then show ?case by (simp add: rune_steps_unfold decode_rune_ascii)
qed simp

lemma ascii_valid: "list_all (\<lambda>c. bval c < 0x80) s \<Longrightarrow> valid_utf8 s"
  by (auto simp: valid_utf8_def ascii_runes list_all_iff good_step_def rune_error_def)

lemma encode_rune_ne [simp]: "encode_rune r \<noteq> []"
  by (simp add: encode_rune_def Let_def)

lemma rune_steps_encode:
  assumes "valid_rune r"
  shows "rune_steps (encode_rune r @ s) = (r, encode_rune r) # rune_steps s"
  using decode_encode [OF assms, of s] by (simp add: rune_steps_unfold)

lemma encode_good: "good_step (r, encode_rune r)"
  by (auto simp: good_step_def rune_error_def encode_rune_def valid_rune_def)

lemma valid_encode: "valid_utf8 (encode_rune r)"
proof (cases "valid_rune r")
  case True
  then show ?thesis using rune_steps_encode [of r "[]"] encode_good [of r] by (simp add: valid_utf8_def)
next
  case False
  have "valid_rune rune_error" by (simp add: valid_rune_def rune_error_def)
  then show ?thesis using False rune_steps_encode [of rune_error "[]"] encode_good [of rune_error]
    by (simp add: valid_utf8_def encode_rune_invalid)
qed

end
