(* ===== verification/GoStrings.thy ===== *)
theory GoStrings
  imports Utf8
begin

text \<open>
  The functions of package \<open>strings\<close> the program calls, over byte strings. Functions of the
  Go library that consult the Unicode tables beyond ASCII (\<open>unicode.ToLower\<close>,
  \<open>unicode.IsLetter\<close>, \<open>unicode.IsDigit\<close>, simple case folding) take those tables as a
  parameter of type \<open>unicode\<close>, used for runes from U+0080 on; white space is written out in
  full. \<open>ink\<close>, the non-space runes of a string, is the measure of "no text was lost" used by
  the text components.
\<close>

record unicode =
  uc_lower :: "nat \<Rightarrow> nat"
  uc_letter :: "nat \<Rightarrow> bool"
  uc_digit :: "nat \<Rightarrow> bool"
  uc_fold :: "nat \<Rightarrow> nat \<Rightarrow> bool"

section \<open>Classification and case\<close>

text \<open>\<open>unicode.IsSpace\<close>\<close>

definition is_space :: "nat \<Rightarrow> bool" where
  "is_space r \<longleftrightarrow> 9 \<le> r \<and> r \<le> 13 \<or> r = 32 \<or> r = 0x85 \<or> r = 0xA0 \<or> r = 0x1680
     \<or> 0x2000 \<le> r \<and> r \<le> 0x200A \<or> r = 0x2028 \<or> r = 0x2029 \<or> r = 0x202F \<or> r = 0x205F \<or> r = 0x3000"

definition lower_rune :: "unicode \<Rightarrow> nat \<Rightarrow> nat" where
  "lower_rune u r = (if r < 0x80 then (if 65 \<le> r \<and> r \<le> 90 then r + 32 else r) else uc_lower u r)"

definition is_letter :: "unicode \<Rightarrow> nat \<Rightarrow> bool" where
  "is_letter u r = (if r < 0x80 then 65 \<le> r \<and> r \<le> 90 \<or> 97 \<le> r \<and> r \<le> 122 else uc_letter u r)"

definition is_digit :: "unicode \<Rightarrow> nat \<Rightarrow> bool" where
  "is_digit u r = (if r < 0x80 then 48 \<le> r \<and> r \<le> 57 else uc_digit u r)"

text \<open>
  \<open>strings.Map\<close>: \<^term>\<open>None\<close> drops the rune (a negative result). A byte that is not UTF-8 is
  seen as U+FFFD and, if kept, written as its three-byte encoding.
\<close>

definition strings_map :: "(nat \<Rightarrow> nat option) \<Rightarrow> string \<Rightarrow> string" where
  "strings_map f s = concat (map (\<lambda>r. case f r of None \<Rightarrow> [] | Some r' \<Rightarrow> encode_rune r') (runes s))"

definition to_lower :: "unicode \<Rightarrow> string \<Rightarrow> string" where
  "to_lower u s = strings_map (\<lambda>r. Some (lower_rune u r)) s"

definition fold_rune_eq :: "unicode \<Rightarrow> nat \<Rightarrow> nat \<Rightarrow> bool" where
  "fold_rune_eq u a b \<longleftrightarrow> a = b \<or> (if a < 0x80 \<and> b < 0x80 then lower_rune u a = lower_rune u b else uc_fold u a b)"

definition equal_fold :: "unicode \<Rightarrow> string \<Rightarrow> string \<Rightarrow> bool" where
  "equal_fold u s t = list_all2 (fold_rune_eq u) (runes s) (runes t)"

section \<open>Searching and splitting\<close>

definition has_prefix :: "string \<Rightarrow> string \<Rightarrow> bool" where
  "has_prefix s p = prefix p s"

definition has_suffix :: "string \<Rightarrow> string \<Rightarrow> bool" where
  "has_suffix s p = suffix p s"

definition trim_prefix :: "string \<Rightarrow> string \<Rightarrow> string" where
  "trim_prefix s p = (if prefix p s then drop (length p) s else s)"

definition trim_suffix :: "string \<Rightarrow> string \<Rightarrow> string" where
  "trim_suffix s p = (if suffix p s then take (length s - length p) s else s)"

text \<open>\<open>strings.Index\<close>\<close>

fun index_of :: "string \<Rightarrow> string \<Rightarrow> nat option" where
  "index_of sub [] = (if sub = [] then Some 0 else None)"
| "index_of sub (c # cs) = (if prefix sub (c # cs) then Some 0 else map_option Suc (index_of sub cs))"

definition contains :: "string \<Rightarrow> string \<Rightarrow> bool" where
  "contains s sub = (index_of sub s \<noteq> None)"

lemma index_of_Some:
  "index_of sub s = Some i \<Longrightarrow> i + length sub \<le> length s \<and> take (length sub) (drop i s) = sub"
proof (induction sub s arbitrary: i rule: index_of.induct)
  case (1 sub)
  then show ?case by (auto split: if_splits)
next
  case (2 sub c cs)
  show ?case
  proof (cases "prefix sub (c # cs)")
    case True
    then obtain zs where zs: "c # cs = sub @ zs" by (auto simp: prefix_def)
    have "i = 0" using True 2(2) by simp
    then show ?thesis by (simp add: zs del: drop_0 index_of.simps) 
  next
    case False
    then obtain j where "index_of sub cs = Some j" "i = Suc j" using 2(2) by auto
    then show ?thesis using 2(1) [OF False] by auto
  qed
qed

lemma contains_iff: "contains s sub \<longleftrightarrow> (\<exists>a b. s = a @ sub @ b)"
proof
  assume "contains s sub"
  then obtain i where "index_of sub s = Some i" by (auto simp: contains_def)
  from index_of_Some [OF this] have "s = take i s @ sub @ drop (i + length sub) s"
    by (metis append_take_drop_id drop_drop add.commute)
  then show "\<exists>a b. s = a @ sub @ b" by blast
next
  assume "\<exists>a b. s = a @ sub @ b"
  then obtain a b where "s = a @ sub @ b" by blast
  then show "contains s sub"
  proof (induction a arbitrary: s)
    case Nil
    then have "prefix sub s" by (simp add: prefix_def)
    then show ?case by (cases s) (auto simp: contains_def)
  next
    case (Cons x a)
    then have "contains (a @ sub @ b) sub" by blast
    then show ?case using Cons(2) by (auto simp: contains_def)
  qed
qed

text \<open>\<open>strings.Split\<close> for a non-empty separator\<close>

function split_on :: "string \<Rightarrow> string \<Rightarrow> string list" where
  "split_on sep s =
     (if sep = [] then [s]
      else case index_of sep s of
             None \<Rightarrow> [s]
           | Some i \<Rightarrow> take i s # split_on sep (drop (i + length sep) s))"
  by pat_completeness auto
termination
proof (relation "measure (length \<circ> snd)")
  fix sep s and i :: nat
  assume "sep \<noteq> []" "index_of sep s = Some i"
  then show "((sep, drop (i + length sep) s), (sep, s)) \<in> measure (length \<circ> snd)"
    using index_of_Some [of sep s i] by (cases sep) auto
qed simp

declare split_on.simps [simp del]

lemma split_on_ne [simp]: "split_on sep s \<noteq> []"
  by (subst split_on.simps) (simp split: option.split)

text \<open>\<open>strings.ReplaceAll\<close> for a non-empty \<open>old\<close>, left to right without overlap\<close>

function replace_all :: "string \<Rightarrow> string \<Rightarrow> string \<Rightarrow> string" where
  "replace_all old new [] = []"
| "replace_all old new (c # cs) =
     (if old \<noteq> [] \<and> prefix old (c # cs) then new @ replace_all old new (drop (length old) (c # cs))
      else c # replace_all old new cs)"
  by pat_completeness auto
termination
  by (relation "measure (\<lambda>(old, new, s). length s)") (auto simp: neq_Nil_conv)

declare replace_all.simps(2) [simp del]

lemma replace_all_byte: "replace_all [a] [b] s = map (\<lambda>c. if c = a then b else c) s"
  by (induction s) (auto simp: replace_all.simps(2))

lemma replace_all_skip:
  assumes "old \<noteq> []" "hd old \<notin> set x"
  shows "replace_all old new (x @ s) = x @ replace_all old new s"
  using assms(2)
proof (induction x)
  case (Cons c x)
  then have "\<not> prefix old (c # x @ s)" using assms(1) by (cases old) auto
  then show ?case using Cons by (simp add: replace_all.simps(2))
qed simp

text \<open>\<open>strings.FieldsFunc\<close>: maximal runs of runes that do not satisfy the predicate\<close>

fun fields_steps :: "(nat \<Rightarrow> bool) \<Rightarrow> string \<Rightarrow> (nat \<times> string) list \<Rightarrow> string list" where
  "fields_steps P acc [] = (if acc = [] then [] else [acc])"
| "fields_steps P acc ((r, b) # st) =
     (if P r then (if acc = [] then [] else [acc]) @ fields_steps P [] st
      else fields_steps P (acc @ b) st)"

definition fields_func :: "(nat \<Rightarrow> bool) \<Rightarrow> string \<Rightarrow> string list" where
  "fields_func P s = fields_steps P [] (rune_steps s)"

definition fields :: "string \<Rightarrow> string list" where
  "fields s = fields_func is_space s"

text \<open>\<open>strings.Join\<close>\<close>

fun join :: "string \<Rightarrow> string list \<Rightarrow> string" where
  "join sep [] = []"
| "join sep [x] = x"
| "join sep (x # y # ys) = x @ sep @ join sep (y # ys)"

text \<open>\<open>strings.LastIndexAny\<close> for ASCII characters\<close>

definition last_index_any :: "string \<Rightarrow> string \<Rightarrow> nat option" where
  "last_index_any s chars = last_index (\<lambda>c. c \<in> set chars) s"

section \<open>Trimming\<close>

text \<open>\<open>strings.Trim\<close> with an ASCII cut set works byte by byte.\<close>

definition trim_bytes :: "string \<Rightarrow> string \<Rightarrow> string" where
  "trim_bytes s cutset =
     rev (dropWhile (\<lambda>c. c \<in> set cutset) (rev (dropWhile (\<lambda>c. c \<in> set cutset) s)))"

text \<open>\<open>utf8.DecodeLastRuneInString\<close>: at most four bytes are looked back over for a rune start.\<close>

definition decode_last_rune :: "string \<Rightarrow> nat \<times> nat" where
  "decode_last_rune s =
     (if s = [] then (rune_error, 0)
      else if bval (last s) < 0x80 then (bval (last s), 1)
      else case find (\<lambda>n. n \<le> length s \<and> rune_start (s ! (length s - n))) [2, 3, 4] of
             None \<Rightarrow> (rune_error, 1)
           | Some n \<Rightarrow>
               (let (r, w) = decode_rune (drop (length s - n) s) in
                if w = n then (r, w) else (rune_error, 1)))"

lemma decode_last_rune_width: "s \<noteq> [] \<Longrightarrow> 1 \<le> snd (decode_last_rune s)"
  by (auto simp: decode_last_rune_def find_Some_iff split: option.split prod.splits)

text \<open>\<open>strings.TrimLeftFunc\<close>, \<open>strings.TrimRightFunc\<close> and \<open>strings.TrimSpace\<close>\<close>

definition trim_left_func :: "(nat \<Rightarrow> bool) \<Rightarrow> string \<Rightarrow> string" where
  "trim_left_func P s = concat (map snd (dropWhile (\<lambda>st. P (fst st)) (rune_steps s)))"

function trim_right_func :: "(nat \<Rightarrow> bool) \<Rightarrow> string \<Rightarrow> string" where
  "trim_right_func P s =
     (if s = [] then []
      else if P (fst (decode_last_rune s))
      then trim_right_func P (take (length s - snd (decode_last_rune s)) s)
      else s)"
  by pat_completeness auto
termination
proof (relation "measure (length \<circ> snd)")
  fix P and s :: string
  assume "s \<noteq> []"
  then show "((P, take (length s - snd (decode_last_rune s)) s), P, s) \<in> measure (length \<circ> snd)"
    using decode_last_rune_width [of s] by (cases s) auto
qed simp

declare trim_right_func.simps [simp del]

definition trim_space :: "string \<Rightarrow> string" where
  "trim_space s = trim_right_func is_space (trim_left_func is_space s)"

end
