(* ===== verification/GoText.thy ===== *)
theory GoText
  imports GoStrings
begin

text \<open>
  Facts about text on valid UTF-8 strings: trimming, replacing and splitting keep validity and
  \<open>ink\<close>, the sequence of runes that are not white space.
\<close>

section \<open>What trimming keeps\<close>

definition ink :: "string \<Rightarrow> nat list" where
  "ink s = filter (\<lambda>r. \<not> is_space r) (runes s)"

lemma ink_Nil [simp]: "ink [] = []"
  by (simp add: ink_def)

lemma ink_append: "valid_utf8 s \<Longrightarrow> ink (s @ t) = ink s @ ink t"
  by (simp add: ink_def runes_append)

text \<open>The runes of a valid string can be peeled off at the end as well.\<close>

lemma valid_last_step:
  assumes "valid_utf8 s" "s \<noteq> []"
  obtains t x r where "s = t @ x" "valid_utf8 t" "x \<noteq> []" "decode_rune x = (r, length x)"
    "\<not> (r = rune_error \<and> length x = 1)" "rune_steps s = rune_steps t @ [(r, x)]"
  using assms
proof (induction arbitrary: thesis rule: valid_utf8_induct)
  case Nil
  then show ?case by simp
next
  case (step s r w)
  show ?case
  proof (cases "drop w s = []")
    case True
    then have "w = length s" using step(6) by simp
    then show ?thesis using step by (intro step.prems(1) [of "[]" s r]) auto
  next
    case False
    then obtain t x r' where tx: "drop w s = t @ x" "valid_utf8 t" "x \<noteq> []"
      "decode_rune x = (r', length x)" "\<not> (r' = rune_error \<and> length x = 1)"
      "rune_steps (drop w s) = rune_steps t @ [(r', x)]"
      using step.IH by metis
    have s: "s = (take w s @ t) @ x" using tx(1) by (metis append.assoc append_take_drop_id)
    have vw: "valid_utf8 (take w s)" "rune_steps (take w s) = [(r, take w s)]"
    proof -
      have "decode_rune (take w s) = (r, w)"
        using decode_good_encode [OF step(3,2,4)] decode_encode [of r "[]"] step(6) by simp
      moreover have "take w s \<noteq> []" using step(5,2) by (cases s) auto
      ultimately show "valid_utf8 (take w s)" "rune_steps (take w s) = [(r, take w s)]"
        using step by (simp_all add: valid_utf8_def good_step_def rune_steps_unfold)
    qed
    show ?thesis
      using step.prems(1) [OF s _ tx(3,4,5)] vw tx step(7)
      by (simp add: valid_utf8_appendI rune_steps_append)
  qed
qed

lemma decode_last_rune_valid:
  assumes "decode_rune x = (r, length x)" "x \<noteq> []" "\<not> (r = rune_error \<and> length x = 1)"
  shows "decode_last_rune (t @ x) = (r, length x)"
proof -
  have len: "length x \<in> {1, 2, 3, 4}"
    using decode_rune_width [OF assms(2)] assms(1) by auto
  have st: "rune_start (x ! i) \<longleftrightarrow> i = 0" if "i < length x" for i
    using decode_good_starts [OF assms(1,2,3) that] .
  show ?thesis
  proof (cases "length x = 1")
    case True
    then obtain c where c: "x = [c]" by (auto simp: length_Suc_conv)
    from assms(1,2,3) True c have "bval c < 0x80 \<and> r = bval c"
      by (cases rule: decode_good_cases [OF assms(1,2,3)]) auto
    then show ?thesis using c by (simp add: decode_last_rune_def)
  next
    case False
    then have l2: "length x - 1 < length x" "length x - 1 \<noteq> 0" using len by auto
    have "cont (last x)" using st [OF l2(1)] l2(2) assms(2) by (simp add: rune_start_def last_conv_nth)
    then have big: "\<not> bval (last (t @ x)) < 0x80" using cont_bounds [of "last x"] assms(2) by simp
    have idx: "rune_start ((t @ x) ! (length (t @ x) - n)) \<longleftrightarrow> n = length x" if "n \<le> length x" "0 < n" for n
    proof -
      have "length (t @ x) - n = length t + (length x - n)" using that by simp
      then have "(t @ x) ! (length (t @ x) - n) = x ! (length x - n)"
        by (simp only: nth_append_length_plus)
      then show ?thesis using st [of "length x - n"] that by auto
    qed
    have "find (\<lambda>n. n \<le> length (t @ x) \<and> rune_start ((t @ x) ! (length (t @ x) - n))) [2, 3, 4] = Some (length x)"
      using len False idx [of 2] idx [of 3] idx [of 4] by (auto simp del: length_append) auto
    then show ?thesis using big assms by (simp add: decode_last_rune_def)
  qed
qed

definition trim_steps :: "(nat \<Rightarrow> bool) \<Rightarrow> (nat \<times> string) list \<Rightarrow> (nat \<times> string) list" where
  "trim_steps P st = rev (dropWhile (\<lambda>x. P (fst x)) (rev st))"

lemma trim_right_valid:
  assumes "valid_utf8 s"
  shows "valid_utf8 (trim_right_func P s) \<and> rune_steps (trim_right_func P s) = trim_steps P (rune_steps s)"
  using assms
proof (induction P s rule: trim_right_func.induct)
  case (1 P s)
  show ?case
  proof (cases "s = []")
    case True
    then show ?thesis by (simp add: trim_right_func.simps trim_steps_def)
  next
    case False
    obtain t x r where tx: "s = t @ x" "valid_utf8 t" "x \<noteq> []" "decode_rune x = (r, length x)"
      "\<not> (r = rune_error \<and> length x = 1)" "rune_steps s = rune_steps t @ [(r, x)]"
      using valid_last_step [OF 1(2) False] by metis
    have d: "decode_last_rune s = (r, length x)" using decode_last_rune_valid [OF tx(4,3,5)] tx(1) by simp
    show ?thesis
    proof (cases "P r")
      case True
      have tk: "take (length s - length x) s = t" using tx(1) by simp
      have ih: "valid_utf8 (trim_right_func P t) \<and> rune_steps (trim_right_func P t) = trim_steps P (rune_steps t)"
        using 1(1) [OF False] True d tk tx(2) by simp
      have "trim_right_func P s = trim_right_func P t"
        using False True d tk by (subst trim_right_func.simps) simp
      then show ?thesis using ih True by (simp add: tx(6) trim_steps_def)
    next
      case np: False
      then have "trim_right_func P s = s" using False d by (subst trim_right_func.simps) simp
      then show ?thesis using 1(2) np by (simp add: tx(6) trim_steps_def)
    qed
  qed
qed

lemma steps_of_suffix:
  assumes "valid_utf8 s" "rune_steps s = st1 @ st2"
  shows "rune_steps (concat (map snd st2)) = st2 \<and> valid_utf8 (concat (map snd st2))"
  using assms
proof (induction arbitrary: st1 rule: valid_utf8_induct)
  case Nil
  then show ?case by simp
next
  case (step s r w)
  show ?case
  proof (cases st1)
    case Nil
    have "valid_utf8 s" using step by (simp add: valid_utf8_def good_step_def)
    moreover have "concat (map snd st2) = s" using step.prems Nil concat_rune_steps [of s] by simp
    ultimately show ?thesis using step.prems Nil by simp
  next
    case (Cons a st)
    then show ?thesis using step.IH [of st] step.prems step(7) by simp
  qed
qed

lemma trim_left_valid:
  assumes "valid_utf8 s"
  shows "valid_utf8 (trim_left_func P s) \<and>
    rune_steps (trim_left_func P s) = dropWhile (\<lambda>x. P (fst x)) (rune_steps s)"
proof -
  have "rune_steps s = takeWhile (\<lambda>x. P (fst x)) (rune_steps s) @ dropWhile (\<lambda>x. P (fst x)) (rune_steps s)"
    by simp
  from steps_of_suffix [OF assms this] show ?thesis by (simp add: trim_left_func_def)
qed

lemma filter_trim_steps: "filter (\<lambda>r. \<not> P r) (map fst (trim_steps P st)) = filter (\<lambda>r. \<not> P r) (map fst st)"
proof -
  have d: "filter (\<lambda>r. \<not> P r) (map fst (dropWhile (\<lambda>x. P (fst x)) xs)) = filter (\<lambda>r. \<not> P r) (map fst xs)"
    for xs :: "(nat \<times> string) list"
    by (induction xs) auto
  show ?thesis
    unfolding trim_steps_def by (metis d rev_filter rev_map rev_rev_ident)
qed

lemma filter_dropWhile_steps:
  "filter (\<lambda>r. \<not> P r) (map fst (dropWhile (\<lambda>x. P (fst x)) st)) = filter (\<lambda>r. \<not> P r) (map fst st)"
  by (induction st) auto

lemma all_dropWhile: "(\<forall>x\<in>set (dropWhile P xs). P x) \<longleftrightarrow> (\<forall>x\<in>set xs. P x)"
  by (induction xs) auto

lemma trim_space_valid: "valid_utf8 s \<Longrightarrow> valid_utf8 (trim_space s)"
  by (simp add: trim_space_def trim_left_valid trim_right_valid)

lemma ink_trim_space: "valid_utf8 s \<Longrightarrow> ink (trim_space s) = ink s"
  by (simp add: trim_space_def ink_def runes_def trim_right_valid trim_left_valid
      filter_trim_steps filter_dropWhile_steps)

lemma steps_trim_space:
  "valid_utf8 s \<Longrightarrow> rune_steps (trim_space s) =
     trim_steps is_space (dropWhile (\<lambda>x. is_space (fst x)) (rune_steps s))"
  by (simp add: trim_space_def trim_right_valid trim_left_valid)

text \<open>A trimmed string is empty exactly when it held no ink.\<close>

lemma trim_space_Nil_iff: "valid_utf8 s \<Longrightarrow> trim_space s = [] \<longleftrightarrow> ink s = []"
proof -
  assume v: "valid_utf8 s"
  have "trim_space s = [] \<longleftrightarrow> rune_steps (trim_space s) = []" by simp
  also have "\<dots> \<longleftrightarrow> (\<forall>x\<in>set (dropWhile (\<lambda>x. is_space (fst x)) (rune_steps s)). is_space (fst x))"
    by (simp only: steps_trim_space [OF v]) (simp add: trim_steps_def)
  also have "\<dots> \<longleftrightarrow> (\<forall>x\<in>set (rune_steps s). is_space (fst x))"
    by (rule all_dropWhile)
  also have "\<dots> \<longleftrightarrow> ink s = []" by (auto simp: ink_def runes_def filter_empty_conv)
  finally show ?thesis .
qed

lemma trim_right_prefix: "\<exists>b. s = trim_right_func P s @ b"
proof (induction P s rule: trim_right_func.induct)
  case (1 P s)
  show ?case
  proof (cases "s \<noteq> [] \<and> P (fst (decode_last_rune s))")
    case True
    let ?t = "take (length s - snd (decode_last_rune s)) s"
    obtain b where "?t = trim_right_func P ?t @ b" using 1 True by auto
    then have "s = trim_right_func P ?t @ b @ drop (length s - snd (decode_last_rune s)) s"
      by (metis append.assoc append_take_drop_id)
    then show ?thesis using True by (metis trim_right_func.simps)
  next
    case False
    then show ?thesis by (subst trim_right_func.simps) auto
  qed
qed

lemma trim_left_suffix: "\<exists>a. s = a @ trim_left_func P s"
proof -
  have "s = concat (map snd (takeWhile (\<lambda>x. P (fst x)) (rune_steps s) @ dropWhile (\<lambda>x. P (fst x)) (rune_steps s)))"
    by simp
  then show ?thesis unfolding trim_left_func_def by (metis concat_append map_append)
qed

lemma trim_space_sub: "\<exists>a b. s = a @ trim_space s @ b"
  using trim_left_suffix [of s is_space] trim_right_prefix [of "trim_left_func is_space s" is_space]
  unfolding trim_space_def by metis

lemma length_trim_space [shrink_intros]: "length (trim_space s) \<le> length s"
  using trim_space_sub [of s] by (metis length_append le_add1 le_add2 order_trans)

lemma trim_trim: "trim_steps P (trim_steps P st) = trim_steps P st"
  by (simp add: trim_steps_def)

text \<open>Trimming is idempotent on valid text.\<close>

lemma trim_space_idem: "valid_utf8 s \<Longrightarrow> trim_space (trim_space s) = trim_space s"
proof -
  assume v: "valid_utf8 s"
  let ?d = "dropWhile (\<lambda>x. is_space (fst x))"
  have id: "?d (trim_steps is_space (?d st)) = trim_steps is_space (?d st)" for st :: "(nat \<times> string) list"
  proof (cases "?d st")
    case Nil
    show ?thesis by (simp only: Nil) (simp add: trim_steps_def)
  next
    case (Cons a as)
    then have na: "\<not> is_space (fst a)" by (metis hd_dropWhile list.sel(1) list.discI)
    have "trim_steps is_space (a # as) = a # trim_steps is_space as"
      using na by (simp add: trim_steps_def dropWhile_append)
    then show ?thesis using Cons na by simp
  qed
  have "rune_steps (trim_space (trim_space s)) = rune_steps (trim_space s)"
    by (simp only: steps_trim_space trim_space_valid v id trim_trim)
  then show ?thesis by (metis concat_rune_steps)
qed

section \<open>Cutting, splitting and replacing\<close>

lemma ascii_rune_start: "bval c < 0x80 \<Longrightarrow> rune_start c"
  using cont_bounds [of c] by (auto simp: rune_start_def)

lemma valid_ascii_tail:
  assumes "valid_utf8 (a @ m @ b)" "list_all (\<lambda>c. bval c < 0x80) m" "m \<noteq> []"
  shows "valid_utf8 a \<and> valid_utf8 b"
proof -
  have "valid_utf8 (take (length a) (a @ m @ b)) \<and> valid_utf8 (drop (length a) (a @ m @ b))"
    using assms(2,3) by (intro valid_cut [OF assms(1)]) (cases m; auto intro: ascii_rune_start)
  then have ab: "valid_utf8 a" "valid_utf8 (m @ b)" by simp_all
  then show ?thesis using valid_utf8_append [OF ascii_valid [OF assms(2)]] by blast
qed

lemma ink_spaces: "list_all (\<lambda>c. is_space (bval c) \<and> bval c < 0x80) m \<Longrightarrow> ink m = []"
proof -
  assume m: "list_all (\<lambda>c. is_space (bval c) \<and> bval c < 0x80) m"
  then have "list_all (\<lambda>c. bval c < 0x80) m" by (simp add: list_all_iff)
  then show ?thesis using m by (auto simp: ink_def runes_def ascii_runes list_all_iff filter_empty_conv)
qed

abbreviation blank_ascii :: "string \<Rightarrow> bool" where
  "blank_ascii m \<equiv> list_all (\<lambda>c. is_space (bval c) \<and> bval c < 0x80) m"

lemma blank_ascii_valid: "blank_ascii m \<Longrightarrow> valid_utf8 m"
  by (rule ascii_valid) (simp add: list_all_iff)

lemma ink_blank_append: "blank_ascii m \<Longrightarrow> ink (m @ s) = ink s"
  by (simp add: ink_append blank_ascii_valid ink_spaces)

lemma split_on_ink:
  assumes "valid_utf8 s" "blank_ascii sep" "sep \<noteq> []"
  shows "concat (map ink (split_on sep s)) = ink s \<and> list_all valid_utf8 (split_on sep s)"
  using assms
proof (induction sep s rule: split_on.induct)
  case (1 sep s)
  show ?case
  proof (cases "index_of sep s")
    case None
    then show ?thesis using 1 by (simp add: split_on.simps [of sep s])
  next
    case (Some i)
    let ?b = "drop (i + length sep) s"
    have s: "s = take i s @ sep @ ?b"
      using index_of_Some [OF Some] by (metis append_take_drop_id drop_drop add.commute)
    have "list_all (\<lambda>c. bval c < 0x80) sep" using 1(3) by (simp add: list_all_iff)
    then have v: "valid_utf8 (take i s)" "valid_utf8 ?b"
      using valid_ascii_tail [of "take i s" sep ?b] 1(2,4) s by auto
    have ih: "concat (map ink (split_on sep ?b)) = ink ?b \<and> list_all valid_utf8 (split_on sep ?b)"
      using 1(1) [OF 1(4) Some v(2) 1(3,4)] .
    have "ink s = ink (take i s) @ ink ?b"
      by (subst s) (simp only: ink_append [OF v(1)] ink_blank_append [OF 1(3)])
    then show ?thesis using ih v Some 1(4) by (simp add: split_on.simps [of sep s])
  qed
qed

lemma valid_first_rune:
  assumes "valid_utf8 s" "s \<noteq> []"
  shows "valid_utf8 (take (snd (decode_rune s)) s) \<and> valid_utf8 (drop (snd (decode_rune s)) s)"
proof -
  obtain r w where d: "decode_rune s = (r, w)" by fastforce
  have g: "\<not> (r = rune_error \<and> w = 1)" and vd: "valid_utf8 (drop w s)"
    using assms d decode_rune_width [OF assms(2)]
    by (auto simp: valid_utf8_def rune_steps_unfold [OF assms(2)] good_step_def)
  have "take w s = encode_rune r" using decode_good_encode [OF d assms(2) g] by simp
  then have "valid_utf8 (take w s)" by (simp only: valid_encode)
  then show ?thesis using vd d by simp
qed

lemma decode_head_bytes:
  assumes "decode_rune s = (r, w)" "s \<noteq> []" "\<not> (r = rune_error \<and> w = 1)" "1 < w" "c \<in> set (take w s)"
  shows "0x80 \<le> bval c"
  using assms(1,2,3) by (cases rule: decode_good_cases) (use assms(4,5) in \<open>auto dest: cont_bounds\<close>)

text \<open>Replacing one ASCII blank sequence by another keeps the ink.\<close>

lemma replace_all_ink:
  assumes "valid_utf8 s" "blank_ascii old" "blank_ascii new" "old \<noteq> []"
  shows "valid_utf8 (replace_all old new s) \<and> ink (replace_all old new s) = ink s"
  using assms(1)
proof (induction "length s" arbitrary: s rule: less_induct)
  case less
  have vo: "list_all (\<lambda>c. bval c < 0x80) old" using assms(2) by (simp add: list_all_iff)
  show ?case
  proof (cases s)
    case Nil
    then show ?thesis by simp
  next
    case (Cons c cs)
    show ?thesis
    proof (cases "prefix old s")
      case True
      then obtain t where t: "s = old @ t" by (auto simp: prefix_def)
      have vt: "valid_utf8 t" using valid_ascii_tail [of "[]" old t] less(2) t vo assms(4) by simp
      have "length t < length s" using t assms(4) by simp
      from less(1) [OF this vt] have ih: "valid_utf8 (replace_all old new t)" "ink (replace_all old new t) = ink t" by auto
      have "replace_all old new s = new @ replace_all old new (drop (length old) s)"
        using True assms(4) unfolding Cons by (subst replace_all.simps(2)) simp
      then have "replace_all old new s = new @ replace_all old new t" by (simp add: t)
      then show ?thesis
        using ih by (simp add: t ink_blank_append assms valid_utf8_append blank_ascii_valid)
    next
      case False
      obtain r w where d: "decode_rune s = (r, w)" by fastforce
      have ne: "s \<noteq> []" using Cons by simp
      have g: "\<not> (r = rune_error \<and> w = 1)" and w: "1 \<le> w" "w \<le> length s" and vd: "valid_utf8 (drop w s)"
        using less(2) d decode_rune_width [OF ne]
        by (auto simp: valid_utf8_def rune_steps_unfold [OF ne] good_step_def)
      have vk: "valid_utf8 (take w s)" using valid_first_rune [OF less(2) ne] d by simp
      have "length (drop w s) < length s" using w ne by simp
      from less(1) [OF this vd] have ih: "valid_utf8 (replace_all old new (drop w s))"
        "ink (replace_all old new (drop w s)) = ink (drop w s)" by auto
      have "replace_all old new s = take w s @ replace_all old new (drop w s)"
      proof (cases "w = 1")
        case True
        then show ?thesis using False Cons by (simp add: replace_all.simps(2))
      next
        case w1: False
        then have "1 < w" using w by simp
        from decode_head_bytes [OF d ne g this] have "hd old \<notin> set (take w s)"
          using vo assms(4) by (cases old) fastforce+
        from replace_all_skip [OF assms(4) this, of new "drop w s"] show ?thesis by simp
      qed
      moreover have "ink s = ink (take w s) @ ink (drop w s)"
        using ink_append [OF vk, of "drop w s"] by simp
      ultimately show ?thesis using ih vk by (simp add: ink_append valid_utf8_append)
    qed
  qed
qed

section \<open>Mapping runes\<close>

lemma rune_steps_encoded:
  "\<forall>r\<in>set rs. valid_rune r \<Longrightarrow>
     rune_steps (concat (map encode_rune rs)) = map (\<lambda>r. (r, encode_rune r)) rs"
  by (induction rs) (simp_all add: rune_steps_encode)

lemma valid_encoded: "\<forall>r\<in>set rs. valid_rune r \<Longrightarrow> valid_utf8 (concat (map encode_rune rs))"
  by (simp add: valid_utf8_def rune_steps_encoded list_all_iff encode_good)

lemma decode_valid_rune: "s \<noteq> [] \<Longrightarrow> valid_rune (fst (decode_rune s))"
proof -
  assume ne: "s \<noteq> []"
  obtain r w where d: "decode_rune s = (r, w)" by fastforce
  show ?thesis
  proof (cases "r = rune_error \<and> w = 1")
    case True
    then show ?thesis using d by (simp add: valid_rune_def rune_error_def)
  next
    case False
    then show ?thesis using decode_good_encode [OF d ne] d by simp
  qed
qed

lemma runes_are_valid: "\<forall>r\<in>set (runes s). valid_rune r"
proof (induction s rule: rune_steps.induct)
  case (1 s)
  then show ?case
    using decode_valid_rune [of s]
    by (cases "s = []"; cases "decode_rune s") (simp_all add: runes_def rune_steps_unfold)
qed

lemma strings_map_filter:
  "strings_map f s = concat (map encode_rune (List.map_filter f (runes s)))"
proof -
  have "concat (map (\<lambda>r. case f r of None \<Rightarrow> [] | Some r' \<Rightarrow> encode_rune r') rs)
    = concat (map encode_rune (List.map_filter f rs))" for rs
    by (induction rs) (auto simp: map_filter_simps split: option.splits)
  then show ?thesis by (simp only: strings_map_def)
qed

lemma rune_steps_strings_map:
  assumes "\<And>r r'. valid_rune r \<Longrightarrow> f r = Some r' \<Longrightarrow> valid_rune r'"
  shows "rune_steps (strings_map f s) = map (\<lambda>r. (r, encode_rune r)) (List.map_filter f (runes s))"
proof -
  have "\<forall>r\<in>set (List.map_filter f (runes s)). valid_rune r"
    using runes_are_valid [of s] assms by (auto simp: List.map_filter_def)
  then show ?thesis by (simp add: strings_map_filter rune_steps_encoded)
qed

lemma runes_strings_map:
  assumes "\<And>r r'. valid_rune r \<Longrightarrow> f r = Some r' \<Longrightarrow> valid_rune r'"
  shows "runes (strings_map f s) = List.map_filter f (runes s)"
  using rune_steps_strings_map [of f s] assms by (simp add: runes_def o_def)

lemma valid_strings_map:
  assumes "\<And>r r'. valid_rune r \<Longrightarrow> f r = Some r' \<Longrightarrow> valid_rune r'"
  shows "valid_utf8 (strings_map f s)"
  using rune_steps_strings_map [of f s] assms by (simp add: valid_utf8_def list_all_iff encode_good)

lemma encode_runes_valid: "valid_utf8 s \<Longrightarrow> concat (map encode_rune (runes s)) = s"
proof (induction rule: valid_utf8_induct)
  case (step s r w)
  then have "encode_rune r = take w s" using decode_good_encode by blast
  then show ?case using step by (simp add: runes_def)
qed simp

lemma strings_map_id: "valid_utf8 s \<Longrightarrow> (\<And>r. r \<in> set (runes s) \<Longrightarrow> f r = Some r) \<Longrightarrow> strings_map f s = s"
proof -
  assume v: "valid_utf8 s" and f: "\<And>r. r \<in> set (runes s) \<Longrightarrow> f r = Some r"
  have "List.map_filter f rs = rs" if "set rs \<subseteq> set (runes s)" for rs
    using that f by (induction rs) (auto simp: map_filter_simps)
  then show ?thesis by (simp add: strings_map_filter encode_runes_valid v)
qed

text \<open>The bytes below 0x80 of an encoded rune are the rune itself.\<close>

lemma encode_rune_bytes: "c \<in> set (encode_rune r) \<Longrightarrow> bval c < 0x80 \<Longrightarrow> bval c = r"
proof -
  assume c: "c \<in> set (encode_rune r)" "bval c < 0x80"
  show ?thesis
  proof (cases "r < 0x80")
    case True
    then show ?thesis using c by (simp add: encode_rune_1)
  next
    case False
    let ?r = "if valid_rune r then r else rune_error"
    have r': "\<not> ?r < 0x80" using False by (simp add: rune_error_def)
    have v: "valid_rune ?r" by (simp add: rune_error_def valid_rune_def)
    have eq: "encode_rune r = encode_rune ?r" by (simp add: encode_rune_invalid)
    have d: "decode_rune (encode_rune ?r) = (?r, length (encode_rune ?r))"
      using decode_encode [OF v, of "[]"] by simp
    have l: "1 < length (encode_rune ?r)" using r' by (auto simp: encode_rune_def Let_def)
    have "0x80 \<le> bval c"
      using decode_head_bytes [OF d _ _ l, of c] c(1) l unfolding eq by simp
    then show ?thesis using c(2) by simp
  qed
qed

section \<open>Case mapping\<close>

lemma rune_steps_ascii: "bval c < 0x80 \<Longrightarrow> rune_steps (c # s) = (bval c, [c]) # rune_steps s"
  by (simp add: rune_steps_unfold decode_rune_ascii)

lemma strings_map_append: "valid_utf8 s \<Longrightarrow> strings_map f (s @ t) = strings_map f s @ strings_map f t"
  by (simp add: strings_map_def runes_append)

lemma to_lower_append: "valid_utf8 s \<Longrightarrow> to_lower u (s @ t) = to_lower u s @ to_lower u t"
  by (simp add: to_lower_def strings_map_append)

lemma to_lower_Nil [simp]: "to_lower u [] = []"
  by (simp add: to_lower_def strings_map_def)

lemma to_lower_ascii:
  "bval c < 0x80 \<Longrightarrow> to_lower u (c # s) = encode_rune (lower_rune u (bval c)) @ to_lower u s"
  by (simp add: to_lower_def strings_map_def runes_def rune_steps_ascii)

lemma to_lower_rune: "valid_rune r \<Longrightarrow> to_lower u (encode_rune r) = encode_rune (lower_rune u r)"
  using rune_steps_encode [of r "[]"] by (simp add: to_lower_def strings_map_def runes_def)

end
