(* ===== verification/PathNames.thy ===== *)
theory PathNames
  imports GoText
begin

text \<open>
  Slash-separated paths: the functions of Go's package \<open>path\<close> the program uses (\<open>Clean\<close>,
  \<open>Dir\<close>, \<open>Ext\<close>, \<open>Base\<close>) and \<open>SplitPath\<close> and \<open>normalizeDir\<close> of
  \<open>internal/index/index.go\<close>, with what they do on a well-formed relative path.
\<close>

section \<open>Package \<open>path\<close>\<close>

definition sl :: char where
  "sl = CHR 0x2F"

definition dot :: string where
  "dot = [CHR 0x2E]"

definition dotdot :: string where
  "dotdot = [CHR 0x2E, CHR 0x2E]"

fun clean_comps :: "bool \<Rightarrow> string list \<Rightarrow> string list \<Rightarrow> string list" where
  "clean_comps rooted acc [] = rev acc"
| "clean_comps rooted acc (c # cs) =
     (if c = [] \<or> c = dot then clean_comps rooted acc cs
      else if c = dotdot then
        (if acc \<noteq> [] \<and> hd acc \<noteq> dotdot then clean_comps rooted (tl acc) cs
         else if rooted then clean_comps rooted acc cs
         else clean_comps rooted (dotdot # acc) cs)
      else clean_comps rooted (c # acc) cs)"

definition path_clean :: "string \<Rightarrow> string" where
  "path_clean p =
     (if p = [] then dot
      else
        (let rooted = (hd p = sl);
             out = join [sl] (clean_comps rooted [] (split_on [sl] p))
         in if rooted then sl # out else if out = [] then dot else out))"

definition last_slash :: "string \<Rightarrow> nat option" where
  "last_slash p = last_index (\<lambda>c. c = sl) p"

definition path_dir :: "string \<Rightarrow> string" where
  "path_dir p = path_clean (case last_slash p of None \<Rightarrow> [] | Some i \<Rightarrow> take (Suc i) p)"

definition after_slash :: "string \<Rightarrow> string" where
  "after_slash p = (case last_slash p of None \<Rightarrow> p | Some i \<Rightarrow> drop (Suc i) p)"

definition path_ext :: "string \<Rightarrow> string" where
  "path_ext p = (case last_index (\<lambda>c. [c] = dot) (after_slash p) of None \<Rightarrow> [] | Some i \<Rightarrow> drop i (after_slash p))"

text \<open>\<open>path.Base\<close>\<close>

definition strip_right_slashes :: "string \<Rightarrow> string" where
  "strip_right_slashes p = rev (dropWhile (\<lambda>c. c = sl) (rev p))"

definition path_base :: "string \<Rightarrow> string" where
  "path_base p =
     (if p = [] then dot
      else (let b = after_slash (strip_right_slashes p) in if b = [] then [sl] else b))"

section \<open>\<open>SplitPath\<close> and \<open>normalizeDir\<close>\<close>

definition SplitPath :: "string \<Rightarrow> string \<times> string" where
  "SplitPath p =
     (let dir = trim_bytes (path_dir p) (dot @ [sl]);
          dir = (if dir = dot then [] else dir);
          ext = trim_prefix (path_ext p) dot
      in (dir, ext))"

definition normalizeDir :: "string \<Rightarrow> string" where
  "normalizeDir dir = trim_bytes dir [sl]"

section \<open>Relative paths made of plain names\<close>

definition plain :: "string \<Rightarrow> bool" where
  "plain c \<longleftrightarrow> c \<noteq> [] \<and> sl \<notin> set c \<and> c \<noteq> dot \<and> c \<noteq> dotdot"

lemma index_of_byte: "c \<notin> set x \<Longrightarrow> index_of [c] (x @ c # r) = Some (length x)"
  by (induction x) auto

lemma index_of_byte_None: "c \<notin> set x \<Longrightarrow> index_of [c] x = None"
  by (induction x) auto

lemma split_on_cons: "c \<notin> set x \<Longrightarrow> split_on [c] (x @ c # r) = x # split_on [c] r"
  by (subst split_on.simps) (simp add: index_of_byte)

lemma split_on_one: "c \<notin> set x \<Longrightarrow> split_on [c] x = [x]"
  by (subst split_on.simps) (simp add: index_of_byte_None)

lemma split_on_join:
  "xs \<noteq> [] \<Longrightarrow> list_all (\<lambda>x. c \<notin> set x) xs \<Longrightarrow> split_on [c] (join [c] xs) = xs"
  by (induction "[c]" xs rule: join.induct) (simp_all add: split_on_one split_on_cons)

lemma join_snoc: "xs \<noteq> [] \<Longrightarrow> join s (xs @ [x]) = join s xs @ s @ x"
  by (induction s xs rule: join.induct) auto

lemma clean_comps_plain:
  "list_all plain cs \<Longrightarrow> clean_comps r acc (cs @ cs') = clean_comps r (rev cs @ acc) cs'"
  by (induction cs arbitrary: acc) (auto simp: plain_def)

lemma last_index_append:
  "last_index P (xs @ ys) =
     (case last_index P ys of Some i \<Rightarrow> Some (length xs + i) | None \<Rightarrow> last_index P xs)"
  by (induction xs) (auto split: option.splits)

lemma last_slash_snoc: "sl \<notin> set x \<Longrightarrow> last_slash (s @ sl # x) = Some (length s)"
proof -
  assume "sl \<notin> set x"
  then have "last_index (\<lambda>c. c = sl) x = None" by (auto simp: last_index_None)
  then show ?thesis by (simp add: last_slash_def last_index_append)
qed

lemma last_slash_one: "sl \<notin> set x \<Longrightarrow> last_slash x = None"
  by (auto simp: last_slash_def last_index_None)

lemma join_head: "xs \<noteq> [] \<Longrightarrow> list_all plain xs \<Longrightarrow> join [sl] xs \<noteq> [] \<and> hd (join [sl] xs) \<noteq> sl"
proof -
  assume "xs \<noteq> []" "list_all plain xs"
  then obtain x ys where xs: "xs = x # ys" "x \<noteq> []" "sl \<notin> set x" by (cases xs) (auto simp: plain_def)
  then show ?thesis by (cases ys; cases x) auto
qed

lemma path_dir_join:
  assumes "list_all plain xs" "plain x"
  shows "path_dir (join [sl] (xs @ [x])) = (if xs = [] then dot else join [sl] xs)"
proof (cases "xs = []")
  case True
  then show ?thesis using assms(2) by (simp add: path_dir_def last_slash_one plain_def path_clean_def)
next
  case False
  let ?d = "join [sl] xs @ [sl]"
  have x: "sl \<notin> set x" using assms(2) by (simp add: plain_def)
  have "join [sl] (xs @ [x]) = join [sl] xs @ sl # x" using False by (simp add: join_snoc)
  then have dir: "path_dir (join [sl] (xs @ [x])) = path_clean ?d"
    using x by (simp add: path_dir_def last_slash_snoc)
  have "?d = join [sl] (xs @ [[]])" using False by (simp add: join_snoc)
  moreover have "list_all (\<lambda>x. sl \<notin> set x) (xs @ [[]])" using assms(1) by (auto simp: list_all_iff plain_def)
  ultimately have sp: "split_on [sl] ?d = xs @ [[]]" using split_on_join [of "xs @ [[]]" sl] by simp
  have h: "join [sl] xs \<noteq> []" "hd ?d \<noteq> sl" using join_head [OF False assms(1)] by auto
  have "clean_comps False [] (xs @ [[]]) = xs" using clean_comps_plain [OF assms(1), of False "[]" "[[]]"] by simp
  then show ?thesis using dir sp h False by (simp add: path_clean_def Let_def)
qed

lemma after_slash_join:
  assumes "list_all plain xs" "plain x"
  shows "after_slash (join [sl] (xs @ [x])) = x"
proof (cases "xs = []")
  case True
  then show ?thesis using assms(2) by (simp add: after_slash_def last_slash_one plain_def)
next
  case False
  then show ?thesis using assms(2) by (simp add: join_snoc after_slash_def last_slash_snoc plain_def)
qed

lemma trim_bytes_id:
  assumes "s = [] \<or> hd s \<notin> set cs \<and> last s \<notin> set cs"
  shows "trim_bytes s cs = s"
proof -
  have "dropWhile (\<lambda>c. c \<in> set cs) s = s" using assms by (auto simp: dropWhile_eq_self_iff)
  moreover have "dropWhile (\<lambda>c. c \<in> set cs) (rev s) = rev s"
    using assms by (auto simp: dropWhile_eq_self_iff hd_rev)
  ultimately show ?thesis by (simp add: trim_bytes_def)
qed

lemma join_last: "xs \<noteq> [] \<Longrightarrow> list_all plain xs \<Longrightarrow> last (join [sl] xs) = last (last xs)"
proof (induction xs rule: rev_induct)
  case (snoc x xs)
  then show ?case by (cases "xs = []") (simp_all add: join_snoc plain_def)
qed simp

text \<open>
  On a path of plain names whose directory part neither starts nor ends with a dot, \<open>SplitPath\<close>
  gives that directory. (It strips leading and trailing dots otherwise: see
  \<open>SplitPath_dot_directory\<close>.)
\<close>

lemma SplitPath_dir:
  assumes "list_all plain xs" "plain x"
    and "xs = [] \<or> hd (hd xs) \<noteq> CHR 0x2E \<and> last (last xs) \<noteq> CHR 0x2E"
  shows "fst (SplitPath (join [sl] (xs @ [x]))) = join [sl] xs"
proof (cases "xs = []")
  case True
  then show ?thesis using path_dir_join [OF assms(1,2)]
    by (simp add: SplitPath_def Let_def dot_def trim_bytes_def)
next
  case False
  let ?j = "join [sl] xs"
  have "hd ?j = hd (hd xs)"
    using False assms(1) by (cases xs; cases "tl xs") (auto simp: plain_def)
  moreover have "last ?j = last (last xs)" using join_last [OF False assms(1)] .
  moreover have "last (last xs) \<noteq> sl"
  proof -
    have "plain (last xs)" using assms(1) False by (simp add: list_all_iff)
    then show ?thesis by (metis plain_def last_in_set)
  qed
  moreover have h: "?j \<noteq> []" "hd ?j \<noteq> sl" using join_head [OF False assms(1)] by auto
  ultimately have "trim_bytes ?j (dot @ [sl]) = ?j"
    using assms(3) False by (intro trim_bytes_id) (auto simp: dot_def)
  moreover have "?j \<noteq> dot" using assms(3) False \<open>hd ?j = hd (hd xs)\<close> by (auto simp: dot_def)
  ultimately show ?thesis using path_dir_join [OF assms(1,2)] False by (simp add: SplitPath_def Let_def)
qed

text \<open>The children of a directory whose name starts with a dot are filed under another directory.\<close>

lemma SplitPath_dot_directory: "SplitPath ''.config/app.toml'' = (''config'', ''toml'')"
  by code_simp

end
