(* ===== verification/SmbPaths.thy ===== *)
theory SmbPaths
  imports PathNames
begin

text \<open>
  The pure parts of \<open>internal/smbclient\<close>: the path conversions and \<open>ValidPath\<close> of
  \<open>smbclient.go\<close>, and \<open>translateChanges\<close> of \<open>watch.go\<close>, which turns a batch of raw notify
  entries into change events.
\<close>

section \<open>Paths\<close>

definition backslash :: char where
  "backslash = CHR 0x5C"

definition toSMBPath :: "string \<Rightarrow> string" where
  "toSMBPath p =
     (let p = trim_bytes p [sl] in if p = [] then dot else replace_all [sl] [backslash] p)"

definition toSlashPath :: "string \<Rightarrow> string" where
  "toSlashPath p = replace_all [backslash] [sl] p"

definition ValidPath :: "string \<Rightarrow> bool" where
  "ValidPath p =
     (if 0 \<in> set (runes p) then False
      else list_all (\<lambda>seg. seg \<noteq> dotdot)
        (fields_func (\<lambda>r. r = bval sl \<or> r = bval backslash) p))"

section \<open>Change events\<close>

datatype action = ActionAdded | ActionRemoved | ActionModified | ActionRenamedOldName | ActionRenamedNewName
  | OtherAction nat

record notify_info =
  ni_action :: action
  ni_name :: string

datatype change_event =
    ChangeUpserted string
  | ChangeRemoved string
  | ChangeRenamed string string

text \<open>\<^term>\<open>ChangeRenamed old new\<close> carries \<open>OldPath\<close> and \<open>Path\<close>.\<close>

fun translateChanges :: "notify_info list \<Rightarrow> change_event list" where
  "translateChanges [] = []"
| "translateChanges (i # rest) =
     (case ni_action i of
        ActionAdded \<Rightarrow> ChangeUpserted (toSlashPath (ni_name i)) # translateChanges rest
      | ActionModified \<Rightarrow> ChangeUpserted (toSlashPath (ni_name i)) # translateChanges rest
      | ActionRemoved \<Rightarrow> ChangeRemoved (toSlashPath (ni_name i)) # translateChanges rest
      | ActionRenamedOldName \<Rightarrow>
          (case rest of
             [] \<Rightarrow> ChangeRemoved (toSlashPath (ni_name i)) # translateChanges rest
           | j # rest' \<Rightarrow>
               if ni_action j = ActionRenamedNewName
               then ChangeRenamed (toSlashPath (ni_name i)) (toSlashPath (ni_name j)) # translateChanges rest'
               else ChangeRemoved (toSlashPath (ni_name i)) # translateChanges rest)
      | ActionRenamedNewName \<Rightarrow> ChangeUpserted (toSlashPath (ni_name i)) # translateChanges rest
      | OtherAction _ \<Rightarrow> translateChanges rest)"

section \<open>What the conversions do\<close>

lemma toSlashPath_map: "toSlashPath p = map (\<lambda>c. if c = backslash then sl else c) p"
  by (simp add: toSlashPath_def replace_all_byte)

lemma toSMBPath_map:
  "toSMBPath p = (let q = trim_bytes p [sl] in if q = [] then dot else map (\<lambda>c. if c = sl then backslash else c) q)"
  by (simp add: toSMBPath_def replace_all_byte Let_def)

lemma sl_backslash [simp]: "sl \<noteq> backslash" "backslash \<noteq> sl"
  by (simp_all add: sl_def backslash_def)

lemma toSlashPath_toSMBPath:
  assumes "backslash \<notin> set p" "trim_bytes p [sl] \<noteq> []"
  shows "toSlashPath (toSMBPath p) = trim_bytes p [sl]"
proof -
  have "set (trim_bytes p [sl]) \<subseteq> set p"
    by (auto simp: trim_bytes_def dest!: set_dropWhileD)
  then have "map (\<lambda>c. if c = backslash then sl else c) (map (\<lambda>c. if c = sl then backslash else c) (trim_bytes p [sl]))
      = trim_bytes p [sl]"
    using assms(1) by (auto intro!: map_idI)
  then show ?thesis using assms(2) by (simp add: toSlashPath_map toSMBPath_map Let_def del: map_map)
qed

section \<open>Segments of a path\<close>

text \<open>Splitting at separator bytes, empty segments dropped\<close>

fun segments :: "(char \<Rightarrow> bool) \<Rightarrow> string \<Rightarrow> string \<Rightarrow> string list" where
  "segments Q acc [] = (if acc = [] then [] else [acc])"
| "segments Q acc (c # cs) =
     (if Q c then (if acc = [] then [] else [acc]) @ segments Q [] cs else segments Q (acc @ [c]) cs)"

lemma segments_skip: "list_all (\<lambda>c. \<not> Q c) b \<Longrightarrow> segments Q acc (b @ s) = segments Q (acc @ b) s"
  by (induction b arbitrary: acc) auto

lemma decode_high:
  assumes "decode_rune (c # cs) = (r, w)" "0x80 \<le> bval c"
  shows "0x80 \<le> r \<and> list_all (\<lambda>b. 0x80 \<le> bval b) (take w (c # cs))"
proof (cases "r = rune_error \<and> w = 1")
  case True
  then show ?thesis using assms(2) by (simp add: rune_error_def)
next
  case False
  have w: "1 \<le> w" using decode_rune_width [of "c # cs"] assms(1) by simp
  have e: "encode_rune r = take w (c # cs)" using decode_good_encode [OF assms(1) _ False] by simp
  have r: "0x80 \<le> r"
  proof (rule ccontr)
    assume "\<not> 0x80 \<le> r"
    then have "take w (c # cs) = [char_of r]" "bval (char_of r) = r" using e by (simp_all add: encode_rune_1)
    then have "bval c = r" using w by (cases w) auto
    then show False using assms(2) \<open>\<not> 0x80 \<le> r\<close> by simp
  qed
  show ?thesis
  proof (cases "w = 1")
    case True
    then show ?thesis using r assms(2) by simp
  next
    case w1: False
    then show ?thesis using r decode_head_bytes [OF assms(1) _ False] w by (simp add: list_all_iff)
  qed
qed

text \<open>Splitting at ASCII separators works byte by byte, on any bytes.\<close>

lemma fields_func_segments:
  assumes asc: "\<And>r. P r \<Longrightarrow> r < 0x80"
  shows "fields_func P s = segments (\<lambda>c. P (bval c)) [] s"
proof -
  have "fields_steps P acc (rune_steps s) = segments (\<lambda>c. P (bval c)) acc s" for acc
  proof (induction s arbitrary: acc rule: rune_steps.induct)
    case (1 s)
    show ?case
    proof (cases s)
      case (Cons c cs)
      obtain r w where d: "decode_rune s = (r, w)" by fastforce
      have ih: "fields_steps P a (rune_steps (drop w s)) = segments (\<lambda>c. P (bval c)) a (drop w s)" for a
        using 1 [OF _ d [symmetric]] Cons by simp
      have st: "rune_steps s = (r, take w s) # rune_steps (drop w s)"
        using Cons d by (simp add: rune_steps_unfold)
      show ?thesis
      proof (cases "bval c < 0x80")
        case True
        then have "r = bval c" "w = 1" using d Cons by (simp_all add: decode_rune_ascii)
        then show ?thesis using st ih Cons by simp
      next
        case False
        then have h: "0x80 \<le> r" "list_all (\<lambda>b. 0x80 \<le> bval b) (take w s)"
          using decode_high [of c cs r w] d Cons by auto
        have "\<not> P r" using asc [of r] h(1) by linarith
        moreover have "list_all (\<lambda>b. \<not> P (bval b)) (take w s)"
          unfolding list_all_iff
        proof
          fix b
          assume "b \<in> set (take w s)"
          then have "0x80 \<le> bval b" using h(2) by (simp add: list_all_iff)
          then show "\<not> P (bval b)" using asc [of "bval b"] by linarith
        qed
        ultimately show ?thesis
          using st ih segments_skip [of "\<lambda>c. P (bval c)" "take w s" acc "drop w s"] by simp
      qed
    qed simp
  qed
  then show ?thesis by (simp add: fields_func_def)
qed

lemma segments_merge:
  assumes "\<And>c. Q c \<longleftrightarrow> Q' (f c)" "\<And>c. \<not> Q c \<Longrightarrow> f c = c"
  shows "segments Q' acc (map f s) = segments Q acc s"
  by (induction s arbitrary: acc) (simp_all add: assms)

lemma segments_lead: "list_all Q a \<Longrightarrow> segments Q [] (a @ s) = segments Q [] s"
  by (induction a) auto

lemma segments_seps: "list_all Q b \<Longrightarrow> segments Q acc b = (if acc = [] then [] else [acc])"
  by (induction b arbitrary: acc) auto

lemma segments_trail: "list_all Q b \<Longrightarrow> segments Q acc (s @ b) = segments Q acc s"
  by (induction s arbitrary: acc) (simp_all add: segments_seps)

lemma trim_bytes_split: "\<exists>a b. s = a @ trim_bytes s cs @ b \<and> set a \<subseteq> set cs \<and> set b \<subseteq> set cs"
proof -
  let ?P = "\<lambda>c. c \<in> set cs"
  let ?t = "dropWhile ?P s"
  have t: "s = takeWhile ?P s @ ?t" by simp
  have u: "?t = trim_bytes s cs @ rev (takeWhile ?P (rev ?t))"
    unfolding trim_bytes_def by (metis rev_append rev_rev_ident takeWhile_dropWhile_id)
  have "set (takeWhile ?P s) \<subseteq> set cs" "set (rev (takeWhile ?P (rev ?t))) \<subseteq> set cs"
    by (auto dest: set_takeWhileD)
  then show ?thesis using t u by metis
qed

lemma segments_trim:
  assumes "list_all Q cs"
  shows "segments Q [] (trim_bytes s cs) = segments Q [] s"
proof -
  obtain a b where s: "s = a @ trim_bytes s cs @ b" and "set a \<subseteq> set cs" "set b \<subseteq> set cs"
    using trim_bytes_split by blast
  then have ab: "list_all Q a" "list_all Q b" using assms by (auto simp: list_all_iff)
  have "segments Q [] s = segments Q [] (a @ trim_bytes s cs @ b)" using s by simp
  also have "\<dots> = segments Q [] (trim_bytes s cs)" using ab by (simp add: segments_lead segments_trail)
  finally show ?thesis by simp
qed

lemma segments_split:
  "segments (\<lambda>x. x = c) [] s = filter (\<lambda>x. x \<noteq> []) (split_on [c] s)"
proof (induction "length s" arbitrary: s rule: less_induct)
  case less
  have skip: "c \<notin> set x \<Longrightarrow> segments (\<lambda>y. y = c) [] (x @ t) = segments (\<lambda>y. y = c) x t" for x t
    using segments_skip [of "\<lambda>y. y = c" x "[]" t] by (auto simp: list_all_iff)
  show ?case
  proof (cases "c \<in> set s")
    case True
    then obtain x r where s: "s = x @ c # r" "c \<notin> set x" using split_list_first by metis
    then show ?thesis using less [of r] skip [OF s(2), of "c # r"] by (simp add: split_on_cons)
  next
    case False
    then show ?thesis using skip [of s "[]"] by (simp add: split_on_one)
  qed
qed

lemma nul_byte: "0 \<in> set (runes s) \<longleftrightarrow> CHR 0x00 \<in> set s"
proof (induction s rule: rune_steps.induct)
  case (1 s)
  show ?case
  proof (cases s)
    case (Cons c cs)
    obtain r w where d: "decode_rune s = (r, w)" by fastforce
    have ih: "0 \<in> set (runes (drop w s)) \<longleftrightarrow> CHR 0x00 \<in> set (drop w s)" using 1 [OF _ d [symmetric]] Cons by simp
    have st: "runes s = r # runes (drop w s)" using Cons d by (simp add: runes_def rune_steps_unfold)
    have tk: "set s = set (take w s) \<union> set (drop w s)" by (metis append_take_drop_id set_append)
    have "r = 0 \<longleftrightarrow> CHR 0x00 \<in> set (take w s)"
    proof (cases "bval c < 0x80")
      case True
      then have r: "r = bval c" "w = 1" using d Cons by (simp_all add: decode_rune_ascii)
      have "bval c = bval (CHR 0x00) \<longleftrightarrow> c = CHR 0x00" using of_char_eq_iff by blast
      then show ?thesis using r Cons by auto
    next
      case False
      then have h: "0x80 \<le> r" "list_all (\<lambda>b. 0x80 \<le> bval b) (take w s)"
        using decode_high [of c cs r w] d Cons by auto
      then show ?thesis by (force simp: list_all_iff)
    qed
    then show ?thesis using st ih tk by auto
  qed simp
qed

text \<open>A path that \<open>ValidPath\<close> accepts, whatever its bytes, becomes an SMB path without a NUL byte
  and without a \<open>..\<close> segment, and one that it rejects has one of them, counting both separators.\<close>

theorem ValidPath_correct:
  "ValidPath p \<longleftrightarrow> CHR 0x00 \<notin> set (toSMBPath p) \<and> dotdot \<notin> set (split_on [backslash] (toSMBPath p))"
proof -
  let ?Q = "\<lambda>c. bval c = bval sl \<or> bval c = bval backslash"
  let ?q = "trim_bytes p [sl]" and ?f = "\<lambda>c. if c = sl then backslash else c"
  have eq: "bval c = bval c' \<longleftrightarrow> c = c'" for c c' using of_char_eq_iff by blast
  have "fields_func (\<lambda>r. r = bval sl \<or> r = bval backslash) p = segments ?Q [] p"
    by (rule fields_func_segments) (auto simp: sl_def backslash_def)
  also have "\<dots> = segments ?Q [] ?q" by (rule segments_trim [symmetric]) simp
  also have "\<dots> = segments (\<lambda>x. x = backslash) [] (map ?f ?q)"
    by (rule segments_merge [symmetric]) (auto simp: eq)
  also have "\<dots> = filter (\<lambda>x. x \<noteq> []) (split_on [backslash] (map ?f ?q))" by (rule segments_split)
  finally have f: "fields_func (\<lambda>r. r = bval sl \<or> r = bval backslash) p =
      filter (\<lambda>x. x \<noteq> []) (split_on [backslash] (map ?f ?q))" .
  have "CHR 0x00 \<in> set p \<longleftrightarrow> CHR 0x00 \<in> set ?q"
  proof -
    obtain a b where p: "p = a @ ?q @ b" "set a \<subseteq> {sl}" "set b \<subseteq> {sl}"
      using trim_bytes_split [of p "[sl]"] by auto
    have "set p = set a \<union> set ?q \<union> set b" using p(1) by (metis set_append sup_assoc)
    moreover have "CHR 0x00 \<notin> set a" "CHR 0x00 \<notin> set b" using p(2,3) by (auto simp: sl_def)
    ultimately show ?thesis by blast
  qed
  then have nul: "CHR 0x00 \<in> set p \<longleftrightarrow> CHR 0x00 \<in> set (map ?f ?q)" by (auto simp: sl_def backslash_def)
  have v: "ValidPath p \<longleftrightarrow> CHR 0x00 \<notin> set (map ?f ?q) \<and> dotdot \<notin> set (split_on [backslash] (map ?f ?q))"
    using nul by (auto simp: ValidPath_def nul_byte f list_all_iff dotdot_def)
  show ?thesis
  proof (cases "?q = []")
    case True
    have "split_on [backslash] dot = [dot]" by (rule split_on_one) (simp add: dot_def backslash_def)
    moreover have "split_on [backslash] [] = [[]]" by (rule split_on_one) simp
    ultimately show ?thesis using True v by (simp add: toSMBPath_def dot_def dotdot_def)
  next
    case False
    then show ?thesis using v by (simp add: toSMBPath_map Let_def)
  qed
qed

section \<open>What the change events do to a set of paths\<close>

text \<open>
  The raw entries as the server means them, and the events as the server applies them
  (\<open>httpapi/watch.go\<close>): both say which paths may have to be looked at again (\<open>touched\<close>) and which
  are gone.
\<close>

definition raw_paths :: "notify_info list \<Rightarrow> string list" where
  "raw_paths is = map (toSlashPath \<circ> ni_name) (filter (\<lambda>i. case ni_action i of OtherAction _ \<Rightarrow> False | _ \<Rightarrow> True) is)"

fun event_paths :: "change_event \<Rightarrow> string list" where
  "event_paths (ChangeUpserted p) = [p]"
| "event_paths (ChangeRemoved p) = [p]"
| "event_paths (ChangeRenamed old new) = [old, new]"

fun event_removes :: "change_event \<Rightarrow> string list" where
  "event_removes (ChangeUpserted p) = []"
| "event_removes (ChangeRemoved p) = [p]"
| "event_removes (ChangeRenamed old new) = [old]"

lemma translate_both:
  "concat (map event_paths (translateChanges is)) = raw_paths is \<and>
   concat (map event_removes (translateChanges is)) =
     map (toSlashPath \<circ> ni_name) (filter (\<lambda>i. ni_action i = ActionRemoved \<or> ni_action i = ActionRenamedOldName) is)"
proof (induction "is" rule: translateChanges.induct)
  case (2 i rest)
  show ?case
  proof (cases "ni_action i = ActionRenamedOldName")
    case True
    show ?thesis
    proof (cases rest)
      case Nil
      then show ?thesis using True by (simp add: raw_paths_def)
    next
      case (Cons j rest')
      then show ?thesis using True 2 by (cases "ni_action j") (simp_all add: raw_paths_def)
    qed
  next
    case False
    then show ?thesis using 2 by (cases "ni_action i") (simp_all add: raw_paths_def)
  qed
qed (simp add: raw_paths_def)

lemmas translate_paths = translate_both [THEN conjunct1]

text \<open>Translating a batch of notify entries drops no path and invents none, keeps their order,
  and treats exactly the removed and renamed-from names as gone, whether or not a rename arrives
  as a pair.\<close>

theorem translateChanges_complete:
  "concat (map event_paths (translateChanges is)) = raw_paths is \<and>
   concat (map event_removes (translateChanges is)) =
     map (toSlashPath \<circ> ni_name) (filter (\<lambda>i. ni_action i = ActionRemoved \<or> ni_action i = ActionRenamedOldName) is)"
  by (rule translate_both)

end
