(* ===== verification/SmbWalk.thy ===== *)
theory SmbWalk
  imports SmbPaths
begin

text \<open>
  \<open>walk\<close> and \<open>dirQueue\<close> of \<open>internal/smbclient/smbclient.go\<close> as a step relation. A state holds the
  queue, the position of every worker in its loop, the entries handed to \<open>fn\<close> and the errors
  recorded so far; a step is one critical section or one call of one worker, so every
  interleaving of the worker pool is a sequence of steps. The condition variable is explicit: a
  worker that found nothing to do is \<open>Waiting\<close> until a \<open>Broadcast\<close>, and \<open>push\<close> broadcasts after it
  released the lock. \<open>readDir\<close> is a parameter, one result per directory, and the share is a tree of
  bounded depth (\<open>fits\<close>).
\<close>

section \<open>Directory listings\<close>

record info =
  i_name :: string
  i_dir :: bool
  i_size :: int
  i_mod :: int

record entry =
  e_path :: string
  e_name :: string
  e_dir :: bool
  e_size :: int
  e_mod :: int

type_synonym read_dir = "string \<Rightarrow> string + info list"

definition smb_child :: "string \<Rightarrow> info \<Rightarrow> string" where
  "smb_child dir i = (if dir \<noteq> [] \<and> dir \<noteq> dot then dir @ backslash # i_name i else i_name i)"

definition mk_entry :: "string \<Rightarrow> info \<Rightarrow> entry" where
  "mk_entry dir i = \<lparr>e_path = toSlashPath (smb_child dir i), e_name = i_name i, e_dir = i_dir i,
     e_size = i_size i, e_mod = i_mod i\<rparr>"

section \<open>The queue\<close>

record dir_queue =
  q_items :: "string list"
  q_pending :: int
  q_closed :: bool

definition newDirQueue :: dir_queue where
  "newDirQueue = \<lparr>q_items = [], q_pending = 0, q_closed = False\<rparr>"

definition q_push :: "string \<Rightarrow> dir_queue \<Rightarrow> dir_queue" where
  "q_push dir q = q\<lparr>q_pending := q_pending q + 1, q_items := q_items q @ [dir]\<rparr>"

definition q_done :: "dir_queue \<Rightarrow> dir_queue" where
  "q_done q = (let q = q\<lparr>q_pending := q_pending q - 1\<rparr>
     in if q_pending q = 0 then q\<lparr>q_closed := True\<rparr> else q)"

text \<open>\<open>pop\<close>, once it holds the lock: a directory, the end of the walk, or \<open>cond.Wait\<close>\<close>

datatype popped = Popped string | Drained | MustWait

definition q_pop :: "dir_queue \<Rightarrow> popped \<times> dir_queue" where
  "q_pop q =
     (if q_items q = [] then (if q_closed q then Drained else MustWait, q)
      else (Popped (last (q_items q)), q\<lparr>q_items := butlast (q_items q)\<rparr>))"

section \<open>Workers\<close>

text \<open>
  \<open>Ready\<close>: holding the lock in \<open>pop\<close>, about to test its condition. \<open>Listing\<close>: in \<open>readDir\<close>.
  \<open>Entries\<close>: in the loop over the listing. \<open>Pushing\<close>: about to push a subdirectory. \<open>Notifying\<close>:
  pushed, about to broadcast. \<open>Failed\<close>: recorded an error, about to call \<open>done\<close>.
\<close>

datatype worker =
    Ready
  | Waiting
  | Listing string
  | Entries string "info list"
  | Pushing string string "info list"
  | Notifying string "info list"
  | Failed
  | Exited

record walk_state =
  w_queue :: dir_queue
  w_workers :: "worker list"
  w_out :: "entry list"
  w_errs :: "(string \<times> string) list"

definition walkConcurrency :: nat where
  "walkConcurrency = 16"

definition walk_init :: "nat \<Rightarrow> string \<Rightarrow> walk_state" where
  "walk_init n root = \<lparr>w_queue = q_push root newDirQueue, w_workers = replicate n Ready, w_out = [], w_errs = []\<rparr>"

definition wake :: "worker \<Rightarrow> worker" where
  "wake w = (if w = Waiting then Ready else w)"

definition set_worker :: "nat \<Rightarrow> worker \<Rightarrow> walk_state \<Rightarrow> walk_state" where
  "set_worker i w s = s\<lparr>w_workers := (w_workers s)[i := w]\<rparr>"

definition broadcast :: "walk_state \<Rightarrow> walk_state" where
  "broadcast s = s\<lparr>w_workers := map wake (w_workers s)\<rparr>"

text \<open>\<open>q.done()\<close> by worker \<open>i\<close>: the broadcast happens under the lock, when the queue closes.\<close>

definition finish :: "nat \<Rightarrow> walk_state \<Rightarrow> walk_state" where
  "finish i s =
     (let s = set_worker i Ready (s\<lparr>w_queue := q_done (w_queue s)\<rparr>)
      in if q_pending (w_queue s) = 0 then broadcast s else s)"

inductive walk_step :: "read_dir \<Rightarrow> walk_state \<Rightarrow> walk_state \<Rightarrow> bool" for rd where
  pop: "i < length (w_workers s) \<Longrightarrow> w_workers s ! i = Ready \<Longrightarrow> q_items (w_queue s) = ds @ [d] \<Longrightarrow>
      walk_step rd s (set_worker i (Listing d) (s\<lparr>w_queue := (w_queue s)\<lparr>q_items := ds\<rparr>\<rparr>))"
| wait: "i < length (w_workers s) \<Longrightarrow> w_workers s ! i = Ready \<Longrightarrow> q_items (w_queue s) = [] \<Longrightarrow>
      \<not> q_closed (w_queue s) \<Longrightarrow> walk_step rd s (set_worker i Waiting s)"
| quit: "i < length (w_workers s) \<Longrightarrow> w_workers s ! i = Ready \<Longrightarrow> q_items (w_queue s) = [] \<Longrightarrow>
      q_closed (w_queue s) \<Longrightarrow> walk_step rd s (set_worker i Exited s)"
| list_ok: "i < length (w_workers s) \<Longrightarrow> w_workers s ! i = Listing d \<Longrightarrow> rd d = Inr infos \<Longrightarrow>
      walk_step rd s (set_worker i (Entries d infos) s)"
| list_err: "i < length (w_workers s) \<Longrightarrow> w_workers s ! i = Listing d \<Longrightarrow> rd d = Inl e \<Longrightarrow>
      walk_step rd s (set_worker i Failed (s\<lparr>w_errs := w_errs s @ [(d, e)]\<rparr>))"
| emit: "i < length (w_workers s) \<Longrightarrow> w_workers s ! i = Entries d (x # xs) \<Longrightarrow>
      walk_step rd s (set_worker i (if i_dir x then Pushing d (smb_child d x) xs else Entries d xs)
        (s\<lparr>w_out := w_out s @ [mk_entry d x]\<rparr>))"
| push: "i < length (w_workers s) \<Longrightarrow> w_workers s ! i = Pushing d sub xs \<Longrightarrow>
      walk_step rd s (set_worker i (Notifying d xs) (s\<lparr>w_queue := q_push sub (w_queue s)\<rparr>))"
| notify: "i < length (w_workers s) \<Longrightarrow> w_workers s ! i = Notifying d xs \<Longrightarrow>
      walk_step rd s (set_worker i (Entries d xs) (broadcast s))"
| finish_ok: "i < length (w_workers s) \<Longrightarrow> w_workers s ! i = Entries d [] \<Longrightarrow> walk_step rd s (finish i s)"
| finish_err: "i < length (w_workers s) \<Longrightarrow> w_workers s ! i = Failed \<Longrightarrow> walk_step rd s (finish i s)"

text \<open>The first three rules are one call of \<open>pop\<close>.\<close>

lemma ready_step:
  assumes "i < length (w_workers s)" "w_workers s ! i = Ready"
  shows "walk_step rd s
    (case q_pop (w_queue s) of
       (Popped d, q) \<Rightarrow> set_worker i (Listing d) (s\<lparr>w_queue := q\<rparr>)
     | (Drained, q) \<Rightarrow> set_worker i Exited s
     | (MustWait, q) \<Rightarrow> set_worker i Waiting s)"
proof (cases "q_items (w_queue s) = []")
  case True
  then show ?thesis using walk_step.wait [OF assms True] walk_step.quit [OF assms True] by (simp add: q_pop_def)
next
  case False
  then have "q_items (w_queue s) = butlast (q_items (w_queue s)) @ [last (q_items (w_queue s))]" by simp
  from walk_step.pop [OF assms this] False show ?thesis by (simp add: q_pop_def)
qed

section \<open>The share below a directory\<close>

fun fits :: "read_dir \<Rightarrow> nat \<Rightarrow> string \<Rightarrow> bool" where
  "fits rd 0 d = False"
| "fits rd (Suc n) d =
     (case rd d of Inl _ \<Rightarrow> True | Inr xs \<Rightarrow> list_all (\<lambda>x. i_dir x \<longrightarrow> fits rd n (smb_child d x)) xs)"

text \<open>Every entry below a directory, in depth-first order, and every listing error\<close>

fun tree_entries :: "read_dir \<Rightarrow> nat \<Rightarrow> string \<Rightarrow> entry list" where
  "tree_entries rd 0 d = []"
| "tree_entries rd (Suc n) d =
     (case rd d of
        Inl _ \<Rightarrow> []
      | Inr xs \<Rightarrow> concat (map (\<lambda>x. mk_entry d x # (if i_dir x then tree_entries rd n (smb_child d x) else [])) xs))"

fun tree_errs :: "read_dir \<Rightarrow> nat \<Rightarrow> string \<Rightarrow> (string \<times> string) list" where
  "tree_errs rd 0 d = []"
| "tree_errs rd (Suc n) d =
     (case rd d of
        Inl e \<Rightarrow> [(d, e)]
      | Inr xs \<Rightarrow> concat (map (\<lambda>x. if i_dir x then tree_errs rd n (smb_child d x) else []) xs))"

text \<open>The number of steps the work below a directory takes\<close>

fun tree_weight :: "read_dir \<Rightarrow> nat \<Rightarrow> string \<Rightarrow> nat" where
  "tree_weight rd 0 d = 0"
| "tree_weight rd (Suc n) d =
     (case rd d of
        Inl _ \<Rightarrow> 2
      | Inr xs \<Rightarrow> 2 + sum_list (map (\<lambda>x. if i_dir x then 4 + tree_weight rd n (smb_child d x) else 1) xs))"

lemma fits_mono:
  assumes "fits rd n d" "n \<le> m"
  shows "fits rd m d \<and> tree_entries rd m d = tree_entries rd n d \<and> tree_errs rd m d = tree_errs rd n d \<and>
    tree_weight rd m d = tree_weight rd n d"
  using assms
proof (induction n arbitrary: m d)
  case (Suc n)
  then obtain k where m: "m = Suc k" "n \<le> k" by (cases m) auto
  show ?case
  proof (cases "rd d")
    case (Inr xs)
    have ih: "fits rd k (smb_child d x) \<and> tree_entries rd k (smb_child d x) = tree_entries rd n (smb_child d x) \<and>
        tree_errs rd k (smb_child d x) = tree_errs rd n (smb_child d x) \<and>
        tree_weight rd k (smb_child d x) = tree_weight rd n (smb_child d x)"
      if "x \<in> set xs" "i_dir x" for x
      using Suc.IH [of "smb_child d x" k] Suc.prems(1) m(2) Inr that by (simp add: list_all_iff)
    have "concat (map (\<lambda>x. mk_entry d x # (if i_dir x then tree_entries rd k (smb_child d x) else [])) xs) =
        concat (map (\<lambda>x. mk_entry d x # (if i_dir x then tree_entries rd n (smb_child d x) else [])) xs)"
      "concat (map (\<lambda>x. if i_dir x then tree_errs rd k (smb_child d x) else []) xs) =
        concat (map (\<lambda>x. if i_dir x then tree_errs rd n (smb_child d x) else []) xs)"
      "sum_list (map (\<lambda>x. if i_dir x then 4 + tree_weight rd k (smb_child d x) else 1) xs) =
        sum_list (map (\<lambda>x. if i_dir x then 4 + tree_weight rd n (smb_child d x) else 1) xs)"
      using ih by (auto intro!: arg_cong [where f = concat] arg_cong [where f = sum_list] map_cong)
    then show ?thesis using Inr m(1) ih by (simp add: list_all_iff)
  qed (simp add: m(1))
qed simp

text \<open>With a bound \<open>N\<close> that covers the whole walk, unfolding one directory keeps the bound.\<close>

lemma fits_child:
  assumes "fits rd N d" "rd d = Inr xs" "x \<in> set xs" "i_dir x"
  shows "fits rd N (smb_child d x)"
proof (cases N)
  case (Suc n)
  then have "fits rd n (smb_child d x)" using assms by (simp add: list_all_iff)
  then show ?thesis using fits_mono [of rd n "smb_child d x" N] Suc by simp
qed (use assms in simp)

definition after :: "read_dir \<Rightarrow> nat \<Rightarrow> string \<Rightarrow> info list \<Rightarrow> entry list" where
  "after rd N d xs = concat (map (\<lambda>x. mk_entry d x # (if i_dir x then tree_entries rd N (smb_child d x) else [])) xs)"

definition after_errs :: "read_dir \<Rightarrow> nat \<Rightarrow> string \<Rightarrow> info list \<Rightarrow> (string \<times> string) list" where
  "after_errs rd N d xs = concat (map (\<lambda>x. if i_dir x then tree_errs rd N (smb_child d x) else []) xs)"

definition after_weight :: "read_dir \<Rightarrow> nat \<Rightarrow> string \<Rightarrow> info list \<Rightarrow> nat" where
  "after_weight rd N d xs = 1 + sum_list (map (\<lambda>x. if i_dir x then 4 + tree_weight rd N (smb_child d x) else 1) xs)"

lemma tree_unfold:
  assumes "fits rd N d" "rd d = Inr xs"
  shows "tree_entries rd N d = after rd N d xs \<and> tree_errs rd N d = after_errs rd N d xs \<and>
    tree_weight rd N d = Suc (after_weight rd N d xs)"
proof (cases N)
  case (Suc n)
  have up: "tree_entries rd N (smb_child d x) = tree_entries rd n (smb_child d x) \<and>
        tree_errs rd N (smb_child d x) = tree_errs rd n (smb_child d x) \<and>
        tree_weight rd N (smb_child d x) = tree_weight rd n (smb_child d x)"
    if "x \<in> set xs" "i_dir x" for x
  proof -
    have "fits rd n (smb_child d x)" using assms Suc that by (simp add: list_all_iff)
    then show ?thesis using fits_mono [of rd n "smb_child d x" N] Suc by simp
  qed
  have "after rd N d xs = concat (map (\<lambda>x. mk_entry d x # (if i_dir x then tree_entries rd n (smb_child d x) else [])) xs)"
    unfolding after_def using up by (intro arg_cong [where f = concat] map_cong) auto
  moreover have "after_errs rd N d xs = concat (map (\<lambda>x. if i_dir x then tree_errs rd n (smb_child d x) else []) xs)"
    unfolding after_errs_def using up by (intro arg_cong [where f = concat] map_cong) auto
  moreover have "after_weight rd N d xs =
      1 + sum_list (map (\<lambda>x. if i_dir x then 4 + tree_weight rd n (smb_child d x) else 1) xs)"
    unfolding after_weight_def using up
    by (intro arg_cong [where f = "\<lambda>ys. 1 + sum_list ys"] map_cong) auto
  ultimately show ?thesis using Suc assms(2) by simp
qed (use assms in simp)

section \<open>Accounting\<close>

text \<open>What a worker still owes: entries, errors, steps; and whether it counts as pending work.\<close>

fun owed :: "read_dir \<Rightarrow> nat \<Rightarrow> worker \<Rightarrow> entry multiset" where
  "owed rd N (Listing d) = mset (tree_entries rd N d)"
| "owed rd N (Entries d xs) = mset (after rd N d xs)"
| "owed rd N (Pushing d sub xs) = mset (tree_entries rd N sub) + mset (after rd N d xs)"
| "owed rd N (Notifying d xs) = mset (after rd N d xs)"
| "owed rd N w = {#}"

fun owed_errs :: "read_dir \<Rightarrow> nat \<Rightarrow> worker \<Rightarrow> (string \<times> string) multiset" where
  "owed_errs rd N (Listing d) = mset (tree_errs rd N d)"
| "owed_errs rd N (Entries d xs) = mset (after_errs rd N d xs)"
| "owed_errs rd N (Pushing d sub xs) = mset (tree_errs rd N sub) + mset (after_errs rd N d xs)"
| "owed_errs rd N (Notifying d xs) = mset (after_errs rd N d xs)"
| "owed_errs rd N w = {#}"

fun steps_left :: "read_dir \<Rightarrow> nat \<Rightarrow> worker \<Rightarrow> nat" where
  "steps_left rd N (Listing d) = tree_weight rd N d"
| "steps_left rd N (Entries d xs) = after_weight rd N d xs"
| "steps_left rd N (Pushing d sub xs) = 3 + tree_weight rd N sub + after_weight rd N d xs"
| "steps_left rd N (Notifying d xs) = 1 + after_weight rd N d xs"
| "steps_left rd N Failed = 1"
| "steps_left rd N w = 0"

fun busy :: "worker \<Rightarrow> nat" where
  "busy Ready = 0"
| "busy Waiting = 0"
| "busy Exited = 0"
| "busy w = 1"

fun w_fits :: "read_dir \<Rightarrow> nat \<Rightarrow> worker \<Rightarrow> bool" where
  "w_fits rd N (Listing d) = fits rd N d"
| "w_fits rd N (Entries d xs) = list_all (\<lambda>x. i_dir x \<longrightarrow> fits rd N (smb_child d x)) xs"
| "w_fits rd N (Pushing d sub xs) = (fits rd N sub \<and> list_all (\<lambda>x. i_dir x \<longrightarrow> fits rd N (smb_child d x)) xs)"
| "w_fits rd N (Notifying d xs) = list_all (\<lambda>x. i_dir x \<longrightarrow> fits rd N (smb_child d x)) xs"
| "w_fits rd N w = True"

fun idle_rank :: "worker \<Rightarrow> nat" where
  "idle_rank Ready = 2"
| "idle_rank Waiting = 1"
| "idle_rank w = 0"

definition total :: "(worker \<Rightarrow> 'a::comm_monoid_add) \<Rightarrow> (string \<Rightarrow> 'a) \<Rightarrow> walk_state \<Rightarrow> 'a" where
  "total f g s = sum_list (map f (w_workers s)) + sum_list (map g (q_items (w_queue s)))"

lemma sum_list_set:
  fixes f :: "'b \<Rightarrow> 'a::comm_monoid_add"
  shows "i < length ws \<Longrightarrow> sum_list (map f (ws[i := w])) + f (ws ! i) = sum_list (map f ws) + f w"
proof (induction ws arbitrary: i)
  case (Cons a ws)
  show ?case
  proof (cases i)
    case (Suc j)
    then have "sum_list (map f (ws[j := w])) + f (ws ! j) = sum_list (map f ws) + f w" using Cons by simp
    then show ?thesis using Suc by (simp add: add.assoc)
  qed (simp add: ac_simps)
qed simp

lemma total_set_worker:
  fixes f :: "worker \<Rightarrow> 'a::comm_monoid_add"
  assumes "i < length (w_workers s)"
  shows "total f g (set_worker i w s) + f (w_workers s ! i) = total f g s + f w"
proof -
  let ?q = "sum_list (map g (q_items (w_queue s)))"
  have "sum_list (map f ((w_workers s)[i := w])) + f (w_workers s ! i) + ?q = sum_list (map f (w_workers s)) + f w + ?q"
    using sum_list_set [OF assms, of f w] by simp
  then show ?thesis by (simp add: total_def set_worker_def ac_simps)
qed

lemma total_broadcast:
  assumes "f Waiting = f Ready"
  shows "total f g (broadcast s) = total f g s"
proof -
  have "map f (map wake (w_workers s)) = map f (w_workers s)" using assms by (simp add: wake_def)
  then show ?thesis by (simp add: total_def broadcast_def del: map_map)
qed

lemma workers_finish:
  "w_workers (finish i s) = (w_workers s)[i := Ready] \<or> w_workers (finish i s) = map wake ((w_workers s)[i := Ready])"
  by (simp add: finish_def set_worker_def broadcast_def Let_def)

lemma total_finish:
  fixes f :: "worker \<Rightarrow> 'a::comm_monoid_add"
  assumes "i < length (w_workers s)" "f Waiting = f Ready"
  shows "total f g (finish i s) + f (w_workers s ! i) = total f g s + f Ready"
proof -
  let ?s = "set_worker i Ready (s\<lparr>w_queue := q_done (w_queue s)\<rparr>)"
  have "q_items (q_done (w_queue s)) = q_items (w_queue s)" by (simp add: q_done_def Let_def)
  then have "total f g (s\<lparr>w_queue := q_done (w_queue s)\<rparr>) = total f g s" by (simp add: total_def)
  then have "total f g ?s + f (w_workers s ! i) = total f g s + f Ready"
    using total_set_worker [of i "s\<lparr>w_queue := q_done (w_queue s)\<rparr>" f g Ready] assms(1) by simp
  then show ?thesis using total_broadcast [of f g ?s] assms(2) by (simp add: finish_def Let_def)
qed

section \<open>The invariant\<close>

definition accounted :: "read_dir \<Rightarrow> nat \<Rightarrow> string \<Rightarrow> walk_state \<Rightarrow> bool" where
  "accounted rd N root s \<longleftrightarrow>
     mset (w_out s) + total (owed rd N) (\<lambda>d. mset (tree_entries rd N d)) s = mset (tree_entries rd N root) \<and>
     mset (w_errs s) + total (owed_errs rd N) (\<lambda>d. mset (tree_errs rd N d)) s = mset (tree_errs rd N root) \<and>
     list_all (fits rd N) (q_items (w_queue s)) \<and> list_all (w_fits rd N) (w_workers s) \<and>
     q_pending (w_queue s) = int (total busy (\<lambda>_. 1) s)"

definition no_lost_wakeup :: "walk_state \<Rightarrow> bool" where
  "no_lost_wakeup s \<longleftrightarrow>
     q_closed (w_queue s) = (q_pending (w_queue s) = 0) \<and>
     (q_closed (w_queue s) \<longrightarrow> Waiting \<notin> set (w_workers s)) \<and>
     (q_items (w_queue s) \<noteq> [] \<longrightarrow> (\<exists>w\<in>set (w_workers s). w \<noteq> Waiting \<and> w \<noteq> Exited)) \<and>
     (Exited \<in> set (w_workers s) \<longrightarrow> q_closed (w_queue s))"

lemma nth_fits: "accounted rd N root s \<Longrightarrow> i < length (w_workers s) \<Longrightarrow> w_fits rd N (w_workers s ! i)"
  by (simp add: accounted_def list_all_length)

lemma fits_update: "list_all P ws \<Longrightarrow> P w \<Longrightarrow> list_all P (ws[i := w])"
  by (auto simp: list_all_iff dest!: set_update_subset_insert [THEN subsetD])

lemma fits_wake: "list_all (w_fits rd N) ws \<Longrightarrow> list_all (w_fits rd N) (map wake ws)"
  by (auto simp: list_all_iff wake_def)

lemma fits_finish: "list_all (w_fits rd N) (w_workers s) \<Longrightarrow> list_all (w_fits rd N) (w_workers (finish i s))"
proof -
  assume "list_all (w_fits rd N) (w_workers s)"
  then have a: "list_all (w_fits rd N) ((w_workers s)[i := Ready])" by (simp add: fits_update)
  show ?thesis using workers_finish [of i s] a fits_wake [OF a] by metis
qed

text \<open>The five parts of \<open>accounted\<close> under the change of one worker, the rest of the state fixed.\<close>

lemma accounted_set_worker:
  assumes "accounted rd N root s" "i < length (w_workers s)" "w_workers s ! i = v"
    and "owed rd N w = owed rd N v" "owed_errs rd N w = owed_errs rd N v" "w_fits rd N w" "busy w = busy v"
  shows "accounted rd N root (set_worker i w s)"
proof -
  have "total f g (set_worker i w s) = total f g s" if "f w = f v"
    for f :: "worker \<Rightarrow> 'a::cancel_comm_monoid_add" and g
    using total_set_worker [OF assms(2), of f g w] assms(3) that by simp
  note t = this [of "owed rd N"] this [of "owed_errs rd N"] this [of busy]
  have "list_all (w_fits rd N) ((w_workers s)[i := w])"
    using assms(1,6) by (simp add: accounted_def fits_update)
  then show ?thesis
    using assms(1,4,5,7) t by (simp add: accounted_def) (simp add: set_worker_def)
qed

lemma accounted_broadcast: "accounted rd N root s \<Longrightarrow> accounted rd N root (broadcast s)"
  using fits_wake [of rd N "w_workers s"] by (simp add: accounted_def total_broadcast) (simp add: broadcast_def)

lemma accounted_pop:
  assumes "accounted rd N root s" "i < length (w_workers s)" "w_workers s ! i = Ready" "q_items (w_queue s) = ds @ [d]"
  shows "accounted rd N root (set_worker i (Listing d) (s\<lparr>w_queue := (w_queue s)\<lparr>q_items := ds\<rparr>\<rparr>))"
proof -
  let ?s = "s\<lparr>w_queue := (w_queue s)\<lparr>q_items := ds\<rparr>\<rparr>"
  have t: "total f g (set_worker i (Listing d) ?s) = total f g s" if "f Ready = 0" "f (Listing d) = g d"
    for f :: "worker \<Rightarrow> 'a::cancel_comm_monoid_add" and g
  proof -
    have "total f g (set_worker i (Listing d) ?s) + f Ready = total f g ?s + f (Listing d)"
      using total_set_worker [of i ?s f g "Listing d"] assms(2,3) by simp
    moreover have "total f g s = total f g ?s + g d" by (simp add: total_def assms(4) ac_simps)
    ultimately show ?thesis using that by simp
  qed
  have "list_all (w_fits rd N) ((w_workers s)[i := Listing d])"
    using assms(1,4) by (simp add: accounted_def fits_update)
  then show ?thesis
    using assms(1,4) t [of "owed rd N"] t [of "owed_errs rd N"] t [of busy]
    by (simp add: accounted_def) (simp add: set_worker_def)
qed

lemma accounted_push:
  assumes "accounted rd N root s" "i < length (w_workers s)" "w_workers s ! i = Pushing d sub xs"
  shows "accounted rd N root (set_worker i (Notifying d xs) (s\<lparr>w_queue := q_push sub (w_queue s)\<rparr>))"
proof -
  let ?s = "s\<lparr>w_queue := q_push sub (w_queue s)\<rparr>"
  have t: "total f g (set_worker i (Notifying d xs) ?s) + f (Pushing d sub xs) = total f g s + g sub + f (Notifying d xs)"
    for f :: "worker \<Rightarrow> 'a::cancel_comm_monoid_add" and g
  proof -
    have "total f g ?s = total f g s + g sub" by (simp add: total_def q_push_def ac_simps)
    then show ?thesis using total_set_worker [of i ?s f g "Notifying d xs"] assms(2,3) by simp
  qed
  have v: "w_fits rd N (Pushing d sub xs)" using nth_fits [OF assms(1,2)] assms(3) by simp
  then have "list_all (w_fits rd N) ((w_workers s)[i := Notifying d xs])"
    using assms(1) by (simp add: accounted_def fits_update)
  moreover have "total (owed rd N) (\<lambda>d. mset (tree_entries rd N d)) (set_worker i (Notifying d xs) ?s) =
      total (owed rd N) (\<lambda>d. mset (tree_entries rd N d)) s"
    using t [of "owed rd N" "\<lambda>d. mset (tree_entries rd N d)"] by (simp add: ac_simps)
  moreover have "total (owed_errs rd N) (\<lambda>d. mset (tree_errs rd N d)) (set_worker i (Notifying d xs) ?s) =
      total (owed_errs rd N) (\<lambda>d. mset (tree_errs rd N d)) s"
    using t [of "owed_errs rd N" "\<lambda>d. mset (tree_errs rd N d)"] by (simp add: ac_simps)
  moreover have "total busy (\<lambda>_. 1) (set_worker i (Notifying d xs) ?s) = total busy (\<lambda>_. 1) s + 1"
    using t [of busy "\<lambda>_. 1"] by simp
  ultimately show ?thesis
    using assms(1) v by (simp add: accounted_def) (simp add: set_worker_def q_push_def)
qed

lemma accounted_finish:
  assumes "accounted rd N root s" "i < length (w_workers s)" "w_workers s ! i = v"
    and "owed rd N v = {#}" "owed_errs rd N v = {#}" "busy v = 1"
  shows "accounted rd N root (finish i s)"
proof -
  have t: "total f g (finish i s) + f v = total f g s + f Ready" if "f Waiting = f Ready"
    for f :: "worker \<Rightarrow> 'a::cancel_comm_monoid_add" and g
    using total_finish [OF assms(2) that, of g] assms(3) by simp
  have q: "q_items (w_queue (finish i s)) = q_items (w_queue s)"
    "q_pending (w_queue (finish i s)) = q_pending (w_queue s) - 1"
    "w_out (finish i s) = w_out s" "w_errs (finish i s) = w_errs s"
    by (simp_all add: finish_def set_worker_def broadcast_def q_done_def Let_def)
  show ?thesis
    using assms(1,4-6) t [of "owed rd N"] t [of "owed_errs rd N"] t [of busy "\<lambda>_. 1"] fits_finish [of rd N s i]
    by (simp add: accounted_def q)
qed

lemma accounted_emit:
  assumes "accounted rd N root s" "i < length (w_workers s)" "w_workers s ! i = Entries d (x # xs)"
  shows "accounted rd N root (set_worker i (if i_dir x then Pushing d (smb_child d x) xs else Entries d xs)
      (s\<lparr>w_out := w_out s @ [mk_entry d x]\<rparr>))"
proof -
  let ?w = "if i_dir x then Pushing d (smb_child d x) xs else Entries d xs"
  let ?v = "Entries d (x # xs)"
  let ?s = "s\<lparr>w_out := w_out s @ [mk_entry d x]\<rparr>"
  have t: "total f g (set_worker i ?w ?s) + f ?v = total f g s + f ?w"
    for f :: "worker \<Rightarrow> 'a::cancel_comm_monoid_add" and g
    using total_set_worker [of i ?s f g ?w] assms(2,3) by (simp add: total_def)
  have o: "owed rd N ?v = {#mk_entry d x#} + owed rd N ?w" "owed_errs rd N ?v = owed_errs rd N ?w"
    "busy ?v = busy ?w"
    by (simp_all add: after_def after_errs_def)
  have v: "w_fits rd N ?v" using nth_fits [OF assms(1,2)] assms(3) by simp
  then have "list_all (w_fits rd N) ((w_workers s)[i := ?w])"
    using assms(1) by (simp add: accounted_def fits_update)
  moreover have "total (owed rd N) g (set_worker i ?w ?s) + {#mk_entry d x#} = total (owed rd N) g s" for g
    using t [of "owed rd N" g] o(1) by (simp add: ac_simps)
  moreover have "total (owed_errs rd N) g (set_worker i ?w ?s) = total (owed_errs rd N) g s" for g
    using t [of "owed_errs rd N" g] o(2) by simp
  moreover have "total busy g (set_worker i ?w ?s) = total busy g s" for g
    using t [of busy g] o(3) by simp
  moreover have "mset (w_out s @ [mk_entry d x]) + total (owed rd N) g (set_worker i ?w ?s) =
      mset (w_out s) + total (owed rd N) g s" for g
    using t [of "owed rd N" g] o(1) by (simp add: ac_simps)
  moreover have "w_out (set_worker i ?w ?s) = w_out s @ [mk_entry d x]" "w_errs (set_worker i ?w ?s) = w_errs s"
    "w_queue (set_worker i ?w ?s) = w_queue s" "w_workers (set_worker i ?w ?s) = (w_workers s)[i := ?w]"
    by (simp_all add: set_worker_def)
  ultimately show ?thesis
    using assms(1) by (simp only: accounted_def)
qed

lemma fits_err: "fits rd N d \<Longrightarrow> rd d = Inl e \<Longrightarrow> tree_entries rd N d = [] \<and> tree_errs rd N d = [(d, e)] \<and> tree_weight rd N d = 2"
  by (cases N) simp_all

lemma accounted_err:
  assumes "accounted rd N root s" "i < length (w_workers s)" "w_workers s ! i = Listing d" "rd d = Inl e"
  shows "accounted rd N root (set_worker i Failed (s\<lparr>w_errs := w_errs s @ [(d, e)]\<rparr>))"
proof -
  let ?s = "s\<lparr>w_errs := w_errs s @ [(d, e)]\<rparr>"
  have t: "total f g (set_worker i Failed ?s) + f (Listing d) = total f g s + f Failed"
    for f :: "worker \<Rightarrow> 'a::cancel_comm_monoid_add" and g
    using total_set_worker [of i ?s f g Failed] assms(2,3) by (simp add: total_def)
  have f: "fits rd N d" using nth_fits [OF assms(1,2)] assms(3) by simp
  have "list_all (w_fits rd N) ((w_workers s)[i := Failed])"
    using assms(1) by (simp add: accounted_def fits_update)
  moreover have "total (owed rd N) g (set_worker i Failed ?s) = total (owed rd N) g s" for g
    using t [of "owed rd N" g] fits_err [OF f assms(4)] by simp
  moreover have "total (owed_errs rd N) g (set_worker i Failed ?s) + {#(d, e)#} = total (owed_errs rd N) g s" for g
    using t [of "owed_errs rd N" g] fits_err [OF f assms(4)] by simp
  moreover have "total busy g (set_worker i Failed ?s) = total busy g s" for g
    using t [of busy g] by simp
  moreover have "mset (w_errs s @ [(d, e)]) + total (owed_errs rd N) g (set_worker i Failed ?s) =
      mset (w_errs s) + total (owed_errs rd N) g s" for g
    using t [of "owed_errs rd N" g] fits_err [OF f assms(4)] by (simp add: ac_simps)
  moreover have "w_out (set_worker i Failed ?s) = w_out s" "w_errs (set_worker i Failed ?s) = w_errs s @ [(d, e)]"
    "w_queue (set_worker i Failed ?s) = w_queue s" "w_workers (set_worker i Failed ?s) = (w_workers s)[i := Failed]"
    by (simp_all add: set_worker_def)
  ultimately show ?thesis
    using assms(1) by (simp only: accounted_def)
qed

lemma accounted_step: "walk_step rd s s' \<Longrightarrow> accounted rd N root s \<Longrightarrow> accounted rd N root s'"
proof (induction rule: walk_step.induct)
  case (list_ok i s d xs)
  have f: "fits rd N d" using nth_fits [OF list_ok(4,1)] list_ok(2) by simp
  have "list_all (\<lambda>x. i_dir x \<longrightarrow> fits rd N (smb_child d x)) xs"
    using fits_child [OF f list_ok(3)] by (simp add: list_all_iff)
  then show ?case
    using tree_unfold [OF f list_ok(3)] by (intro accounted_set_worker [OF list_ok(4,1,2)]) simp_all
next
  case (notify i s d xs)
  have "w_workers (broadcast s) ! i = Notifying d xs" "i < length (w_workers (broadcast s))"
    using notify(1,2) by (simp_all add: broadcast_def wake_def)
  moreover have "w_fits rd N (Notifying d xs)" using nth_fits [OF notify(3,1)] notify(2) by simp
  ultimately show ?case
    by (intro accounted_set_worker [OF accounted_broadcast [OF notify(3)], where v = "Notifying d xs"]) simp_all
next
  case (wait i s)
  then show ?case by (intro accounted_set_worker [where v = Ready]) simp_all
next
  case (quit i s)
  then show ?case by (intro accounted_set_worker [where v = Ready]) simp_all
next
  case (finish_ok i s d)
  then show ?case by (intro accounted_finish [where v = "Entries d []"]) (simp_all add: after_def after_errs_def)
next
  case (finish_err i s)
  then show ?case by (intro accounted_finish [where v = Failed]) simp_all
qed (simp_all add: accounted_pop accounted_push accounted_emit accounted_err del: if_split)

section \<open>No lost wake-up\<close>

lemma active_after:
  "i < length ws \<Longrightarrow> w \<noteq> Waiting \<Longrightarrow> w \<noteq> Exited \<Longrightarrow> \<exists>v\<in>set (ws[i := w]). v \<noteq> Waiting \<and> v \<noteq> Exited"
  by (metis set_update_memI)

lemma in_set_update: "v \<in> set (ws[i := w]) \<Longrightarrow> v = w \<or> v \<in> set ws"
  using set_update_subset_insert by fastforce

text \<open>A worker that is neither waiting nor gone moves to another such position, the queue unchanged.\<close>

lemma wakeup_move:
  assumes "no_lost_wakeup s" "i < length (w_workers s)" "w \<noteq> Waiting" "w \<noteq> Exited" "w_queue s' = w_queue s"
    "w_workers s' = (w_workers s)[i := w]"
  shows "no_lost_wakeup s'"
  using assms active_after [OF assms(2-4)] by (auto simp: no_lost_wakeup_def dest!: in_set_update)

lemma pending_busy:
  assumes "accounted rd N root s" "i < length (w_workers s)" "busy (w_workers s ! i) = 1"
  shows "1 \<le> q_pending (w_queue s)"
proof -
  have "1 \<le> sum_list (map busy (w_workers s))"
    by (rule member_le_sum_list, metis assms(2,3) image_eqI list.set_map nth_mem) simp_all
  then show ?thesis using assms(1) by (simp add: accounted_def total_def)
qed

lemma wakeup_finish:
  assumes "no_lost_wakeup s" "i < length (w_workers s)" "1 \<le> q_pending (w_queue s)"
  shows "no_lost_wakeup (finish i s)"
proof -
  have open1: "\<not> q_closed (w_queue s)" "Exited \<notin> set (w_workers s)"
    using assms(1,3) by (auto simp: no_lost_wakeup_def)
  have a: "\<exists>v\<in>set ((w_workers s)[i := Ready]). v \<noteq> Waiting \<and> v \<noteq> Exited"
    using active_after [OF assms(2)] by simp
  show ?thesis
  proof (cases "q_pending (w_queue s) = 1")
    case True
    have "Exited \<notin> set ((w_workers s)[i := Ready])" using open1(2) by (auto dest!: in_set_update)
    have "\<exists>v\<in>set (map wake ((w_workers s)[i := Ready])). v \<noteq> Waiting \<and> v \<noteq> Exited"
      using a by (auto simp: wake_def)
    then show ?thesis using True
      by (auto simp: no_lost_wakeup_def finish_def q_done_def set_worker_def broadcast_def wake_def Let_def split: if_splits)
  next
    case False
    then show ?thesis using a open1
      by (auto simp: no_lost_wakeup_def finish_def q_done_def set_worker_def Let_def dest!: in_set_update)
  qed
qed

lemma wakeup_broadcast: "no_lost_wakeup s \<Longrightarrow> no_lost_wakeup (broadcast s)"
  by (auto simp: no_lost_wakeup_def broadcast_def wake_def split: if_splits)

lemma wakeup_step:
  "walk_step rd s s' \<Longrightarrow> accounted rd N root s \<Longrightarrow> no_lost_wakeup s \<Longrightarrow> no_lost_wakeup s'"
proof (induction rule: walk_step.induct)
  case (pop i s ds d)
  have "Waiting \<notin> set (w_workers s) \<Longrightarrow> Waiting \<notin> set ((w_workers s)[i := Listing d])"
    "Exited \<in> set ((w_workers s)[i := Listing d]) \<Longrightarrow> Exited \<in> set (w_workers s)"
    by (auto dest: in_set_update)
  then show ?case using pop(5) active_after [OF pop(1), of "Listing d"]
    by (simp add: no_lost_wakeup_def set_worker_def) blast
next
  case (wait i s)
  then show ?case by (auto simp: no_lost_wakeup_def set_worker_def dest!: in_set_update)
next
  case (quit i s)
  then show ?case by (auto simp: no_lost_wakeup_def set_worker_def dest!: in_set_update)
next
  case (list_ok i s d xs)
  show ?case by (rule wakeup_move [of s i]) (use list_ok in \<open>simp_all add: set_worker_def\<close>)
next
  case (list_err i s d e)
  show ?case by (rule wakeup_move [of s i]) (use list_err in \<open>simp_all add: set_worker_def\<close>)
next
  case (emit i s d x xs)
  show ?case by (rule wakeup_move [of s i]) (use emit in \<open>simp_all add: set_worker_def\<close>)
next
  case (push i s d sub xs)
  have "1 \<le> q_pending (w_queue s)" using pending_busy [OF push(3,1)] push(2) by simp
  then have "\<not> q_closed (w_queue s)" "Exited \<notin> set (w_workers s)" "q_pending (w_queue s) + 1 \<noteq> 0"
    using push(4) by (auto simp: no_lost_wakeup_def)
  moreover from this have "Exited \<notin> set ((w_workers s)[i := Notifying d xs])" by (auto dest: in_set_update)
  ultimately show ?case using active_after [OF push(1), of "Notifying d xs"]
    by (simp add: no_lost_wakeup_def set_worker_def q_push_def)
next
  case (notify i s d xs)
  show ?case
    by (rule wakeup_move [OF wakeup_broadcast, of s i])
      (use notify in \<open>simp_all add: set_worker_def broadcast_def\<close>)
next
  case (finish_ok i s d)
  then show ?case using pending_busy [OF finish_ok(3,1)] by (intro wakeup_finish) simp_all
next
  case (finish_err i s)
  then show ?case using pending_busy [OF finish_err(3,1)] by (intro wakeup_finish) simp_all
qed

section \<open>Progress and termination\<close>

definition work_left :: "read_dir \<Rightarrow> nat \<Rightarrow> walk_state \<Rightarrow> nat" where
  "work_left rd N s = total (steps_left rd N) (\<lambda>d. 1 + tree_weight rd N d) s"

definition idle_left :: "walk_state \<Rightarrow> nat" where
  "idle_left s = sum_list (map idle_rank (w_workers s))"

lemma idle_rank_le: "idle_rank w \<le> 2"
  by (cases w) simp_all

lemma idle_left_le: "idle_left s \<le> 2 * length (w_workers s)"
proof -
  have "sum_list (map idle_rank ws) \<le> 2 * length ws" for ws
  proof (induction ws)
    case (Cons a ws)
    then show ?case using idle_rank_le [of a] by simp
  qed simp
  then show ?thesis by (simp add: idle_left_def)
qed

lemma length_workers: "walk_step rd s s' \<Longrightarrow> length (w_workers s') = length (w_workers s)"
  by (induction rule: walk_step.induct) (simp_all add: set_worker_def broadcast_def finish_def Let_def)

lemma work_set:
  assumes "i < length (w_workers s)" "w_workers s ! i = v"
  shows "work_left rd N (set_worker i w s) + steps_left rd N v = work_left rd N s + steps_left rd N w"
  using total_set_worker [OF assms(1), of "steps_left rd N" "\<lambda>d. 1 + tree_weight rd N d" w] assms(2)
  by (simp add: work_left_def)

lemma work_finish:
  assumes "i < length (w_workers s)" "w_workers s ! i = v" "steps_left rd N v = 1"
  shows "work_left rd N (finish i s) < work_left rd N s"
  using total_finish [OF assms(1), of "steps_left rd N" "\<lambda>d. 1 + tree_weight rd N d"] assms(2,3)
  by (simp add: work_left_def)

lemma idle_set:
  assumes "i < length (w_workers s)" "w_workers s ! i = v" "idle_rank w < idle_rank v"
  shows "idle_left (set_worker i w s) < idle_left s"
  using sum_list_set [OF assms(1), of idle_rank w] assms(2,3) by (simp add: idle_left_def set_worker_def)

lemma step_progress:
  assumes "walk_step rd s s'" "accounted rd N root s"
  shows "work_left rd N s' < work_left rd N s \<or> work_left rd N s' = work_left rd N s \<and> idle_left s' < idle_left s"
  using assms
proof (induction rule: walk_step.induct)
  case (pop i s ds d)
  let ?s = "s\<lparr>w_queue := (w_queue s)\<lparr>q_items := ds\<rparr>\<rparr>"
  have "work_left rd N s = work_left rd N ?s + 1 + tree_weight rd N d"
    using pop(3) by (simp add: work_left_def total_def)
  then show ?case using work_set [of i ?s Ready rd N "Listing d"] pop(1,2) by simp
next
  case (wait i s)
  then show ?case using work_set [of i s Ready rd N Waiting] idle_set [of i s Ready Waiting] by simp
next
  case (quit i s)
  then show ?case using work_set [of i s Ready rd N Exited] idle_set [of i s Ready Exited] by simp
next
  case (list_ok i s d xs)
  have "fits rd N d" using nth_fits [OF list_ok(4,1)] list_ok(2) by simp
  then show ?case using work_set [of i s "Listing d" rd N "Entries d xs"] tree_unfold [of rd N d xs] list_ok by simp
next
  case (list_err i s d e)
  have f: "fits rd N d" using nth_fits [OF list_err(4,1)] list_err(2) by simp
  let ?s = "s\<lparr>w_errs := w_errs s @ [(d, e)]\<rparr>"
  have "work_left rd N ?s = work_left rd N s" by (simp add: work_left_def total_def)
  then show ?case using work_set [of i ?s "Listing d" rd N Failed] fits_err [OF f] list_err by simp
next
  case (emit i s d x xs)
  let ?s = "s\<lparr>w_out := w_out s @ [mk_entry d x]\<rparr>"
  have "work_left rd N ?s = work_left rd N s" by (simp add: work_left_def total_def)
  then show ?case
    using work_set [of i ?s "Entries d (x # xs)" rd N "if i_dir x then Pushing d (smb_child d x) xs else Entries d xs"] emit
    by (simp add: after_weight_def split: if_splits)
next
  case (push i s d sub xs)
  let ?s = "s\<lparr>w_queue := q_push sub (w_queue s)\<rparr>"
  have "work_left rd N ?s = work_left rd N s + 1 + tree_weight rd N sub"
    by (simp add: work_left_def total_def q_push_def)
  then show ?case using work_set [of i ?s "Pushing d sub xs" rd N "Notifying d xs"] push by simp
next
  case (notify i s d xs)
  have "work_left rd N (broadcast s) = work_left rd N s" by (simp add: work_left_def total_broadcast)
  moreover have "w_workers (broadcast s) ! i = Notifying d xs" "i < length (w_workers (broadcast s))"
    using notify(1,2) by (simp_all add: broadcast_def wake_def)
  ultimately show ?case using work_set [of i "broadcast s" "Notifying d xs" rd N "Entries d xs"] by simp
next
  case (finish_ok i s d)
  then show ?case using work_finish [of i s "Entries d []" rd N] by (simp add: after_weight_def)
next
  case (finish_err i s)
  then show ?case using work_finish [of i s Failed rd N] by simp
qed

text \<open>A state where no worker can move is one where every worker has returned.\<close>

lemma busy_moves:
  assumes "i < length (w_workers s)" "busy (w_workers s ! i) = 1"
  shows "\<exists>s'. walk_step rd s s'"
proof (cases "w_workers s ! i")
  case (Listing d)
  then show ?thesis using assms(1) walk_step.list_ok walk_step.list_err by (cases "rd d") blast+
next
  case (Entries d xs)
  then show ?thesis using assms(1) walk_step.emit walk_step.finish_ok by (cases xs) blast+
next
  case (Pushing d sub xs)
  then show ?thesis using assms(1) walk_step.push by blast
next
  case (Notifying d xs)
  then show ?thesis using assms(1) walk_step.notify by blast
next
  case Failed
  then show ?thesis using assms(1) walk_step.finish_err by blast
qed (use assms(2) in simp_all)

lemma ready_moves:
  assumes "i < length (w_workers s)" "w_workers s ! i = Ready" "no_lost_wakeup s"
  shows "\<exists>s'. walk_step rd s s'"
proof (cases "q_items (w_queue s) = []")
  case True
  then show ?thesis using assms walk_step.wait walk_step.quit by (cases "q_closed (w_queue s)") blast+
next
  case False
  then obtain ds d where "q_items (w_queue s) = ds @ [d]" by (metis rev_exhaust)
  then show ?thesis using assms walk_step.pop by blast
qed

lemma stuck_done:
  assumes "accounted rd N root s" "no_lost_wakeup s" "\<not> (\<exists>s'. walk_step rd s s')"
  shows "list_all (\<lambda>w. w = Exited) (w_workers s) \<and> q_items (w_queue s) = []"
proof -
  have idle: "w = Waiting \<or> w = Exited" if w: "w \<in> set (w_workers s)" for w
  proof -
    obtain i where i: "i < length (w_workers s)" "w_workers s ! i = w" using w by (auto simp: in_set_conv_nth)
    have "w \<noteq> Ready" "busy w \<noteq> 1" using ready_moves busy_moves assms(2,3) i by blast+
    then show ?thesis by (cases w) simp_all
  qed
  then have items: "q_items (w_queue s) = []" using assms(2) by (auto simp: no_lost_wakeup_def)
  have "busy w = 0" if "w \<in> set (w_workers s)" for w using idle [OF that] by auto
  then have "sum_list (map busy (w_workers s)) = 0" by simp
  then have "q_pending (w_queue s) = 0" using assms(1) items by (simp add: accounted_def total_def)
  then have "Waiting \<notin> set (w_workers s)" using assms(2) by (simp add: no_lost_wakeup_def)
  then show ?thesis using idle items by (auto simp: list_all_iff)
qed

lemma walk_init_ok:
  assumes "fits rd N root" "0 < n"
  shows "accounted rd N root (walk_init n root) \<and> no_lost_wakeup (walk_init n root)"
proof -
  have z: "sum_list (map f (replicate n Ready)) = 0" if "f Ready = 0" for f :: "worker \<Rightarrow> 'a::comm_monoid_add"
    using that by (induction n) simp_all
  have "sum_list (map busy (replicate n Ready)) = 0" "sum_list (map (owed rd N) (replicate n Ready)) = {#}"
    "sum_list (map (owed_errs rd N) (replicate n Ready)) = {#}"
    using z [of busy] z [of "owed rd N"] z [of "owed_errs rd N"] by simp_all
  then show ?thesis
    using assms
    by (simp add: accounted_def no_lost_wakeup_def walk_init_def total_def q_push_def newDirQueue_def list_all_iff)
qed

lemma walk_reachable:
  assumes "fits rd N root" "0 < n" "(walk_step rd)\<^sup>*\<^sup>* (walk_init n root) s"
  shows "accounted rd N root s \<and> no_lost_wakeup s \<and> length (w_workers s) = n"
  using assms(3)
proof (induction rule: rtranclp_induct)
  case base
  then show ?case using walk_init_ok [OF assms(1,2)] by (simp add: walk_init_def)
next
  case (step s s')
  then show ?case using accounted_step wakeup_step length_workers by metis
qed

definition walk_bound :: "read_dir \<Rightarrow> nat \<Rightarrow> nat \<Rightarrow> walk_state \<Rightarrow> nat" where
  "walk_bound rd N n s = work_left rd N s * (2 * n + 1) + idle_left s"

lemma walk_bound_step:
  assumes "accounted rd N root s" "length (w_workers s) = n" "walk_step rd s s'"
  shows "walk_bound rd N n s' < walk_bound rd N n s"
proof -
  have i: "idle_left s' \<le> 2 * n" using idle_left_le [of s'] length_workers [OF assms(3)] assms(2) by simp
  from step_progress [OF assms(3,1)] show ?thesis
  proof
    assume "work_left rd N s' < work_left rd N s"
    then have "(work_left rd N s' + 1) * (2 * n + 1) \<le> work_left rd N s * (2 * n + 1)" by (intro mult_le_mono1) simp
    then show ?thesis using i by (simp add: walk_bound_def algebra_simps)
  qed (simp add: walk_bound_def)
qed

lemma walk_finishes:
  assumes "accounted rd N root s" "no_lost_wakeup s" "length (w_workers s) = n"
  shows "\<exists>s'. (walk_step rd)\<^sup>*\<^sup>* s s' \<and> \<not> (\<exists>s''. walk_step rd s' s'')"
  using assms
proof (induction "walk_bound rd N n s" arbitrary: s rule: less_induct)
  case less
  show ?case
  proof (cases "\<exists>s'. walk_step rd s s'")
    case True
    then obtain s1 where s1: "walk_step rd s s1" by blast
    then obtain s' where "(walk_step rd)\<^sup>*\<^sup>* s1 s'" "\<not> (\<exists>s''. walk_step rd s' s'')"
      using less(1) [OF walk_bound_step [OF less(2,4) s1] accounted_step [OF s1 less(2)]
          wakeup_step [OF s1 less(2,3)]] length_workers [OF s1] less(4) by auto
    then show ?thesis using s1 by (meson converse_rtranclp_into_rtranclp)
  qed blast
qed

lemma stuck_result:
  assumes "accounted rd N root s" "no_lost_wakeup s" "\<not> (\<exists>s'. walk_step rd s s')"
  shows "list_all (\<lambda>w. w = Exited) (w_workers s) \<and>
    mset (w_out s) = mset (tree_entries rd N root) \<and> mset (w_errs s) = mset (tree_errs rd N root)"
proof -
  have d: "list_all (\<lambda>w. w = Exited) (w_workers s)" "q_items (w_queue s) = []"
    using stuck_done [OF assms] by auto
  have "sum_list (map f ws) = 0" if "list_all (\<lambda>w. w = Exited) ws" "f Exited = 0"
    for f :: "worker \<Rightarrow> 'a::comm_monoid_add" and ws
    using that by (induction ws) simp_all
  from this [OF d(1), of "owed rd N"] this [OF d(1), of "owed_errs rd N"] show ?thesis
    using assms(1) d by (simp add: accounted_def total_def)
qed

section \<open>Properties\<close>

text \<open>C11: in every interleaving of the workers, each entry below the root is handed to the callback at
  most once, nothing else is, and the walk can only come to rest with every worker returned, every
  entry delivered exactly once and exactly the directories that failed to list reported.\<close>

theorem walk_correct:
  assumes "fits rd N root" "0 < n" "(walk_step rd)\<^sup>*\<^sup>* (walk_init n root) s"
  shows "mset (w_out s) \<subseteq># mset (tree_entries rd N root) \<and>
    ((\<exists>s'. walk_step rd s s') \<or>
     list_all (\<lambda>w. w = Exited) (w_workers s) \<and>
     mset (w_out s) = mset (tree_entries rd N root) \<and> mset (w_errs s) = mset (tree_errs rd N root))"
proof -
  have inv: "accounted rd N root s" "no_lost_wakeup s" using walk_reachable [OF assms] by auto
  have "mset (w_out s) \<subseteq># mset (tree_entries rd N root)"
    using inv(1) by (simp add: accounted_def) (metis mset_subset_eq_add_left)
  moreover have "(\<exists>s'. walk_step rd s s') \<or>
     list_all (\<lambda>w. w = Exited) (w_workers s) \<and>
     mset (w_out s) = mset (tree_entries rd N root) \<and> mset (w_errs s) = mset (tree_errs rd N root)"
    using stuck_result [OF inv] by blast
  ultimately show ?thesis by blast
qed

definition example_share :: read_dir where
  "example_share d =
     (if d = dot then Inr [\<lparr>i_name = ''a'', i_dir = True, i_size = 0, i_mod = 1\<rparr>,
                         \<lparr>i_name = ''b'', i_dir = False, i_size = 5, i_mod = 2\<rparr>]
      else if d = ''a'' then Inl ''access denied'' else Inr [])"

lemma example_share_fits: "fits example_share 2 dot"
  by code_simp

theorem walk_correct_witness:
  "\<exists>s. (walk_step example_share)\<^sup>*\<^sup>* (walk_init walkConcurrency dot) s \<and>
     list_all (\<lambda>w. w = Exited) (w_workers s) \<and>
     mset (w_out s) = mset (tree_entries example_share 2 dot) \<and>
     map e_path (tree_entries example_share 2 dot) = [''a'', ''b''] \<and>
     mset (w_errs s) = {#(''a'', ''access denied'')#}"
proof -
  have n: "0 < walkConcurrency" by (simp add: walkConcurrency_def)
  obtain s where s: "(walk_step example_share)\<^sup>*\<^sup>* (walk_init walkConcurrency dot) s"
    "\<not> (\<exists>s'. walk_step example_share s s')"
    using walk_finishes walk_reachable [OF example_share_fits n rtranclp.rtrancl_refl] by metis
  have "map e_path (tree_entries example_share 2 dot) = [''a'', ''b'']"
    "tree_errs example_share 2 dot = [(''a'', ''access denied'')]" by code_simp+
  then show ?thesis using walk_correct [OF example_share_fits n s(1)] s by (intro exI [of _ s]) simp
qed



end
