(* ===== verification/ShareTree.thy ===== *)
theory ShareTree
  imports SmbWalk
begin

text \<open>
  What the walk reports of a share whose listings are like those of a file server: in each directory the
  names are distinct and none is empty, a dot, two dots or contains a separator. The entries then have
  distinct paths, each the directory's components followed by names.
\<close>

definition share_name :: "string \<Rightarrow> bool" where
  "share_name c \<longleftrightarrow> plain c \<and> backslash \<notin> set c"

fun tidy :: "read_dir \<Rightarrow> nat \<Rightarrow> string \<Rightarrow> bool" where
  "tidy rd 0 d = False"
| "tidy rd (Suc n) d =
     (case rd d of
        Inl _ \<Rightarrow> True
      | Inr xs \<Rightarrow> distinct (map i_name xs) \<and>
          list_all (\<lambda>x. share_name (i_name x) \<and> (i_dir x \<longrightarrow> tidy rd n (smb_child d x))) xs)"

lemma tidy_fits: "tidy rd n d \<Longrightarrow> fits rd n d"
  by (induction rd n d rule: tidy.induct) (auto simp: list_all_iff split: sum.splits)

definition smb_path :: "string list \<Rightarrow> string" where
  "smb_path cs = (if cs = [] then dot else join [backslash] cs)"

lemma join_not_dot:
  assumes "list_all share_name cs" "cs \<noteq> []"
  shows "join [backslash] cs \<noteq> [] \<and> join [backslash] cs \<noteq> dot"
proof (cases "tl cs = []")
  case True
  then show ?thesis using assms by (cases cs) (auto simp: share_name_def plain_def)
next
  case False
  then obtain x y zs where "cs = x # y # zs" using assms(2) by (cases cs; cases "tl cs") auto
  then have "backslash \<in> set (join [backslash] cs)" by simp
  then show ?thesis by (auto simp: dot_def backslash_def)
qed

lemma smb_child_path:
  "list_all share_name cs \<Longrightarrow> smb_child (smb_path cs) x = smb_path (cs @ [i_name x])"
  using join_not_dot [of cs] by (auto simp: smb_child_def smb_path_def join_snoc)

lemma toSlashPath_join: "list_all share_name cs \<Longrightarrow> toSlashPath (join [backslash] cs) = join [sl] cs"
proof (induction "[backslash]" cs rule: join.induct)
  case (2 x)
  then show ?case by (auto simp: toSlashPath_map share_name_def intro!: map_idI)
next
  case (3 x y zs)
  have "map (\<lambda>c. if c = backslash then sl else c) x = x"
    using 3(2) by (auto simp: share_name_def intro!: map_idI)
  then show ?case using 3 by (simp add: toSlashPath_map)
qed (simp add: toSlashPath_map)

lemma split_share_path:
  "list_all share_name cs \<Longrightarrow> cs \<noteq> [] \<Longrightarrow> split_on [sl] (join [sl] cs) = cs"
  by (rule split_on_join) (auto simp: list_all_iff share_name_def plain_def)

lemma distinct_blocks:
  assumes "distinct (map key xs)" "\<And>x. x \<in> set xs \<Longrightarrow> distinct (B x)"
    "\<And>x c. x \<in> set xs \<Longrightarrow> c \<in> set (B x) \<Longrightarrow> tag c = key x"
  shows "distinct (concat (map B xs))"
  using assms
proof (induction xs)
  case (Cons x xs)
  have "set (B x) \<inter> set (B y) = {}" if "y \<in> set xs" for y
    using Cons.prems(3) [of x] Cons.prems(3) [of y] Cons.prems(1) that by force
  then show ?case using Cons by auto
qed simp

lemma tree_comps:
  assumes "tidy rd n (smb_path cs)" "list_all share_name cs"
  shows "distinct (map (\<lambda>e. split_on [sl] (e_path e)) (tree_entries rd n (smb_path cs))) \<and>
    list_all (\<lambda>e. \<exists>rest. rest \<noteq> [] \<and> list_all share_name rest \<and> split_on [sl] (e_path e) = cs @ rest)
      (tree_entries rd n (smb_path cs))"
  using assms
proof (induction n arbitrary: cs)
  case (Suc n)
  let ?d = "smb_path cs" and ?comps = "\<lambda>e. split_on [sl] (e_path e)"
  show ?case
  proof (cases "rd ?d")
    case (Inr xs)
    let ?sub = "\<lambda>x. if i_dir x then tree_entries rd n (smb_child ?d x) else []"
    have x: "share_name (i_name x)" "i_dir x \<Longrightarrow> tidy rd n (smb_path (cs @ [i_name x]))" if "x \<in> set xs" for x
      using Suc.prems that Inr smb_child_path [OF Suc.prems(2)] by (auto simp: list_all_iff)
    have own: "?comps (mk_entry ?d x) = cs @ [i_name x]" if "x \<in> set xs" for x
      using x(1) [OF that] Suc.prems(2)
      by (simp add: mk_entry_def smb_child_path) (simp add: smb_path_def toSlashPath_join split_share_path)
    have sub: "distinct (map ?comps (?sub x)) \<and>
        list_all (\<lambda>e. \<exists>rest. rest \<noteq> [] \<and> list_all share_name rest \<and> ?comps e = cs @ i_name x # rest) (?sub x)"
      if "x \<in> set xs" for x
      using Suc.IH [of "cs @ [i_name x]"] x [OF that] Suc.prems(2) smb_child_path [OF Suc.prems(2), of x] by simp
    let ?B = "\<lambda>x. map ?comps (mk_entry ?d x # ?sub x)"
    have "distinct (concat (map ?B xs))"
    proof (rule distinct_blocks [where key = i_name and tag = "\<lambda>c. c ! length cs"])
      show "distinct (map i_name xs)" using Suc.prems(1) Inr by simp
    next
      fix x assume "x \<in> set xs"
      then show "distinct (?B x)" using sub [of x] own [of x] by (fastforce simp: list_all_iff)
    next
      fix x c assume "x \<in> set xs" "c \<in> set (?B x)"
      then show "c ! length cs = i_name x" using sub [of x] own [of x] by (fastforce simp: list_all_iff)
    qed
    moreover have "list_all (\<lambda>e. \<exists>rest. rest \<noteq> [] \<and> list_all share_name rest \<and> ?comps e = cs @ rest) (mk_entry ?d x # ?sub x)"
      if "x \<in> set xs" for x
      using sub [OF that] own [OF that] x(1) [OF that] by (fastforce simp: list_all_iff)
    ultimately show ?thesis using Inr by (simp add: map_concat o_def list_all_iff)
  qed simp
qed simp

lemma tidy_root: "tidy rd n dot \<Longrightarrow> distinct (map e_path (tree_entries rd n dot)) \<and>
    list_all (\<lambda>e. list_all share_name (split_on [sl] (e_path e))) (tree_entries rd n dot)"
  using tree_comps [of rd n "[]"] distinct_map [of "split_on [sl]" "map e_path (tree_entries rd n dot)"]
  by (auto simp: smb_path_def o_def list_all_iff)

end
