(* ===== verification/TextExtract.thy ===== *)
theory TextExtract
  imports GoText
begin

text \<open>
  \<open>internal/extract/text.go\<close> (the plain-text extractor, \<open>decodeUTF8\<close>, \<open>stripControls\<close>)
  and the bounded text collector \<open>sink\<close> of \<open>internal/extract/ooxml.go\<close>.
  Extractor errors are the values of \<open>extract_err\<close>; a file is read through a function
  \<open>readAt off n\<close>, the \<open>io.ReaderAt\<close> of an open file. Sizes are natural numbers (they come
  from a directory entry and from validated settings).
\<close>

section \<open>Errors and readers\<close>

datatype io_err = EOF | UnexpectedEOF | IOErr string

datatype extract_err =
    ErrUnsupported
  | ErrBinary
  | ErrEncrypted
  | ErrPartTooLarge
  | ErrIO io_err
  | ErrMsg string

type_synonym read_at = "nat \<Rightarrow> nat \<Rightarrow> string \<times> io_err option"

text \<open>The reader of a file held as bytes: short reads report \<open>EOF\<close>, as \<open>io.ReaderAt\<close> requires.\<close>

definition file_read_at :: "string \<Rightarrow> read_at" where
  "file_read_at content off n =
     (let got = take n (drop off content) in (got, if length got < n then Some EOF else None))"

section \<open>Text clean-up\<close>

definition is_control :: "nat \<Rightarrow> bool" where
  "is_control r \<longleftrightarrow> r < 0x20 \<and> r \<noteq> 9 \<and> r \<noteq> 10 \<and> r \<noteq> 13 \<or> r = 0x7F"

definition stripControls :: "string \<Rightarrow> string" where
  "stripControls s = strings_map (\<lambda>r. if is_control r then None else Some r) s"

text \<open>\<open>strings.ToValidUTF8(s, "\<dots>")\<close>: each run of invalid bytes becomes one U+FFFD.\<close>

definition replacement :: string where
  "replacement = encode_rune rune_error"

fun to_valid_steps :: "bool \<Rightarrow> (nat \<times> string) list \<Rightarrow> string" where
  "to_valid_steps prev [] = []"
| "to_valid_steps prev (st # sts) =
     (if good_step st then snd st @ to_valid_steps False sts
      else (if prev then [] else replacement) @ to_valid_steps True sts)"

definition decodeUTF8 :: "string \<Rightarrow> extract_err + string" where
  "decodeUTF8 buf =
     (if valid_utf8 buf then Inr buf
      else
        (let bad = length (filter (\<lambda>st. \<not> good_step st) (rune_steps buf));
             total = length (rune_steps buf)
         in if total < bad * 20 then Inl ErrBinary
            else Inr (to_valid_steps False (rune_steps buf))))"

text \<open>Dropping the trailing bytes of a sequence the cap cut, at most \<open>utf8.UTFMax - 1\<close> of them.\<close>

fun drop_partial :: "nat \<Rightarrow> string \<Rightarrow> string" where
  "drop_partial 0 buf = buf"
| "drop_partial (Suc n) buf =
     (if buf = [] \<or> decode_last_rune buf \<noteq> (rune_error, 1) then buf else drop_partial n (butlast buf))"

definition bom :: string where
  "bom = [CHR 0xEF, CHR 0xBB, CHR 0xBF]"

definition extractText :: "read_at \<Rightarrow> nat \<Rightarrow> nat \<Rightarrow> extract_err + string" where
  "extractText readAt fsize maxText =
     (let n = (if maxText + 4 < fsize then maxText + 4 else fsize);
          (buf, err) = readAt 0 n
      in case err of
           Some (IOErr m) \<Rightarrow> Inl (ErrIO (IOErr m))
         | Some UnexpectedEOF \<Rightarrow> Inl (ErrIO UnexpectedEOF)
         | _ \<Rightarrow>
           if CHR 0x00 \<in> set buf then Inl ErrBinary
           else
             (let buf = trim_prefix buf bom;
                  buf = (if maxText < length buf then drop_partial 3 (take maxText buf) else buf)
              in case decodeUTF8 buf of
                   Inl e \<Rightarrow> Inl e
                 | Inr text \<Rightarrow> Inr (stripControls text)))"

section \<open>The bounded collector\<close>

record sink =
  sink_b :: string
  sink_max :: nat

definition sink_new :: "nat \<Rightarrow> sink" where
  "sink_new m = \<lparr>sink_b = [], sink_max = m\<rparr>"

definition sink_full :: "sink \<Rightarrow> bool" where
  "sink_full s \<longleftrightarrow> sink_max s \<le> length (sink_b s)"

definition sink_write :: "sink \<Rightarrow> string \<Rightarrow> sink" where
  "sink_write s text = (if \<not> sink_full s then s\<lparr>sink_b := sink_b s @ text\<rparr> else s)"

text \<open>\<open>for len(b) > 0 && !utf8.Valid(b) { b = b[:len(b)-1] }\<close>\<close>

function cut_to_valid :: "string \<Rightarrow> string" where
  "cut_to_valid b = (if b \<noteq> [] \<and> \<not> valid_utf8 b then cut_to_valid (butlast b) else b)"
  by pat_completeness auto
termination
  by (relation "measure length") auto

declare cut_to_valid.simps [simp del]

definition sink_text :: "sink \<Rightarrow> string" where
  "sink_text s =
     stripControls (if sink_max s < length (sink_b s) then cut_to_valid (take (sink_max s) (sink_b s)) else sink_b s)"

section \<open>Stripped text\<close>

definition clean_text :: "string \<Rightarrow> bool" where
  "clean_text t \<longleftrightarrow> valid_utf8 t \<and> list_all (\<lambda>r. \<not> is_control r) (runes t)"

lemma stripControls_clean: "clean_text (stripControls s)"
proof -
  have ok: "valid_rune r'" if "valid_rune r" "(if is_control r then None else Some r) = Some r'" for r r'
    using that by (auto split: if_splits)
  show ?thesis
    unfolding clean_text_def stripControls_def
    using valid_strings_map [OF ok] runes_strings_map [OF ok]
    by (auto simp: List.map_filter_def list_all_iff)
qed

lemma stripControls_id: "clean_text s \<Longrightarrow> stripControls s = s"
  by (auto simp: clean_text_def stripControls_def list_all_iff intro!: strings_map_id)

lemma length_encoded_filter:
  "length (concat (map encode_rune (List.map_filter (\<lambda>r. if P r then None else Some r) rs)))
     \<le> length (concat (map encode_rune rs))"
  by (induction rs) (auto simp: map_filter_simps)

lemma length_stripControls: "valid_utf8 s \<Longrightarrow> length (stripControls s) \<le> length s"
  using length_encoded_filter [of is_control "runes s"]
  by (simp add: stripControls_def strings_map_filter encode_runes_valid)

text \<open>No byte of clean text is a control byte: multi-byte runes consist of bytes from 0x80 on.\<close>

lemma clean_text_bytes:
  assumes "clean_text t" "c \<in> set t"
  shows "\<not> is_control (bval c)"
proof
  assume ctl: "is_control (bval c)"
  then have small: "bval c < 0x80" by (auto simp: is_control_def)
  have "concat (map encode_rune (runes t)) = t" using assms(1) by (simp add: clean_text_def encode_runes_valid)
  then have "c \<in> set (concat (map encode_rune (runes t)))" using assms(2) by simp
  then obtain r where r: "r \<in> set (runes t)" "c \<in> set (encode_rune r)" by auto
  then have "bval c = r" using encode_rune_bytes small by blast
  then show False using r(1) ctl assms(1) by (simp add: clean_text_def list_all_iff)
qed

section \<open>What \<open>decodeUTF8\<close> and the cap do\<close>

lemma valid_replacement: "valid_utf8 replacement" "length replacement = 3"
  by (simp_all add: replacement_def valid_encode) (simp add: encode_rune_def rune_error_def valid_rune_def)

lemma to_valid_steps_valid:
  "\<forall>st\<in>set sts. good_step st \<longrightarrow> valid_utf8 (snd st) \<Longrightarrow> valid_utf8 (to_valid_steps prev sts)"
  by (induction prev sts rule: to_valid_steps.induct) (auto simp: valid_utf8_appendI valid_replacement)

lemma length_to_valid_steps:
  "length (to_valid_steps prev sts)
     \<le> length (concat (map snd sts)) + 3 * length (filter (\<lambda>st. \<not> good_step st) sts)"
  by (induction prev sts rule: to_valid_steps.induct) (auto simp: valid_replacement)

lemma good_steps_valid: "\<forall>st\<in>set (rune_steps s). good_step st \<longrightarrow> valid_utf8 (snd st)"
proof (induction s rule: rune_steps.induct)
  case (1 s)
  show ?case
  proof (cases "s = []")
    case False
    obtain r w where d: "decode_rune s = (r, w)" by fastforce
    have w: "w \<le> length s" using decode_rune_width [OF False] d by simp
    have "valid_utf8 (take w s)" if "good_step (r, take w s)"
    proof -
      have "\<not> (r = rune_error \<and> w = 1)" using that w by (auto simp: good_step_def)
      then have "encode_rune r = take w s" using decode_good_encode [OF d False] by blast
      then show ?thesis by (metis valid_encode)
    qed
    moreover have "\<forall>st\<in>set (rune_steps (drop w s)). good_step st \<longrightarrow> valid_utf8 (snd st)"
      using 1 [OF False d [symmetric]] by simp
    moreover have "rune_steps s = (r, take w s) # rune_steps (drop w s)"
      using rune_steps_unfold [OF False] d by simp
    ultimately show ?thesis by simp
  qed simp
qed

lemma length_rune_steps: "length (rune_steps s) \<le> length s"
proof (induction s rule: rune_steps.induct)
  case (1 s)
  show ?case
  proof (cases "s = []")
    case False
    obtain r w where d: "decode_rune s = (r, w)" by fastforce
    have "1 \<le> w" "w \<le> length s" using decode_rune_width [OF False] d by auto
    moreover have "length (rune_steps (drop w s)) \<le> length (drop w s)"
      using 1 [OF False d [symmetric]] by simp
    moreover have "length (rune_steps s) = Suc (length (rune_steps (drop w s)))"
      using d by (simp add: rune_steps_unfold [OF False])
    ultimately show ?thesis by simp
  qed simp
qed

lemma decodeUTF8_valid: "decodeUTF8 buf = Inr t \<Longrightarrow> valid_utf8 t"
  using to_valid_steps_valid [OF good_steps_valid]
  by (auto simp: decodeUTF8_def Let_def split: if_splits)

text \<open>
  Replacing the odd invalid byte by the three-byte U+FFFD can lengthen the text, but at most by
  three bytes for every twenty runes.
\<close>

lemma decodeUTF8_length:
  assumes "decodeUTF8 buf = Inr t"
  shows "20 * length t \<le> 23 * length buf"
proof (cases "valid_utf8 buf")
  case True
  then show ?thesis using assms by (simp add: decodeUTF8_def)
next
  case False
  let ?bad = "length (filter (\<lambda>st. \<not> good_step st) (rune_steps buf))"
  have b: "?bad * 20 \<le> length (rune_steps buf)" and t: "t = to_valid_steps False (rune_steps buf)"
    using assms False by (auto simp: decodeUTF8_def Let_def split: if_splits)
  have "length t \<le> length buf + 3 * ?bad" using length_to_valid_steps [of False "rune_steps buf"] t by simp
  then show ?thesis using b length_rune_steps [of buf] by linarith
qed

lemma length_drop_partial: "length (drop_partial n buf) \<le> length buf"
proof (induction n buf rule: drop_partial.induct)
  case (2 n buf)
  then show ?case by (auto dest: le_trans [of _ "length buf - 1"])
qed simp

lemma extractText_Inr:
  assumes "extractText readAt fsize maxText = Inr t"
  obtains buf u where "decodeUTF8 buf = Inr u" "length buf \<le> maxText" "t = stripControls u"
proof -
  obtain buf0 err where r: "readAt 0 (if maxText + 4 < fsize then maxText + 4 else fsize) = (buf0, err)"
    by fastforce
  let ?b = "trim_prefix buf0 bom"
  let ?c = "if maxText < length ?b then drop_partial 3 (take maxText ?b) else ?b"
  obtain u where "decodeUTF8 ?c = Inr u" "t = stripControls u"
    using assms r by (auto simp: extractText_def Let_def split: option.splits io_err.splits if_splits sum.splits)
  moreover have "length ?c \<le> maxText" using length_drop_partial [of 3 "take maxText ?b"] by auto
  ultimately show thesis using that by blast
qed

lemma extractText_clean: "extractText readAt fsize maxText = Inr t \<Longrightarrow> clean_text t"
  by (erule extractText_Inr) (simp add: stripControls_clean)

lemma extractText_length:
  assumes "extractText readAt fsize maxText = Inr t"
  shows "20 * length t \<le> 23 * maxText"
proof -
  obtain buf u where b: "decodeUTF8 buf = Inr u" "length buf \<le> maxText" "t = stripControls u"
    using extractText_Inr [OF assms] by metis
  have "length t \<le> length u" using length_stripControls [OF decodeUTF8_valid [OF b(1)]] b(3) by simp
  then show ?thesis using decodeUTF8_length [OF b(1)] b(2) by linarith
qed

text \<open>A clean UTF-8 file within the cap, with no NUL and no byte-order mark, comes back unchanged.\<close>

lemma extractText_identity:
  assumes "clean_text content" "length content \<le> maxText" "\<not> prefix bom content"
  shows "extractText (file_read_at content) (length content) maxText = Inr content"
proof -
  have nz: "CHR 0x00 \<notin> set content"
    using clean_text_bytes [OF assms(1), of "CHR 0x00"] by (auto simp: is_control_def)
  show ?thesis using assms nz
    by (simp add: extractText_def file_read_at_def trim_prefix_def decodeUTF8_def clean_text_def [of content]
        stripControls_id Let_def)
qed

section \<open>What the collector does\<close>

lemma sink_write_max [simp]: "sink_max (sink_write s t) = sink_max s"
  by (simp add: sink_write_def)

lemma sink_write_full [simp]: "sink_full s \<Longrightarrow> sink_write s t = s"
  by (simp add: sink_write_def)

lemma sink_write_extends: "\<exists>t'. sink_b (sink_write s t) = sink_b s @ t'"
  by (simp add: sink_write_def)

lemma valid_sink_write: "valid_utf8 (sink_b s) \<Longrightarrow> valid_utf8 t \<Longrightarrow> valid_utf8 (sink_b (sink_write s t))"
  by (simp add: sink_write_def valid_utf8_appendI)

lemma cut_to_valid_props: "valid_utf8 (cut_to_valid b) \<and> prefix (cut_to_valid b) b"
proof (induction b rule: cut_to_valid.induct)
  case (1 b)
  show ?case
  proof (cases "b \<noteq> [] \<and> \<not> valid_utf8 b")
    case True
    then have "prefix (cut_to_valid (butlast b)) b"
      using 1 by (meson prefix_order.trans prefixeq_butlast)
    then show ?thesis using 1 True by (simp add: cut_to_valid.simps [of b])
  next
    case False
    then show ?thesis by (subst (1 2) cut_to_valid.simps) auto
  qed
qed

lemma sink_text_clean: "clean_text (sink_text s)"
  by (simp add: sink_text_def stripControls_clean)

lemma length_sink_text: "valid_utf8 (sink_b s) \<Longrightarrow> length (sink_text s) \<le> sink_max s"
proof -
  assume v: "valid_utf8 (sink_b s)"
  let ?c = "cut_to_valid (take (sink_max s) (sink_b s))"
  have "length (stripControls ?c) \<le> length ?c" using length_stripControls cut_to_valid_props by blast
  moreover have "length ?c \<le> sink_max s"
    using cut_to_valid_props [of "take (sink_max s) (sink_b s)"] prefix_length_le by fastforce
  ultimately show ?thesis using length_stripControls [OF v] by (auto simp: sink_text_def)
qed

section \<open>Properties\<close>

text \<open>C3: whatever bytes a file holds and whatever its reader does, text that \<open>extractText\<close>
  returns is valid UTF-8 with no control rune other than tab, line feed and carriage return, and
  its length exceeds the cap by at most 15 percent (the room replaced bytes can take).\<close>

theorem extractText_safe:
  assumes "extractText readAt fsize maxText = Inr t"
  shows "clean_text t \<and> 20 * length t \<le> 23 * maxText"
  using extractText_clean [OF assms] extractText_length [OF assms] by simp

theorem extractText_safe_witness:
  "extractText (file_read_at [CHR ''a'', CHR 0x07, CHR ''b'']) 3 10 = Inr ''ab'' \<and> clean_text ''ab''"
proof -
  have "extractText (file_read_at [CHR ''a'', CHR 0x07, CHR ''b'']) 3 10 = Inr ''ab''" by code_simp
  then show ?thesis using extractText_safe [of "file_read_at [CHR ''a'', CHR 0x07, CHR ''b'']" 3 10] by simp
qed

text \<open>A file that already is clean UTF-8 within the cap, with no byte-order mark, is extracted
  unchanged.\<close>

theorem extractText_exact:
  assumes "clean_text content" "length content \<le> maxText" "\<not> prefix bom content"
  shows "extractText (file_read_at content) (length content) maxText = Inr content"
  using assms by (rule extractText_identity)

theorem extractText_exact_witness:
  "extractText (file_read_at ''hi there'') (length ''hi there'') 8 = Inr ''hi there''"
proof (rule extractText_exact)
  show "clean_text ''hi there''" unfolding clean_text_def by (intro conjI; code_simp)
qed (simp_all add: bom_def)

end
