(* ===== verification/BlockReader.thy ===== *)
theory BlockReader
  imports TextExtract
begin

text \<open>
  The two readers an archive is read through (internal/extract/ooxml.go): the block cache in front of
  the file on the NAS, and the reader that stops decompressing at a limit. \<open>reader_at\<close> is the contract
  of \<open>io.ReaderAt\<close> the cache relies on: a read that does not fail returns the bytes of the file.
\<close>

section \<open>The block cache\<close>

definition blockSize :: nat where "blockSize = 256 * 2 ^ 10"
definition cacheBlocks :: nat where "cacheBlocks = 8"

lemma blockSize_pos [simp]: "0 < blockSize"
  by (simp add: blockSize_def)

record block_cache =
  bc_size :: nat
  bc_blocks :: "nat \<Rightarrow> string option"
  bc_order :: "nat list"

definition newBlockReaderAt :: "nat \<Rightarrow> block_cache" where
  "newBlockReaderAt fsize = \<lparr>bc_size = fsize, bc_blocks = (\<lambda>_. None), bc_order = []\<rparr>"

definition evict :: "block_cache \<Rightarrow> block_cache" where
  "evict c =
     (if cacheBlocks \<le> length (bc_order c)
      then c\<lparr>bc_blocks := (bc_blocks c)(hd (bc_order c) := None), bc_order := tl (bc_order c)\<rparr>
      else c)"

definition block :: "read_at \<Rightarrow> nat \<Rightarrow> block_cache \<Rightarrow> (io_err + string) \<times> block_cache" where
  "block r idx c =
     (case bc_blocks c idx of
        Some b \<Rightarrow> (Inr b, c)
      | None \<Rightarrow>
          (let start = idx * blockSize;
               n = (if bc_size c < start + blockSize then bc_size c - start else blockSize);
               (got, err) = r start n
           in if err \<noteq> None \<and> err \<noteq> Some EOF then (Inl (the err), c)
              else let c = evict c
                   in (Inr got, c\<lparr>bc_blocks := (bc_blocks c)(idx := Some got), bc_order := bc_order c @ [idx]\<rparr>)))"

function read_loop :: "read_at \<Rightarrow> nat \<Rightarrow> nat \<Rightarrow> string \<Rightarrow> block_cache \<Rightarrow> (string \<times> io_err option) \<times> block_cache" where
  "read_loop r n off acc c =
     (if n = 0 \<or> bc_size c \<le> off then ((acc, if n = 0 then None else Some EOF), c)
      else
        (case block r (off div blockSize) c of
           (Inl e, c') \<Rightarrow> ((acc, Some e), c')
         | (Inr blk, c') \<Rightarrow>
             (let got = take n (drop (off mod blockSize) blk)
              in if length blk \<le> off mod blockSize then ((acc, Some UnexpectedEOF), c')
                 else read_loop r (n - length got) (off + length got) (acc @ got) c')))"
  by pat_completeness auto
termination
  by (relation "measure (\<lambda>(r, n, off, acc, c). n)") auto

declare read_loop.simps [simp del]

definition block_ReadAt :: "read_at \<Rightarrow> nat \<Rightarrow> int \<Rightarrow> block_cache \<Rightarrow> (string \<times> io_err option) \<times> block_cache" where
  "block_ReadAt r n off c =
     (if off < 0 \<or> int (bc_size c) \<le> off then (([], Some EOF), c) else read_loop r n (nat off) [] c)"

section \<open>The contract of a reader\<close>

locale reader_at =
  fixes readAt :: read_at and content :: string
  assumes reads: "readAt off n = (got, err) \<Longrightarrow> err = None \<or> err = Some EOF \<Longrightarrow> got = take n (drop off content)"

definition cache_ok :: "string \<Rightarrow> block_cache \<Rightarrow> bool" where
  "cache_ok content c \<longleftrightarrow> bc_size c = length content \<and> length (bc_order c) \<le> cacheBlocks \<and>
     (\<forall>i b. bc_blocks c i = Some b \<longrightarrow> i \<in> set (bc_order c) \<and> b = take blockSize (drop (i * blockSize) content))"

lemma cache_ok_new: "cache_ok content (newBlockReaderAt (length content))"
  by (simp add: cache_ok_def newBlockReaderAt_def)

lemma cache_ok_evict:
  assumes "cache_ok content c"
  shows "cache_ok content (evict c) \<and> length (bc_order (evict c)) < cacheBlocks"
proof (cases "cacheBlocks \<le> length (bc_order c)")
  case True
  then obtain x xs where x: "bc_order c = x # xs" by (cases "bc_order c") (auto simp: cacheBlocks_def)
  then have "length xs < cacheBlocks" using assms by (simp add: cache_ok_def)
  then show ?thesis using assms True x by (auto simp: cache_ok_def evict_def split: if_splits)
qed (use assms in \<open>simp add: evict_def\<close>)

context reader_at
begin

lemma block_ok:
  assumes "cache_ok content c" "block readAt i c = (res, c')"
  shows "cache_ok content c' \<and>
    (case res of Inl e \<Rightarrow> \<exists>off n. snd (readAt off n) = Some e \<and> e \<noteq> EOF
     | Inr b \<Rightarrow> b = take blockSize (drop (i * blockSize) content))"
proof (cases "bc_blocks c i")
  case (Some b)
  then show ?thesis using assms by (auto simp: block_def cache_ok_def)
next
  case None
  let ?n = "if bc_size c < i * blockSize + blockSize then bc_size c - i * blockSize else blockSize"
  obtain got err where r: "readAt (i * blockSize) ?n = (got, err)" by fastforce
  show ?thesis
  proof (cases "err = None \<or> err = Some EOF")
    case False
    then have "res = Inl (the err)" "c' = c" "err = Some (the err)" using assms(2) None r by (auto simp: block_def Let_def)
    moreover have "\<exists>off n. snd (readAt off n) = err" using r by (metis snd_conv)
    ultimately show ?thesis using assms(1) False by auto
  next
    case True
    have "got = take ?n (drop (i * blockSize) content)" by (rule reads [OF r True])
    moreover have "take ?n (drop (i * blockSize) content) = take blockSize (drop (i * blockSize) content)"
      using assms(1) by (auto simp: cache_ok_def)
    ultimately have g: "got = take blockSize (drop (i * blockSize) content)" by simp
    have res: "res = Inr got" "c' = (evict c)\<lparr>bc_blocks := (bc_blocks (evict c))(i := Some got), bc_order := bc_order (evict c) @ [i]\<rparr>"
      using assms(2) None r True by (auto simp: block_def Let_def)
    then show ?thesis using cache_ok_evict [OF assms(1)] g by (auto simp: cache_ok_def)
  qed
qed

lemma within_block:
  assumes "off < length content"
  shows "take n (drop (off mod blockSize) (take blockSize (drop (off div blockSize * blockSize) content))) =
      take (min n (blockSize - off mod blockSize)) (drop off content)"
    "off mod blockSize < length (take blockSize (drop (off div blockSize * blockSize) content))"
proof -
  have o: "off div blockSize * blockSize + off mod blockSize = off" by (rule div_mult_mod_eq)
  show "take n (drop (off mod blockSize) (take blockSize (drop (off div blockSize * blockSize) content))) =
      take (min n (blockSize - off mod blockSize)) (drop off content)"
    by (simp add: drop_take o add.commute)
  have "off mod blockSize < blockSize" by simp
  then show "off mod blockSize < length (take blockSize (drop (off div blockSize * blockSize) content))"
    using less_diff_conv [of "off mod blockSize" "length content" "off div blockSize * blockSize"] assms o by simp
qed

lemma read_loop_ok:
  assumes "cache_ok content c" "read_loop readAt n off acc c = ((out, err), c')"
  shows "cache_ok content c' \<and> (\<exists>got. out = acc @ got \<and> prefix got (take n (drop off content)) \<and>
     (err = None \<longrightarrow> length got = n) \<and>
     (err = Some EOF \<longrightarrow> got = take n (drop off content) \<and> length got < n) \<and>
     (\<forall>e. err = Some e \<longrightarrow> e = EOF \<or> (\<exists>o' m. snd (readAt o' m) = Some e)))"
  using assms
proof (induction n arbitrary: off acc c rule: less_induct)
  case (less n)
  have sz: "bc_size c = length content" using less.prems(1) by (simp add: cache_ok_def)
  note run = less.prems(2) [unfolded read_loop.simps [of readAt n off acc c]]
  show ?case
  proof (cases "n = 0 \<or> bc_size c \<le> off")
    case True
    then show ?thesis using less.prems(1) run sz by (auto split: if_splits)
  next
    case False
    obtain res c1 where b: "block readAt (off div blockSize) c = (res, c1)" by fastforce
    note ok = block_ok [OF less.prems(1) b]
    show ?thesis
    proof (cases res)
      case (Inl e)
      then have "out = acc" "err = Some e" "c' = c1" using run False b by auto
      then show ?thesis using ok Inl by (auto intro!: exI [of _ "[]"])
    next
      case (Inr blk)
      let ?k = "min n (blockSize - off mod blockSize)" and ?rest = "drop off content"
      have off: "off < length content" using False sz by simp
      have blk: "blk = take blockSize (drop (off div blockSize * blockSize) content)" using ok Inr by simp
      have got: "take n (drop (off mod blockSize) blk) = take ?k ?rest" "\<not> length blk \<le> off mod blockSize"
        unfolding blk by (rule within_block(1) [OF off], simp only: not_le, rule within_block(2) [OF off])
      let ?m = "length (take ?k ?rest)"
      have m: "0 < ?m" "?m \<le> n" using False off by (auto simp: blockSize_def)
      have rl: "read_loop readAt (n - ?m) (off + ?m) (acc @ take ?k ?rest) c1 = ((out, err), c')"
        using run False b Inr got by (simp add: Let_def)
      have "n - ?m < n" using m False by simp
      from less.IH [OF this _ rl] ok [THEN conjunct1] obtain g where g: "cache_ok content c'" "out = (acc @ take ?k ?rest) @ g"
          "prefix g (take (n - ?m) (drop (off + ?m) content))" "err = None \<longrightarrow> length g = n - ?m"
          "err = Some EOF \<longrightarrow> g = take (n - ?m) (drop (off + ?m) content) \<and> length g < n - ?m"
          "\<forall>e. err = Some e \<longrightarrow> e = EOF \<or> (\<exists>o' m. snd (readAt o' m) = Some e)"
        by auto
      have tk: "take n ?rest = take ?k ?rest @ take (n - ?m) (drop (off + ?m) content)"
      proof -
        have "take n ?rest = take ?m ?rest @ take (n - ?m) (drop ?m ?rest)"
          using m(2) by (metis le_add_diff_inverse take_add)
        moreover have "take ?m ?rest = take ?k ?rest" by (metis append_eq_conv_conj append_take_drop_id)
        ultimately show ?thesis by (simp add: add.commute)
      qed
      have l: "length (take ?k ?rest @ g) = ?m + length g" by simp
      have "prefix (take ?k ?rest @ g) (take n ?rest)" unfolding tk using g(3) by (simp only: same_prefix_prefix)
      moreover have "err = None \<longrightarrow> length (take ?k ?rest @ g) = n" unfolding l using g(4) m(2) by linarith
      moreover have "err = Some EOF \<longrightarrow> take ?k ?rest @ g = take n ?rest \<and> length (take ?k ?rest @ g) < n"
      proof
        assume "err = Some EOF"
        with g(5) have "g = take (n - ?m) (drop (off + ?m) content)" "length g < n - ?m" by blast+
        then show "take ?k ?rest @ g = take n ?rest \<and> length (take ?k ?rest @ g) < n"
          unfolding tk l using less_diff_conv by (metis add.commute)
      qed
      ultimately show ?thesis using g(1,2,6) 
        by (intro conjI exI [of _ "take ?k ?rest @ g"]) (assumption | simp only: append_assoc)+
    qed
  qed
qed

text \<open>What one call of the cache returns\<close>

lemma block_ReadAt_ok:
  assumes "cache_ok content c" "block_ReadAt readAt n off c = ((got, err), c')"
  shows "cache_ok content c' \<and> prefix got (take n (drop (nat off) content)) \<and>
     (err = None \<longrightarrow> 0 \<le> off \<and> length got = n) \<and>
     (err = Some EOF \<longrightarrow> off < 0 \<or> got = take n (drop (nat off) content)) \<and>
     (\<forall>e. err = Some e \<longrightarrow> e = EOF \<or> (\<exists>o' m. snd (readAt o' m) = Some e))"
proof (cases "off < 0 \<or> int (bc_size c) \<le> off")
  case True
  then show ?thesis using assms by (auto simp: block_ReadAt_def cache_ok_def)
next
  case False
  then have "read_loop readAt n (nat off) [] c = ((got, err), c')" using assms(2) by (simp add: block_ReadAt_def)
  from read_loop_ok [OF assms(1) this] False show ?thesis by auto
qed

end

lemma file_reader: "reader_at (file_read_at content) content"
  by unfold_locales (auto simp: file_read_at_def Let_def)

interpretation nas_file: reader_at "file_read_at content" content for content
  by (rule file_reader)

section \<open>A sequence of reads\<close>

text \<open>Each read comes with the file as it answers then.\<close>

fun run_reads :: "(read_at \<times> int \<times> nat) list \<Rightarrow> block_cache \<Rightarrow> (string \<times> io_err option) list \<times> block_cache" where
  "run_reads [] c = ([], c)"
| "run_reads ((r, off, n) # reqs) c =
     (let (a, c) = block_ReadAt r n off c; (as, c) = run_reads reqs c in (a # as, c))"

definition read_right :: "string \<Rightarrow> (read_at \<times> int \<times> nat) \<Rightarrow> string \<times> io_err option \<Rightarrow> bool" where
  "read_right content = (\<lambda>(r, off, n) (got, err).
     prefix got (take n (drop (nat off) content)) \<and>
     (err = None \<longrightarrow> 0 \<le> off \<and> length got = n) \<and>
     (err = Some EOF \<longrightarrow> off < 0 \<or> got = take n (drop (nat off) content)) \<and>
     (\<forall>e. err = Some e \<longrightarrow> e = EOF \<or> (\<exists>o' m. snd (r o' m) = Some e)))"

lemma run_reads_ok:
  "list_all (\<lambda>(r, off, n). reader_at r content) reqs \<Longrightarrow> cache_ok content c \<Longrightarrow> run_reads reqs c = (as, c') \<Longrightarrow>
   list_all2 (read_right content) reqs as \<and> cache_ok content c'"
proof (induction reqs c arbitrary: as rule: run_reads.induct)
  case (2 r off n reqs c)
  obtain got err c1 where a: "block_ReadAt r n off c = ((got, err), c1)" by (metis prod.collapse)
  obtain as' where as: "run_reads reqs c1 = (as', c')" "as = (got, err) # as'"
    using 2(4) a by (auto split: prod.splits)
  have ra: "reader_at r content" using 2(2) by simp
  note ok = reader_at.block_ReadAt_ok [OF ra 2(3) a]
  have "list_all2 (read_right content) reqs as' \<and> cache_ok content c'"
    using 2(1) [OF a [symmetric] refl _ _ as(1)] 2(2) ok by simp
  then show ?case using ok as(2) by (simp add: read_right_def)
qed simp

text \<open>A reader that fails where \<open>bad\<close> says so\<close>

definition flaky_read_at :: "(nat \<Rightarrow> bool) \<Rightarrow> string \<Rightarrow> read_at" where
  "flaky_read_at bad content off n =
     (if bad off then ([], Some (IOErr ''connection lost'')) else file_read_at content off n)"

interpretation flaky: reader_at "flaky_read_at bad content" content for bad content
  by unfold_locales (auto simp: flaky_read_at_def file_read_at_def Let_def split: if_splits)




section \<open>Reading with a limit\<close>

text \<open>A reader that keeps its place: asked for \<open>n\<close> bytes, it gives at most that many.\<close>

type_synonym 's stream = "nat \<Rightarrow> 's \<Rightarrow> (string \<times> io_err option) \<times> 's"

definition errPartTooLarge :: io_err where
  "errPartTooLarge = IOErr ''part exceeds the decompressed size limit''"

definition capped_Read :: "'s stream \<Rightarrow> (nat \<times> 's) stream" where
  "capped_Read rd n x =
     (case x of (left, s) \<Rightarrow>
        (if left = 0 then (([], Some errPartTooLarge), (left, s))
         else case rd (if left < n then left else n) s of
                ((got, err), s') \<Rightarrow> ((got, err), (left - length got, s'))))"

fun read_all :: "'s stream \<Rightarrow> nat list \<Rightarrow> 's \<Rightarrow> string \<times> io_err option" where
  "read_all rd [] s = ([], None)"
| "read_all rd (n # ns) s =
     (case rd n s of
        ((got, Some e), s') \<Rightarrow> (got, Some e)
      | ((got, None), s') \<Rightarrow> (case read_all rd ns s' of (rest, err) \<Rightarrow> (got @ rest, err)))"

text \<open>A decompressor: it gives what it has, in pieces of its own choosing, then its end or its error.\<close>

definition unzip_stream :: "(nat \<Rightarrow> string \<Rightarrow> nat) \<Rightarrow> io_err \<Rightarrow> string stream" where
  "unzip_stream pick e n s =
     (if s = [] then (([], Some e), [])
      else let k = max 1 (min n (pick n s)) in ((take k s, None), drop k s))"

text \<open>What a reader of the part sees\<close>

definition part_stream :: "nat \<Rightarrow> string \<times> io_err \<Rightarrow> string \<times> io_err" where
  "part_stream limit = (\<lambda>(s, e). if length s < limit then (s, e) else (take limit s, errPartTooLarge))"

lemma capped_read_all:
  assumes "list_all (\<lambda>n. 0 < n) ns" "read_all (capped_Read (unzip_stream pick e)) ns (limit, s) = (out, err)"
  shows "prefix out (fst (part_stream limit (s, e))) \<and>
    (case err of None \<Rightarrow> True | Some e' \<Rightarrow> (out, e') = part_stream limit (s, e))"
  using assms
proof (induction ns arbitrary: limit s out err)
  case (Cons n ns)
  show ?case
  proof (cases "limit = 0 \<or> s = []")
    case True
    then show ?thesis using Cons.prems by (auto simp: capped_Read_def unzip_stream_def part_stream_def)
  next
    case False
    let ?m = "if limit < n then limit else n"
    let ?k = "max 1 (min ?m (pick ?m s))"
    have k: "0 < ?k" "?k \<le> limit" using False Cons.prems(1) by auto
    obtain rest err' where r: "read_all (capped_Read (unzip_stream pick e)) ns (limit - length (take ?k s), drop ?k s) = (rest, err')"
      by fastforce
    have "capped_Read (unzip_stream pick e) n (limit, s) = ((take ?k s, None), (limit - length (take ?k s), drop ?k s))"
      using False by (simp add: capped_Read_def unzip_stream_def Let_def)
    then have o: "out = take ?k s @ rest" "err = err'"
      using Cons.prems(2) r by (simp_all only: read_all.simps prod.case option.case) auto
    have ih: "prefix rest (fst (part_stream (limit - length (take ?k s)) (drop ?k s, e)))"
        "case err' of None \<Rightarrow> True | Some e' \<Rightarrow> (rest, e') = part_stream (limit - length (take ?k s)) (drop ?k s, e)"
      using Cons.IH [OF _ r] Cons.prems(1) by (simp_all only: list.pred_inject simp_thms)
    have p: "part_stream limit (s, e) =
        (take ?k s @ fst (part_stream (limit - length (take ?k s)) (drop ?k s, e)),
         snd (part_stream (limit - length (take ?k s)) (drop ?k s, e)))"
    proof (cases "length s \<le> ?k")
      case True
      then show ?thesis using k by (cases "length s = limit") (auto simp: part_stream_def)
    next
      case l: False
      then have "take limit s = take ?k s @ take (limit - ?k) (drop ?k s)"
        using k(2) by (metis le_add_diff_inverse take_add)
      moreover have "length s < limit \<longleftrightarrow> length (drop ?k s) < limit - length (take ?k s)"
        using less_diff_iff [of ?k "length s" limit] l k(2) by (simp add: min_absorb2)
      ultimately show ?thesis using l by (simp add: part_stream_def min_def)
    qed
    obtain x ex where ps: "part_stream (limit - length (take ?k s)) (drop ?k s, e) = (x, ex)" by fastforce
    show ?thesis unfolding p o ps using ih [unfolded ps] by (cases err') simp_all
  qed
qed (auto simp: part_stream_def split: if_splits)

text \<open>A part of exactly the limit is refused too.\<close>

lemma part_of_exact_size: "length s = limit \<Longrightarrow> part_stream limit (s, e) = (s, errPartTooLarge)"
  by (simp add: part_stream_def)

end
