(* ===== verification/GoNumbers.thy ===== *)
theory GoNumbers
  imports GoText
begin

text \<open>
  Package \<open>strconv\<close>: decimal formatting and parsing of 64-bit integers and of booleans, and quoting.
  \<open>Inl\<close> carries the reason of the \<open>NumError\<close>.
\<close>

datatype num_err = ErrSyntax | ErrRange

definition digit_char :: "nat \<Rightarrow> char" where
  "digit_char n = char_of (48 + n)"

definition is_dec :: "char \<Rightarrow> bool" where
  "is_dec c \<longleftrightarrow> 48 \<le> bval c \<and> bval c \<le> 57"

definition digit_val :: "char \<Rightarrow> nat" where
  "digit_val c = bval c - 48"

fun format_nat :: "nat \<Rightarrow> string" where
  "format_nat n = (if n < 10 then [digit_char n] else format_nat (n div 10) @ [digit_char (n mod 10)])"

declare format_nat.simps [simp del]

definition FormatInt :: "int \<Rightarrow> string" where
  "FormatInt i = (if i < 0 then CHR ''-'' # format_nat (nat (- i)) else format_nat (nat i))"

definition parse_digits :: "string \<Rightarrow> nat" where
  "parse_digits s = foldl (\<lambda>n c. n * 10 + digit_val c) 0 s"

definition max_int64 :: int where "max_int64 = 2 ^ 63 - 1"
definition min_int64 :: int where "min_int64 = - (2 ^ 63)"

text \<open>\<open>strconv.ParseInt(s, 10, 64)\<close>, and \<open>strconv.Atoi\<close> on a 64-bit platform\<close>

definition ParseInt :: "string \<Rightarrow> num_err + int" where
  "ParseInt s =
     (let (neg, ds) = (if s \<noteq> [] \<and> hd s = CHR ''-'' then (True, tl s)
                       else if s \<noteq> [] \<and> hd s = CHR ''+'' then (False, tl s)
                       else (False, s))
      in if ds = [] \<or> \<not> list_all is_dec ds then Inl ErrSyntax
         else (let v = (if neg then - int (parse_digits ds) else int (parse_digits ds))
               in if v < min_int64 \<or> max_int64 < v then Inl ErrRange else Inr v))"

definition FormatBool :: "bool \<Rightarrow> string" where
  "FormatBool b = (if b then ''true'' else ''false'')"

definition ParseBool :: "string \<Rightarrow> num_err + bool" where
  "ParseBool s =
     (if s \<in> set [''1'', ''t'', ''T'', ''TRUE'', ''true'', ''True''] then Inr True
      else if s \<in> set [''0'', ''f'', ''F'', ''FALSE'', ''false'', ''False''] then Inr False
      else Inl ErrSyntax)"

text \<open>\<open>strconv.Quote\<close>, the verb \<open>%q\<close>; a rune beyond ASCII is taken to be printable\<close>

definition hex_digit :: "nat \<Rightarrow> char" where
  "hex_digit n = (if n < 10 then char_of (48 + n) else char_of (87 + n))"

definition quote_step :: "nat \<times> string \<Rightarrow> string" where
  "quote_step st =
     (case st of (r, b) \<Rightarrow>
        let hex = (\<lambda>n. [CHR 0x5C, CHR ''x'', hex_digit (n div 16), hex_digit (n mod 16)])
        in if r = rune_error \<and> length b = 1 then hex (bval (hd b))
           else if r = 0x22 \<or> r = 0x5C then CHR 0x5C # b
           else if 0x20 \<le> r \<and> r \<noteq> 0x7F then b
           else case map_of [(7, CHR ''a''), (8, CHR ''b''), (9, CHR ''t''), (10, CHR ''n''), (11, CHR ''v''),
                             (12, CHR ''f''), (13, CHR ''r'')] r of
                  Some c \<Rightarrow> [CHR 0x5C, c]
                | None \<Rightarrow> hex r)"

definition Quote :: "string \<Rightarrow> string" where
  "Quote s = [CHR 0x22] @ concat (map quote_step (rune_steps s)) @ [CHR 0x22]"

lemma bval_digit_char: "n < 10 \<Longrightarrow> bval (digit_char n) = 48 + n"
  by (simp add: digit_char_def)

lemma is_dec_digit_char: "n < 10 \<Longrightarrow> is_dec (digit_char n)"
  by (simp add: is_dec_def bval_digit_char)

lemma digit_val_char: "n < 10 \<Longrightarrow> digit_val (digit_char n) = n"
  by (simp add: digit_val_def bval_digit_char)

lemma format_nat_props: "list_all is_dec (format_nat n) \<and> format_nat n \<noteq> [] \<and> parse_digits (format_nat n) = n"
proof (induction n rule: format_nat.induct)
  case (1 n)
  show ?case
  proof (cases "n < 10")
    case True
    then show ?thesis
      by (simp add: format_nat.simps [of n] is_dec_digit_char parse_digits_def digit_val_char)
  next
    case False
    have "parse_digits (format_nat n) = parse_digits (format_nat (n div 10)) * 10 + n mod 10"
      using False by (simp add: format_nat.simps [of n] parse_digits_def digit_val_char)
    then show ?thesis using 1 [OF False] False by (simp add: format_nat.simps [of n] is_dec_digit_char)
  qed
qed

lemma format_nat_head: "format_nat n \<noteq> [] \<and> hd (format_nat n) \<noteq> CHR ''-'' \<and> hd (format_nat n) \<noteq> CHR ''+''"
proof -
  have "is_dec (hd (format_nat n))" using format_nat_props [of n] by (cases "format_nat n") auto
  then show ?thesis using format_nat_props [of n] by (auto simp: is_dec_def)
qed

lemma ParseInt_FormatInt:
  assumes "min_int64 \<le> i" "i \<le> max_int64"
  shows "ParseInt (FormatInt i) = Inr i"
proof (cases "i < 0")
  case True
  then show ?thesis using assms format_nat_props [of "nat (- i)"] by (simp add: ParseInt_def FormatInt_def)
next
  case False
  then show ?thesis using assms format_nat_props [of "nat i"] format_nat_head [of "nat i"]
    by (simp add: ParseInt_def FormatInt_def)
qed

lemma ParseBool_FormatBool [simp]: "ParseBool (FormatBool b) = Inr b"
  by (simp add: ParseBool_def FormatBool_def)

lemma ParseInt_bounds: "ParseInt s = Inr v \<Longrightarrow> min_int64 \<le> v \<and> v \<le> max_int64"
  by (auto simp: ParseInt_def Let_def split: prod.splits if_splits)

end
