(* ===== verification/Ooxml.thy ===== *)
theory Ooxml
  imports BlockReader GoNumbers
begin

text \<open>
  Office packages (internal/extract/ooxml.go); WordSlides and Sheets hold the three formats. The standard library's zip and XML
  readers are seen through what they yield: an archive is a list of entries, each with its decompressed
  bytes and how they end, and an XML part is a list of tokens and the error that ends it, if any. The
  loops over tokens, the collector and the limits are the code's. Every parser is a step on a state that
  also says what to write, run by \<open>xml_loop\<close>, which stops when the collector is full.
\<close>

section \<open>Archives\<close>

record zip_entry =
  ze_name :: string
  ze_data :: "string + (string \<times> io_err)"

type_synonym unzip = "read_at \<Rightarrow> nat \<Rightarrow> string + zip_entry list"

definition maxPartBytes :: nat where "maxPartBytes = 128 * 2 ^ 20"
definition maxSharedText :: nat where "maxSharedText = 32 * 2 ^ 20"
definition maxArchiveEntries :: nat where "maxArchiveEntries = 20000"

definition oleMagic :: string where
  "oleMagic = [CHR 0xD0, CHR 0xCF, CHR 0x11, CHR 0xE0, CHR 0xA1, CHR 0xB1, CHR 0x1A, CHR 0xE1]"

definition openPackage :: "unzip \<Rightarrow> read_at \<Rightarrow> nat \<Rightarrow> extract_err + zip_entry list" where
  "openPackage unzip r fsize =
     (if fst (r 0 8) = oleMagic then Inl ErrEncrypted
      else case unzip r fsize of
             Inl e \<Rightarrow> Inl (ErrMsg (''not a valid Office file: '' @ e))
           | Inr es \<Rightarrow>
               (if maxArchiveEntries < length es
                then Inl (ErrMsg (''archive has '' @ format_nat (length es) @ '' entries (limit '' @ format_nat maxArchiveEntries @ '')''))
                else Inr es))"

definition findPart :: "zip_entry list \<Rightarrow> string \<Rightarrow> zip_entry option" where
  "findPart es nm = find (\<lambda>f. ze_name f = nm) es"

definition optionalParts :: "zip_entry list \<Rightarrow> string list \<Rightarrow> zip_entry list" where
  "optionalParts es nms = List.map_filter (findPart es) nms"

definition openPart :: "zip_entry \<Rightarrow> string + (string \<times> io_err)" where
  "openPart f = (case ze_data f of Inl e \<Rightarrow> Inl e | Inr p \<Rightarrow> Inr (part_stream maxPartBytes p))"

text \<open>\<open>^ppt/slides/slide(\d+)\.xml$\<close> and the like: the digits, if the name matches\<close>

definition part_digits :: "string \<Rightarrow> string \<Rightarrow> string option" where
  "part_digits pre nm =
     (let mid = take (length nm - length pre - 4) (drop (length pre) nm)
      in if prefix pre nm \<and> nm = pre @ mid @ ''.xml'' \<and> mid \<noteq> [] \<and> list_all is_dec mid then Some mid else None)"

definition part_number :: "string \<Rightarrow> int" where
  "part_number ds = (case ParseInt ds of Inr n \<Rightarrow> n | Inl ErrRange \<Rightarrow> max_int64 | Inl ErrSyntax \<Rightarrow> 0)"

definition numberedParts :: "zip_entry list \<Rightarrow> string \<Rightarrow> zip_entry list" where
  "numberedParts es pre =
     map snd (sort_key fst (List.map_filter (\<lambda>f. map_option (\<lambda>ds. (part_number ds, f)) (part_digits pre (ze_name f))) es))"

section \<open>XML tokens\<close>

datatype xtok = XStart string "(string \<times> string) list" | XEnd string | XChars string | XOther

text \<open>The tokens of a part, and the error after them (none at the end of the part)\<close>

type_synonym xml_dec = "string \<times> io_err \<Rightarrow> xtok list \<times> string option"

datatype parse_stop = PStop | PErr string

text \<open>\<open>Decoder.Skip\<close>: to the end of the element just opened\<close>

fun skip_el :: "nat \<Rightarrow> xtok list \<Rightarrow> xtok list option" where
  "skip_el n [] = None"
| "skip_el n (t # ts) =
     (case t of
        XStart _ _ \<Rightarrow> skip_el (Suc n) ts
      | XEnd _ \<Rightarrow> (if n = 0 then Some ts else skip_el (n - 1) ts)
      | _ \<Rightarrow> skip_el n ts)"

lemma skip_el_length: "skip_el n ts = Some rest \<Longrightarrow> length rest < length ts"
proof (induction n ts rule: skip_el.induct)
  case (2 n t ts)
  then show ?case by (fastforce split: xtok.splits if_splits)
qed simp

definition unexpected_end :: "string option \<Rightarrow> string" where
  "unexpected_end err = (case err of Some e \<Rightarrow> e | None \<Rightarrow> ''EOF'')"

section \<open>The token loop\<close>

type_synonym 's xstep = "xtok \<Rightarrow> 's \<Rightarrow> string list \<times> 's"

definition sink_writes :: "string list \<Rightarrow> sink \<Rightarrow> sink" where
  "sink_writes ws out = fold (\<lambda>w s. sink_write s w) ws out"

definition skips :: "string list \<Rightarrow> xtok \<Rightarrow> bool" where
  "skips names t = (case t of XStart n _ \<Rightarrow> n \<in> set names | _ \<Rightarrow> False)"

function xml_loop :: "string list \<Rightarrow> 's xstep \<Rightarrow> string option \<Rightarrow> xtok list \<Rightarrow> 's \<Rightarrow> sink \<Rightarrow> sink \<times> parse_stop option" where
  "xml_loop names step err [] s out = (out, map_option PErr err)"
| "xml_loop names step err (t # ts) s out =
     (if skips names t
      then case skip_el 0 ts of
             None \<Rightarrow> (out, Some (PErr (unexpected_end err)))
           | Some rest \<Rightarrow> (if sink_full out then (out, Some PStop) else xml_loop names step err rest s out)
      else case step t s of
             (ws, s') \<Rightarrow>
               (let out = sink_writes ws out
                in if sink_full out then (out, Some PStop) else xml_loop names step err ts s' out))"
  by pat_completeness auto
termination
  by (relation "measure (\<lambda>(names, step, err, ts, s, out). length ts)") (auto dest: skip_el_length)

text \<open>The text of a part when nothing is cut off, and whether it was read to its end\<close>

function xml_text :: "string list \<Rightarrow> 's xstep \<Rightarrow> string option \<Rightarrow> xtok list \<Rightarrow> 's \<Rightarrow> string list \<times> string option" where
  "xml_text names step err [] s = ([], err)"
| "xml_text names step err (t # ts) s =
     (if skips names t
      then case skip_el 0 ts of
             None \<Rightarrow> ([], Some (unexpected_end err))
           | Some rest \<Rightarrow> xml_text names step err rest s
      else case step t s of
             (ws, s') \<Rightarrow> (case xml_text names step err ts s' of (ws', e) \<Rightarrow> (ws @ ws', e)))"
  by pat_completeness auto
termination
  by (relation "measure (\<lambda>(names, step, err, ts, s). length ts)") (auto dest: skip_el_length)

section \<open>What the collector keeps\<close>

lemma sink_writes_Nil [simp]: "sink_writes [] out = out"
  by (simp add: sink_writes_def)

lemma sink_writes_append: "sink_writes (ws @ ws') out = sink_writes ws' (sink_writes ws out)"
  by (simp add: sink_writes_def)

lemma sink_writes_max [simp]: "sink_max (sink_writes ws out) = sink_max out"
  by (induction ws arbitrary: out) (simp_all add: sink_writes_def)

lemma sink_writes_full: "sink_full out \<Longrightarrow> sink_writes ws out = out"
  by (induction ws arbitrary: out) (simp_all add: sink_writes_def)

lemma sink_writes_Cons: "sink_writes (w # ws) out = sink_writes ws (sink_write out w)"
  by (simp add: sink_writes_def)

text \<open>A capped collector holds everything written, or the writes up to the cap.\<close>

definition holds_text :: "sink \<Rightarrow> string \<Rightarrow> bool" where
  "holds_text out full \<longleftrightarrow> prefix (sink_b out) full \<and> (sink_full out \<or> sink_b out = full)"

lemma holds_write: "holds_text out full \<Longrightarrow> holds_text (sink_write out w) (full @ w)"
  by (auto simp: holds_text_def sink_write_def sink_full_def prefix_def)

lemma holds_writes: "holds_text out full \<Longrightarrow> holds_text (sink_writes ws out) (full @ concat ws)"
proof (induction ws arbitrary: out full)
  case (Cons w ws)
  from Cons.IH [OF holds_write [OF Cons.prems, of w]] show ?case by (simp add: sink_writes_Cons)
qed simp

lemma holds_more: "holds_text out full \<Longrightarrow> sink_full out \<Longrightarrow> holds_text out (full @ x)"
  by (auto simp: holds_text_def prefix_def)

lemma xml_loop_max: "sink_max (fst (xml_loop names step err ts s out)) = sink_max out"
  by (induction names step err ts s out rule: xml_loop.induct) (auto simp: Let_def split: option.splits prod.splits)

text \<open>Stopping early changes nothing of what is kept: the loop keeps the text of the part up to the cap.\<close>

lemma xml_loop_text:
  assumes "holds_text out full"
  shows "holds_text (fst (xml_loop names step err ts s out)) (full @ concat (fst (xml_text names step err ts s))) \<and>
    (case snd (xml_loop names step err ts s out) of
       None \<Rightarrow> snd (xml_text names step err ts s) = None
     | Some PStop \<Rightarrow> sink_full (fst (xml_loop names step err ts s out))
     | Some (PErr e) \<Rightarrow> snd (xml_text names step err ts s) = Some e)"
  using assms
proof (induction names step err ts s out arbitrary: full rule: xml_loop.induct)
  case (2 names step err t ts s out)
  show ?case
  proof (cases "skips names t")
    case True
    note sk = True
    show ?thesis
    proof (cases "skip_el 0 ts")
      case (Some rest)
      show ?thesis
      proof (cases "sink_full out")
        case nf: False
        have eqs: "xml_loop names step err (t # ts) s out = xml_loop names step err rest s out"
            "xml_text names step err (t # ts) s = xml_text names step err rest s"
          using sk Some nf by simp_all
        show ?thesis unfolding eqs by (rule 2(1) [OF sk Some nf 2(3)])
      qed (use sk Some holds_more [OF 2(3)] in simp)
    qed (use sk 2(3) in simp)
  next
    case False
    obtain ws s' where st: "step t s = (ws, s')" by fastforce
    obtain ws' e where x: "xml_text names step err ts s' = (ws', e)" by fastforce
    have h: "holds_text (sink_writes ws out) (full @ concat ws)" using holds_writes 2(3) by blast
    show ?thesis
    proof (cases "sink_full (sink_writes ws out)")
      case full: True
      then show ?thesis using False st x holds_more [OF h full, of "concat ws'"] by simp
    next
      case nf: False
      have eqs: "xml_loop names step err (t # ts) s out = xml_loop names step err ts s' (sink_writes ws out)"
          "xml_text names step err (t # ts) s = (ws @ ws', e)"
        using False st x nf by (simp_all add: Let_def)
      show ?thesis unfolding eqs
        using 2(2) [OF False st [symmetric] refl nf h, unfolded x] by (simp only: fst_conv snd_conv concat_append append_assoc)
    qed
  qed
qed (auto split: option.splits)


section \<open>Valid text\<close>

text \<open>encoding/xml refuses character data that is not valid UTF-8.\<close>

definition tok_ok :: "xtok \<Rightarrow> bool" where
  "tok_ok t = (case t of XChars c \<Rightarrow> valid_utf8 c | XStart n as \<Rightarrow> list_all (valid_utf8 \<circ> snd) as | _ \<Rightarrow> True)"

definition step_ok :: "('s \<Rightarrow> bool) \<Rightarrow> 's xstep \<Rightarrow> bool" where
  "step_ok ok step \<longleftrightarrow> (\<forall>t s. tok_ok t \<longrightarrow> ok s \<longrightarrow> list_all valid_utf8 (fst (step t s)) \<and> ok (snd (step t s)))"

lemma sink_writes_valid:
  "list_all valid_utf8 ws \<Longrightarrow> valid_utf8 (sink_b out) \<Longrightarrow> valid_utf8 (sink_b (sink_writes ws out))"
  by (induction ws arbitrary: out) (simp_all add: sink_writes_Cons valid_sink_write)

lemma skip_el_ok: "skip_el n ts = Some rest \<Longrightarrow> list_all tok_ok ts \<Longrightarrow> list_all tok_ok rest"
proof (induction n ts rule: skip_el.induct)
  case (2 n t ts)
  then show ?case by (fastforce split: xtok.splits if_splits)
qed simp

lemma xml_loop_valid:
  assumes "step_ok ok step" "list_all tok_ok ts" "ok s" "valid_utf8 (sink_b out)"
  shows "valid_utf8 (sink_b (fst (xml_loop names step err ts s out)))"
  using assms
proof (induction names step err ts s out rule: xml_loop.induct)
  case (2 names step err t ts s out)
  show ?case
  proof (cases "skips names t")
    case sk: True
    show ?thesis
    proof (cases "skip_el 0 ts")
      case (Some rest)
      have "list_all tok_ok rest" using skip_el_ok [OF Some] 2(4) by simp
      then show ?thesis using 2(1) [OF sk Some _ 2(3) _ 2(5,6)] sk Some 2(6) by simp
    qed (use sk 2(6) in simp)
  next
    case False
    obtain ws s' where st: "step t s = (ws, s')" by fastforce
    have "list_all valid_utf8 ws" "ok s'" using 2(3,4,5) st unfolding step_ok_def by (metis fst_conv list.pred_inject(2) snd_conv)+
    moreover from this have "valid_utf8 (sink_b (sink_writes ws out))" using sink_writes_valid 2(6) by blast
    ultimately show ?thesis using 2(2) [OF False st [symmetric] refl _ 2(3)] False st 2(4) by (simp add: Let_def)
  qed
qed simp

lemma cut_to_valid_id: "valid_utf8 b \<Longrightarrow> cut_to_valid b = b"
  by (simp add: cut_to_valid.simps [of b])

lemma holds_valid_text:
  assumes "holds_text out full" "valid_utf8 (sink_b out)"
  shows "sink_text out = sink_text \<lparr>sink_b = full, sink_max = sink_max out\<rparr>"
proof (cases "sink_b out = full")
  case True
  then show ?thesis by (simp add: sink_text_def)
next
  case False
  then obtain x where x: "full = sink_b out @ x" "x \<noteq> []" and l: "sink_max out \<le> length (sink_b out)"
    using assms(1) by (auto simp: holds_text_def sink_full_def prefix_def)
  then have "take (sink_max out) full = take (sink_max out) (sink_b out)" "sink_max out < length full"
    by (simp_all add: Suc_leI le_imp_less_Suc) (metis add_strict_increasing le_add_same_cancel1 le_neq_implies_less length_greater_0_conv less_add_same_cancel1 order_le_less_trans)
  then show ?thesis using l assms(2) by (auto simp: sink_text_def cut_to_valid_id)
qed

section \<open>A sequence of parts\<close>

text \<open>
  Parts are read until the collector is full. A part that fails ends the reading; it is an error only
  when nothing has been collected. \<open>sep\<close> is written after a part that did not fail.
\<close>

fun parts_loop :: "(zip_entry \<Rightarrow> sink \<Rightarrow> sink \<times> parse_stop option) \<Rightarrow> string list \<Rightarrow> zip_entry list \<Rightarrow> sink \<Rightarrow> extract_err + sink" where
  "parts_loop parse sep [] out = Inr out"
| "parts_loop parse sep (f # fs) out =
     (if sink_full out then Inr out
      else case parse f out of
             (out, Some (PErr e)) \<Rightarrow> (if sink_b out = [] then Inl (ErrMsg (ze_name f @ '': '' @ e)) else Inr out)
           | (out, _) \<Rightarrow> parts_loop parse sep fs (sink_writes sep out))"

definition parse_part :: "xml_dec \<Rightarrow> string list \<Rightarrow> 's xstep \<Rightarrow> 's \<Rightarrow> zip_entry \<Rightarrow> sink \<Rightarrow> sink \<times> parse_stop option" where
  "parse_part dec names step s0 f out =
     (case openPart f of
        Inl e \<Rightarrow> (out, Some (PErr e))
      | Inr p \<Rightarrow> (case dec p of (toks, err) \<Rightarrow> xml_loop names step err toks s0 out))"

text \<open>The uncut text of the parts up to the first damaged one\<close>

definition part_text :: "xml_dec \<Rightarrow> string list \<Rightarrow> 's xstep \<Rightarrow> 's \<Rightarrow> zip_entry \<Rightarrow> string \<times> string option" where
  "part_text dec names step s0 f =
     (case openPart f of
        Inl e \<Rightarrow> ([], Some e)
      | Inr p \<Rightarrow> (case dec p of (toks, err) \<Rightarrow> (case xml_text names step err toks s0 of (ws, e) \<Rightarrow> (concat ws, e))))"

fun parts_text :: "(zip_entry \<Rightarrow> string \<times> string option) \<Rightarrow> string list \<Rightarrow> zip_entry list \<Rightarrow> string" where
  "parts_text pt sep [] = []"
| "parts_text pt sep (f # fs) =
     (case pt f of
        (w, Some e) \<Rightarrow> w
      | (w, None) \<Rightarrow> w @ concat sep @ parts_text pt sep fs)"

definition dec_ok :: "xml_dec \<Rightarrow> bool" where
  "dec_ok dec \<longleftrightarrow> (\<forall>p. list_all tok_ok (fst (dec p)))"

lemma parse_part_text:
  assumes "holds_text out full"
  shows "holds_text (fst (parse_part dec names step s0 f out)) (full @ fst (part_text dec names step s0 f)) \<and>
    (case snd (parse_part dec names step s0 f out) of
       None \<Rightarrow> snd (part_text dec names step s0 f) = None
     | Some PStop \<Rightarrow> sink_full (fst (parse_part dec names step s0 f out))
     | Some (PErr e) \<Rightarrow> snd (part_text dec names step s0 f) = Some e) \<and>
    sink_max (fst (parse_part dec names step s0 f out)) = sink_max out"
proof (cases "openPart f")
  case (Inr p)
  obtain toks err where d: "dec p = (toks, err)" by fastforce
  obtain ws e where x: "xml_text names step err toks s0 = (ws, e)" by fastforce
  have eqs: "parse_part dec names step s0 f out = xml_loop names step err toks s0 out"
      "part_text dec names step s0 f = (concat ws, e)"
    using Inr d x by (simp_all add: parse_part_def part_text_def)
  show ?thesis unfolding eqs
    using xml_loop_text [OF assms, of names step err toks s0, unfolded x] xml_loop_max [of names step err toks s0 out]
    by (simp only: fst_conv snd_conv simp_thms)
qed (simp add: parse_part_def part_text_def assms)

lemma parse_part_valid:
  assumes "step_ok ok step" "dec_ok dec" "ok s0" "valid_utf8 (sink_b out)"
  shows "valid_utf8 (sink_b (fst (parse_part dec names step s0 f out)))"
proof (cases "openPart f")
  case (Inr p)
  obtain toks err where d: "dec p = (toks, err)" by fastforce
  have "list_all tok_ok toks" using assms(2) d unfolding dec_ok_def by (metis fst_conv)
  from xml_loop_valid [OF assms(1) this assms(3,4)] show ?thesis by (simp add: parse_part_def Inr d)
qed (simp add: parse_part_def assms)

lemma parts_loop_text:
  assumes "step_ok ok step" "dec_ok dec" "ok s0" "list_all valid_utf8 sep"
    and "holds_text out full" "valid_utf8 (sink_b out)"
    and "parts_loop (parse_part dec names step s0) sep fs out = Inr out'"
  shows "holds_text out' (full @ parts_text (part_text dec names step s0) sep fs) \<and> valid_utf8 (sink_b out') \<and>
    sink_max out' = sink_max out"
  using assms(5-)
proof (induction fs arbitrary: out full)
  case (Cons f fs)
  let ?pt = "part_text dec names step s0"
  obtain w e where pt: "?pt f = (w, e)" by fastforce
  show ?case
  proof (cases "sink_full out")
    case True
    then show ?thesis using Cons.prems holds_more [OF Cons.prems(1) True] by simp
  next
    case nf: False
    obtain o1 st where p: "parse_part dec names step s0 f out = (o1, st)" by fastforce
    note t = parse_part_text [OF Cons.prems(1), of dec names step s0 f, unfolded p pt fst_conv snd_conv]
    have v: "valid_utf8 (sink_b o1)" using parse_part_valid [OF assms(1-3) Cons.prems(2), of names f] p by simp
    show ?thesis
    proof (cases "\<exists>m. st = Some (PErr m)")
      case True
      then obtain m where "st = Some (PErr m)" by blast
      then have "out' = o1" "e = Some m" using Cons.prems(3) nf p t by (simp_all split: if_splits)
      then show ?thesis using t v pt by simp
    next
      case False
      then have run: "parts_loop (parse_part dec names step s0) sep fs (sink_writes sep o1) = Inr out'"
        using Cons.prems(3) nf p by (cases st) (auto split: parse_stop.splits)
      have v': "valid_utf8 (sink_b (sink_writes sep o1))" by (rule sink_writes_valid [OF assms(4) v])
      have h: "holds_text (sink_writes sep o1) (full @ w @ concat sep)" using holds_writes t by fastforce
      from Cons.IH [OF h v' run] have ih: "holds_text out' ((full @ w @ concat sep) @ parts_text ?pt sep fs)"
          "valid_utf8 (sink_b out')" "sink_max out' = sink_max out"
        using t by auto
      show ?thesis
      proof (cases e)
        case None
        then show ?thesis using ih pt by simp
      next
        case (Some m)
        then have full: "sink_full o1" using t False by (cases st) (auto split: parse_stop.splits)
        then have "sink_full (sink_writes sep o1)" by (simp add: sink_writes_full)
        then have "out' = o1" using run full by (cases fs) (simp_all add: sink_writes_full)
        then show ?thesis using t v pt Some by simp
      qed
    qed
  qed
qed simp

end
