(* ===== verification/WordSlides.thy ===== *)
theory WordSlides
  imports Ooxml
begin

text \<open>
  Word and PowerPoint text (internal/extract/docx.go, pptx.go): the token steps, the parts that are
  read and their order. Character data counts inside \<open>t\<close> elements; the repeated content of \<open>Fallback\<close>
  elements is skipped.
\<close>

definition tab_char :: string where "tab_char = [CHR 0x09]"
definition nl :: string where "nl = [CHR 0x0A]"

section \<open>Word\<close>

definition word_step :: "bool xstep" where
  "word_step t inText =
     (case t of
        XStart n _ \<Rightarrow>
          (if n = ''t'' then ([], True)
           else if n = ''tab'' then ([tab_char], inText)
           else if n = ''br'' \<or> n = ''cr'' then ([nl], inText)
           else ([], inText))
      | XEnd n \<Rightarrow> (if n = ''t'' then ([], False) else if n = ''p'' then ([nl @ nl], inText) else ([], inText))
      | XChars c \<Rightarrow> (if inText then [c] else [], inText)
      | XOther \<Rightarrow> ([], inText))"

definition fallback :: "string list" where "fallback = [''Fallback'']"

definition parseWordXML :: "xml_dec \<Rightarrow> zip_entry \<Rightarrow> sink \<Rightarrow> sink \<times> parse_stop option" where
  "parseWordXML dec f out = parse_part dec fallback word_step False f out"

definition word_parts :: "zip_entry list \<Rightarrow> zip_entry \<Rightarrow> zip_entry list" where
  "word_parts es main = main # optionalParts es [''word/footnotes.xml'', ''word/endnotes.xml'', ''word/comments.xml'']"

definition extractDocx :: "unzip \<Rightarrow> xml_dec \<Rightarrow> read_at \<Rightarrow> nat \<Rightarrow> nat \<Rightarrow> extract_err + string" where
  "extractDocx unzip dec r fsize maxText =
     (case openPackage unzip r fsize of
        Inl e \<Rightarrow> Inl e
      | Inr es \<Rightarrow>
          (case findPart es ''word/document.xml'' of
             None \<Rightarrow> Inl (ErrMsg ''not a Word document: word/document.xml is missing'')
           | Some main \<Rightarrow>
               (case parts_loop (parseWordXML dec) [] (word_parts es main) (sink_new maxText) of
                  Inl e \<Rightarrow> Inl e
                | Inr out \<Rightarrow> Inr (sink_text out))))"

section \<open>PowerPoint\<close>

definition slide_step :: "bool xstep" where
  "slide_step t inText =
     (case t of
        XStart n _ \<Rightarrow>
          (if n = ''t'' then ([], True) else if n = ''br'' then ([nl], inText) else ([], inText))
      | XEnd n \<Rightarrow> (if n = ''t'' then ([], False) else if n = ''p'' then ([nl], inText) else ([], inText))
      | XChars c \<Rightarrow> (if inText then [c] else [], inText)
      | XOther \<Rightarrow> ([], inText))"

definition parseSlideXML :: "xml_dec \<Rightarrow> zip_entry \<Rightarrow> sink \<Rightarrow> sink \<times> parse_stop option" where
  "parseSlideXML dec f out = parse_part dec fallback slide_step False f out"

definition slide_prefix :: string where "slide_prefix = ''ppt/slides/slide''"
definition notes_prefix :: string where "notes_prefix = ''ppt/notesSlides/notesSlide''"

definition extractPptx :: "unzip \<Rightarrow> xml_dec \<Rightarrow> read_at \<Rightarrow> nat \<Rightarrow> nat \<Rightarrow> extract_err + string" where
  "extractPptx unzip dec r fsize maxText =
     (case openPackage unzip r fsize of
        Inl e \<Rightarrow> Inl e
      | Inr es \<Rightarrow>
          (let slides = numberedParts es slide_prefix
           in if slides = [] then Inl (ErrMsg ''not a PowerPoint file: it has no slides'')
              else case parts_loop (parseSlideXML dec) [nl] (slides @ numberedParts es notes_prefix) (sink_new maxText) of
                     Inl e \<Rightarrow> Inl e
                   | Inr out \<Rightarrow> Inr (sink_text out)))"

section \<open>Both keep the text up to the cap\<close>

lemma nl_valid: "valid_utf8 nl" "valid_utf8 (nl @ nl)" "valid_utf8 tab_char"
  by (simp_all add: nl_def tab_char_def ascii_valid)

lemma word_step_ok: "step_ok (\<lambda>_. True) word_step"
  by (auto simp: step_ok_def word_step_def tok_ok_def nl_valid split: xtok.splits)

lemma slide_step_ok: "step_ok (\<lambda>_. True) slide_step"
  by (auto simp: step_ok_def slide_step_def tok_ok_def nl_valid split: xtok.splits)

lemma holds_new: "holds_text (sink_new m) []" "valid_utf8 (sink_b (sink_new m))" "sink_max (sink_new m) = m"
  by (simp_all add: holds_text_def sink_new_def)

text \<open>The cap as a cut of the whole text\<close>

definition capped :: "nat \<Rightarrow> string \<Rightarrow> string" where
  "capped m full = sink_text \<lparr>sink_b = full, sink_max = m\<rparr>"

lemma capped_parts:
  assumes "step_ok (\<lambda>_. True) step" "dec_ok dec" "list_all valid_utf8 sep"
    and "parts_loop (parse_part dec names step s0) sep fs (sink_new m) = Inr out"
  shows "sink_text out = capped m (parts_text (part_text dec names step s0) sep fs) \<and>
    length (capped m (parts_text (part_text dec names step s0) sep fs)) \<le> m \<and>
    clean_text (capped m (parts_text (part_text dec names step s0) sep fs))"
proof -
  have "sink_text out = capped m (parts_text (part_text dec names step s0) sep fs)" "length (sink_text out) \<le> m"
    using parts_loop_text [OF assms(1,2) TrueI assms(3) holds_new(1,2) assms(4)] holds_valid_text [of out] length_sink_text [of out]
    by (simp_all add: holds_new capped_def)
  then show ?thesis by (simp add: capped_def sink_text_clean)
qed

definition docx_text :: "xml_dec \<Rightarrow> zip_entry list \<Rightarrow> zip_entry \<Rightarrow> string" where
  "docx_text dec es main = parts_text (part_text dec fallback word_step False) [] (word_parts es main)"

definition pptx_text :: "xml_dec \<Rightarrow> zip_entry list \<Rightarrow> string" where
  "pptx_text dec es =
     parts_text (part_text dec fallback slide_step False) [nl] (numberedParts es slide_prefix @ numberedParts es notes_prefix)"

lemma docx_capped:
  assumes "dec_ok dec"
  shows "case extractDocx unzip dec r fsize m of
      Inl e \<Rightarrow> True
    | Inr t \<Rightarrow> length t \<le> m \<and> clean_text t \<and>
        (\<exists>es main. openPackage unzip r fsize = Inr es \<and> findPart es ''word/document.xml'' = Some main \<and>
           t = capped m (docx_text dec es main))"
proof -
  have w: "parseWordXML dec = parse_part dec fallback word_step False" by (simp add: fun_eq_iff parseWordXML_def)
  show ?thesis
    using capped_parts [OF word_step_ok assms, of "[]" fallback False]
    by (auto simp: extractDocx_def w docx_text_def split: sum.splits option.splits)
qed

lemma pptx_capped:
  assumes "dec_ok dec"
  shows "case extractPptx unzip dec r fsize m of
      Inl e \<Rightarrow> True
    | Inr t \<Rightarrow> length t \<le> m \<and> clean_text t \<and>
        (\<exists>es. openPackage unzip r fsize = Inr es \<and> t = capped m (pptx_text dec es))"
proof -
  have s: "parseSlideXML dec = parse_part dec fallback slide_step False" by (simp add: fun_eq_iff parseSlideXML_def)
  show ?thesis
    using capped_parts [OF slide_step_ok assms, of "[nl]" fallback False]
    by (auto simp: extractPptx_def Let_def s pptx_text_def nl_valid split: sum.splits)
qed

section \<open>What the text of a document is\<close>

text \<open>Runs and paragraphs as a writer lays them out\<close>

definition run_toks :: "string \<Rightarrow> xtok list" where
  "run_toks r = [XStart ''r'' [], XStart ''t'' [], XChars r, XEnd ''t'', XEnd ''r'']"

definition para_toks :: "string list \<Rightarrow> xtok list" where
  "para_toks rs = XStart ''p'' [] # concat (map run_toks rs) @ [XEnd ''p'']"

lemma run_text:
  "xml_text fallback word_step err (run_toks r @ rest) False =
     (case xml_text fallback word_step err rest False of (ws, e) \<Rightarrow> (r # ws, e))"
  by (simp add: run_toks_def skips_def fallback_def word_step_def split: prod.split)

lemma runs_text:
  "xml_text fallback word_step err (concat (map run_toks rs) @ rest) False =
     (case xml_text fallback word_step err rest False of (ws, e) \<Rightarrow> (rs @ ws, e))"
  by (induction rs) (simp_all add: run_text split: prod.split)

lemma para_text:
  "xml_text fallback word_step err (para_toks rs @ rest) False =
     (case xml_text fallback word_step err rest False of (ws, e) \<Rightarrow> (rs @ (nl @ nl) # ws, e))"
proof -
  have f: "\<not> skips fallback (XStart ''p'' [])" "\<not> skips fallback (XEnd ''p'')" by (simp_all add: skips_def fallback_def)
  show ?thesis by (simp add: para_toks_def f runs_text) (simp add: word_step_def f runs_text split: prod.split)
qed

text \<open>The text of a Word document is its paragraphs, each followed by a blank line.\<close>

lemma paragraphs_text:
  "xml_text fallback word_step err (concat (map para_toks ps)) False =
     (concat (map (\<lambda>rs. rs @ [nl @ nl]) ps), err)"
proof (induction ps)
  case (Cons rs ps)
  then show ?case using para_text [of err rs "concat (map para_toks ps)"] by simp
qed simp

text \<open>What stands in a balanced \<open>Fallback\<close> element does not show.\<close>

fun balanced :: "nat \<Rightarrow> xtok list \<Rightarrow> bool" where
  "balanced n [] \<longleftrightarrow> n = 0"
| "balanced n (t # ts) \<longleftrightarrow>
     (case t of
        XStart _ _ \<Rightarrow> balanced (Suc n) ts
      | XEnd _ \<Rightarrow> n \<noteq> 0 \<and> balanced (n - 1) ts
      | _ \<Rightarrow> balanced n ts)"

lemma skip_balanced: "balanced n ts \<Longrightarrow> skip_el n (ts @ XEnd m # rest) = Some rest"
  by (induction n ts rule: balanced.induct) (auto split: xtok.splits)

lemma fallback_skipped:
  "balanced 0 ts \<Longrightarrow> xml_text fallback word_step err (XStart ''Fallback'' as # ts @ XEnd m # rest) s =
     xml_text fallback word_step err rest s"
  by (simp add: skips_def fallback_def skip_balanced)

definition example_dec :: xml_dec where
  "example_dec = (\<lambda>(s, e).
     if s = ''doc'' then (concat (map para_toks [[''Dear '', ''all,''], [''see below'']]) @
         [XStart ''Fallback'' [], XStart ''t'' [], XChars ''twice'', XEnd ''t'', XEnd ''Fallback''], None)
     else if s = ''notes'' then (para_toks [''a note''], None)
     else ([], Some ''syntax error''))"

definition example_zip :: unzip where
  "example_zip r n = Inr [\<lparr>ze_name = ''word/footnotes.xml'', ze_data = Inr (''notes'', EOF)\<rparr>,
     \<lparr>ze_name = ''word/document.xml'', ze_data = Inr (''doc'', EOF)\<rparr>,
     \<lparr>ze_name = ''word/comments.xml'', ze_data = Inr (''bad'', EOF)\<rparr>]"

lemma example_docx:
  "extractDocx example_zip example_dec (file_read_at ''PK'') 2 100 = Inr (''Dear all,'' @ nl @ nl @ ''see below'' @ nl @ nl @ ''a note'' @ nl @ nl) \<and>
   extractDocx example_zip example_dec (file_read_at ''PK'') 2 12 = Inr (''Dear all,'' @ nl @ nl @ ''s'')"
  by code_simp

text \<open>Slides are read in the order of their numbers.\<close>

lemma numberedParts_sorted:
  "sorted (map part_number (map (\<lambda>f. the (part_digits pre (ze_name f))) (numberedParts es pre))) \<and>
   set (numberedParts es pre) = {f \<in> set es. part_digits pre (ze_name f) \<noteq> None}"
proof -
  let ?ps = "List.map_filter (\<lambda>f. map_option (\<lambda>ds. (part_number ds, f)) (part_digits pre (ze_name f))) es"
  have p: "fst x = part_number (the (part_digits pre (ze_name (snd x))))" if "x \<in> set (sort_key fst ?ps)" for x
    using that by (auto simp: List.map_filter_def)
  have "map part_number (map (\<lambda>f. the (part_digits pre (ze_name f))) (numberedParts es pre)) = map fst (sort_key fst ?ps)"
    using p by (simp add: numberedParts_def)
  moreover have "sorted (map fst (sort_key fst ?ps))" by (rule sorted_sort_key)
  moreover have "set (numberedParts es pre) = {f \<in> set es. part_digits pre (ze_name f) \<noteq> None}"
    by (force simp: numberedParts_def List.map_filter_def)
  ultimately show ?thesis by simp
qed

lemma slide_10_after_2:
  "map ze_name (numberedParts (map (\<lambda>n. \<lparr>ze_name = n, ze_data = Inr ([], EOF)\<rparr>)
      [''ppt/slides/slide10.xml'', ''ppt/slides/slide2.xml'', ''ppt/slides/_rels/slide1.xml.rels'', ''ppt/slides/slide1.xml'']) slide_prefix) =
    [''ppt/slides/slide1.xml'', ''ppt/slides/slide2.xml'', ''ppt/slides/slide10.xml'']"
  by code_simp

end
