(* ===== verification/Pdf.thy ===== *)
theory Pdf
  imports WordSlides
begin

text \<open>
  PDF text (internal/extract/pdf.go). First the shared engine: one lazily made pool, a count of its users
  and an idle timer, all behind one mutex, so that every critical section is one event. A timer that has
  fired but whose function still waits for the mutex is a state of its own: \<open>Stop\<close> comes too late for it.
  Each user holds an instance, which is closed, or killed by the end of its context, but never both.
  Then the pages: PDFium itself is a parameter, the document it makes of a file.
\<close>

section \<open>The shared engine\<close>

datatype timer_state = Armed | Stopped | Fired | Ran

record pdf_engine =
  pe_pool :: "nat option"
  pe_inUse :: int
  pe_timer :: "nat option"

datatype kill_state = NoKill | KillRunning | KillDone
datatype use_phase = Working | Waiting | Settled | Released

record pdf_use =
  us_pool :: nat
  us_kill :: kill_state
  us_phase :: use_phase
  us_kills :: nat
  us_closes :: nat

text \<open>The engine with what surrounds it: timers by number, the pools made and closed so far, the users\<close>

record pdf_world =
  pw_e :: pdf_engine
  pw_timers :: "timer_state list"
  pw_pools :: nat
  pw_closed :: "nat list"
  pw_uses :: "pdf_use list"

definition pdf_start :: pdf_world where
  "pdf_start = \<lparr>pw_e = \<lparr>pe_pool = None, pe_inUse = 0, pe_timer = None\<rparr>, pw_timers = [], pw_pools = 0,
     pw_closed = [], pw_uses = []\<rparr>"

definition stop_timer :: "pdf_world \<Rightarrow> pdf_world" where
  "stop_timer w =
     (case pe_timer (pw_e w) of
        None \<Rightarrow> w
      | Some t \<Rightarrow>
          w\<lparr>pw_e := (pw_e w)\<lparr>pe_timer := None\<rparr>,
            pw_timers := (if pw_timers w ! t = Armed then (pw_timers w)[t := Stopped] else pw_timers w)\<rparr>)"

definition scheduleIdleClose :: "pdf_world \<Rightarrow> pdf_world" where
  "scheduleIdleClose w =
     (let e = pw_e w
      in if pe_inUse e = 0 \<and> pe_pool e \<noteq> None \<and> pe_timer e = None
         then w\<lparr>pw_e := e\<lparr>pe_timer := Some (length (pw_timers w))\<rparr>, pw_timers := pw_timers w @ [Armed]\<rparr>
         else w)"

definition init_pool :: "string option \<Rightarrow> pdf_world \<Rightarrow> string + nat \<times> pdf_world" where
  "init_pool initErr w =
     (case pe_pool (pw_e w) of
        Some p \<Rightarrow> Inr (p, w)
      | None \<Rightarrow>
          (case initErr of
             Some m \<Rightarrow> Inl (''start the PDF engine: '' @ m)
           | None \<Rightarrow> Inr (pw_pools w, w\<lparr>pw_e := (pw_e w)\<lparr>pe_pool := Some (pw_pools w)\<rparr>, pw_pools := Suc (pw_pools w)\<rparr>)))"

definition acquirePDF :: "string option \<Rightarrow> string option \<Rightarrow> pdf_world \<Rightarrow> string option \<times> pdf_world" where
  "acquirePDF initErr instErr w =
     (let w = stop_timer w
      in case init_pool initErr w of
           Inl m \<Rightarrow> (Some m, w)
         | Inr (p, w) \<Rightarrow>
             (case instErr of
                Some m \<Rightarrow> (Some (''get a PDF engine instance: '' @ m), scheduleIdleClose w)
              | None \<Rightarrow>
                  (None, w\<lparr>pw_e := (pw_e w)\<lparr>pe_inUse := pe_inUse (pw_e w) + 1\<rparr>,
                     pw_uses := pw_uses w @ [\<lparr>us_pool = p, us_kill = NoKill, us_phase = Working, us_kills = 0, us_closes = 0\<rparr>]\<rparr>)))"

definition releasePDF :: "pdf_world \<Rightarrow> pdf_world" where
  "releasePDF w = scheduleIdleClose (w\<lparr>pw_e := (pw_e w)\<lparr>pe_inUse := pe_inUse (pw_e w) - 1\<rparr>\<rparr>)"

definition closeIdlePDF :: "pdf_world \<Rightarrow> pdf_world" where
  "closeIdlePDF w =
     (let e = pw_e w;
          w = (case pe_pool e of
                 Some p \<Rightarrow> if pe_inUse e = 0 then w\<lparr>pw_e := e\<lparr>pe_pool := None\<rparr>, pw_closed := p # pw_closed w\<rparr> else w
               | None \<Rightarrow> w)
      in w\<lparr>pw_e := (pw_e w)\<lparr>pe_timer := None\<rparr>\<rparr>)"

section \<open>What happens to the engine\<close>

text \<open>
  \<open>CtxEnd\<close> is the end of a user's context, which starts \<open>Kill\<close> unless \<open>stop\<close> was called; \<open>Return\<close> is the
  deferred function that chooses between \<open>Close\<close> and waiting for \<open>Kill\<close>; \<open>RunIdle\<close> is the function of a
  fired timer getting the mutex.
\<close>

datatype pdf_event =
    Acquire "string option" "string option"
  | CtxEnd nat
  | KillEnds nat
  | Return nat
  | KillSeen nat
  | Release nat
  | Fire nat
  | RunIdle nat

definition end_ctx :: "pdf_use \<Rightarrow> pdf_use" where
  "end_ctx u = (if us_phase u = Working \<and> us_kill u = NoKill
     then u\<lparr>us_kill := KillRunning, us_kills := Suc (us_kills u)\<rparr> else u)"

definition end_kill :: "pdf_use \<Rightarrow> pdf_use" where
  "end_kill u = (if us_kill u = KillRunning then u\<lparr>us_kill := KillDone\<rparr> else u)"

definition use_returns :: "pdf_use \<Rightarrow> pdf_use" where
  "use_returns u =
     (if us_phase u \<noteq> Working then u
      else if us_kill u = NoKill then u\<lparr>us_closes := Suc (us_closes u), us_phase := Settled\<rparr>
      else u\<lparr>us_phase := Waiting\<rparr>)"

definition see_kill :: "pdf_use \<Rightarrow> pdf_use" where
  "see_kill u = (if us_phase u = Waiting \<and> us_kill u = KillDone then u\<lparr>us_phase := Settled\<rparr> else u)"

definition on_use :: "(pdf_use \<Rightarrow> pdf_use) \<Rightarrow> nat \<Rightarrow> pdf_world \<Rightarrow> pdf_world" where
  "on_use f i w = (if i < length (pw_uses w) then w\<lparr>pw_uses := (pw_uses w)[i := f (pw_uses w ! i)]\<rparr> else w)"

fun pdf_step :: "pdf_event \<Rightarrow> pdf_world \<Rightarrow> pdf_world" where
  "pdf_step (Acquire ie ge) w = snd (acquirePDF ie ge w)"
| "pdf_step (CtxEnd i) w = on_use end_ctx i w"
| "pdf_step (KillEnds i) w = on_use end_kill i w"
| "pdf_step (Return i) w = on_use use_returns i w"
| "pdf_step (KillSeen i) w = on_use see_kill i w"
| "pdf_step (Release i) w =
     (if i < length (pw_uses w) \<and> us_phase (pw_uses w ! i) = Settled
      then releasePDF (on_use (\<lambda>u. u\<lparr>us_phase := Released\<rparr>) i w) else w)"
| "pdf_step (Fire t) w =
     (if t < length (pw_timers w) \<and> pw_timers w ! t = Armed then w\<lparr>pw_timers := (pw_timers w)[t := Fired]\<rparr> else w)"
| "pdf_step (RunIdle t) w =
     (if t < length (pw_timers w) \<and> pw_timers w ! t = Fired
      then closeIdlePDF (w\<lparr>pw_timers := (pw_timers w)[t := Ran]\<rparr>) else w)"

definition pdf_run :: "pdf_event list \<Rightarrow> pdf_world" where
  "pdf_run evs = fold pdf_step evs pdf_start"

section \<open>The invariant\<close>

definition users :: "pdf_world \<Rightarrow> nat" where
  "users w = length (filter (\<lambda>u. us_phase u \<noteq> Released) (pw_uses w))"

definition use_ok :: "pdf_use \<Rightarrow> bool" where
  "use_ok u \<longleftrightarrow>
     (case us_phase u of
        Working \<Rightarrow> us_closes u = 0 \<and> us_kills u = (if us_kill u = NoKill then 0 else 1)
      | Waiting \<Rightarrow> us_closes u = 0 \<and> us_kills u = 1 \<and> us_kill u \<noteq> NoKill
      | _ \<Rightarrow> us_kill u \<noteq> KillRunning \<and> us_closes u = (if us_kill u = NoKill then 1 else 0) \<and>
             us_kills u = (if us_kill u = NoKill then 0 else 1))"

definition pool_ok :: "pdf_world \<Rightarrow> bool" where
  "pool_ok w \<longleftrightarrow>
     list_all (\<lambda>p. p < pw_pools w) (pw_closed w) \<and> distinct (pw_closed w) \<and>
     (case pe_pool (pw_e w) of None \<Rightarrow> users w = 0 | Some p \<Rightarrow> p < pw_pools w \<and> p \<notin> set (pw_closed w)) \<and>
     list_all (\<lambda>u. us_phase u = Released \<or> pe_pool (pw_e w) = Some (us_pool u)) (pw_uses w)"

definition timer_live :: "pdf_world \<Rightarrow> nat \<Rightarrow> bool" where
  "timer_live w t \<longleftrightarrow> t < length (pw_timers w) \<and> (pw_timers w ! t = Armed \<or> pw_timers w ! t = Fired)"

definition timer_ok :: "pdf_world \<Rightarrow> bool" where
  "timer_ok w \<longleftrightarrow>
     (case pe_timer (pw_e w) of
        None \<Rightarrow> users w \<noteq> 0 \<or> pe_pool (pw_e w) = None
      | Some t \<Rightarrow> users w = 0 \<and> timer_live w t)"

definition pdf_inv :: "pdf_world \<Rightarrow> bool" where
  "pdf_inv w \<longleftrightarrow> pe_inUse (pw_e w) = int (users w) \<and> list_all use_ok (pw_uses w) \<and> pool_ok w \<and> timer_ok w"

lemmas pdf_defs = pdf_inv_def pool_ok_def timer_ok_def timer_live_def users_def

lemma filter_same_update:
  "i < length xs \<Longrightarrow> P (xs ! i) = P y \<Longrightarrow> length (filter P (xs[i := y])) = length (filter P xs)"
  by (induction xs arbitrary: i) (auto simp: nth_Cons split: nat.splits)

lemma filter_less_update:
  "i < length xs \<Longrightarrow> P (xs ! i) \<Longrightarrow> \<not> P y \<Longrightarrow> Suc (length (filter P (xs[i := y]))) = length (filter P xs)"
  by (induction xs arbitrary: i) (auto simp: nth_Cons split: nat.splits)

lemma pdf_inv_start: "pdf_inv pdf_start"
  by (simp add: pdf_defs pdf_start_def)

text \<open>Steps of one user keep its pool, and are not its release\<close>

lemma on_use_inv:
  assumes "pdf_inv w" "\<And>u. use_ok u \<Longrightarrow> use_ok (f u) \<and> us_pool (f u) = us_pool u \<and>
      (us_phase (f u) = Released) = (us_phase u = Released)"
  shows "pdf_inv (on_use f i w)"
proof (cases "i < length (pw_uses w)")
  case True
  let ?u = "pw_uses w ! i"
  have u: "use_ok ?u" "us_phase ?u = Released \<or> pe_pool (pw_e w) = Some (us_pool ?u)"
    using assms(1) True by (auto simp: pdf_defs list_all_length)
  have n: "users (on_use f i w) = users w"
    using True assms(2) [OF u(1)] by (simp add: users_def on_use_def filter_same_update)
  have "list_all (\<lambda>u. us_phase u = Released \<or> pe_pool (pw_e w) = Some (us_pool u)) ((pw_uses w)[i := f ?u])"
    using assms(1) True assms(2) [OF u(1)] u(2) by (intro list_all_update) (auto simp: pdf_inv_def pool_ok_def)
  moreover have "list_all use_ok ((pw_uses w)[i := f ?u])"
    using assms(1) True assms(2) [OF u(1)] by (intro list_all_update) (auto simp: pdf_inv_def)
  ultimately show ?thesis using assms(1) n True
    by (auto simp: pdf_inv_def pool_ok_def timer_ok_def timer_live_def on_use_def split: option.splits)
qed (use assms(1) in \<open>simp add: on_use_def\<close>)

lemma use_steps_ok:
  "use_ok u \<Longrightarrow> use_ok (end_ctx u) \<and> us_pool (end_ctx u) = us_pool u \<and> (us_phase (end_ctx u) = Released) = (us_phase u = Released)"
  "use_ok u \<Longrightarrow> use_ok (end_kill u) \<and> us_pool (end_kill u) = us_pool u \<and> (us_phase (end_kill u) = Released) = (us_phase u = Released)"
  "use_ok u \<Longrightarrow> use_ok (use_returns u) \<and> us_pool (use_returns u) = us_pool u \<and> (us_phase (use_returns u) = Released) = (us_phase u = Released)"
  "use_ok u \<Longrightarrow> use_ok (see_kill u) \<and> us_pool (see_kill u) = us_pool u \<and> (us_phase (see_kill u) = Released) = (us_phase u = Released)"
  by (auto simp: use_ok_def end_ctx_def end_kill_def use_returns_def see_kill_def split: use_phase.splits if_splits)

lemma use_inv:
  assumes "pdf_inv w"
  shows "pdf_inv (on_use end_ctx i w)" "pdf_inv (on_use end_kill i w)" "pdf_inv (on_use use_returns i w)"
    "pdf_inv (on_use see_kill i w)"
  by (rule on_use_inv [OF assms use_steps_ok(1)], assumption)
    (rule on_use_inv [OF assms use_steps_ok(2)], assumption,
     rule on_use_inv [OF assms use_steps_ok(3)], assumption, rule on_use_inv [OF assms use_steps_ok(4)], assumption)

text \<open>With the timer stopped, everything but the timer clause holds; scheduling restores it.\<close>

definition pdf_inv0 :: "pdf_world \<Rightarrow> bool" where
  "pdf_inv0 w \<longleftrightarrow> pe_inUse (pw_e w) = int (users w) \<and> list_all use_ok (pw_uses w) \<and> pool_ok w \<and> pe_timer (pw_e w) = None"

lemma stop_timer_inv: "pdf_inv w \<Longrightarrow> pdf_inv0 (stop_timer w)"
  by (auto simp: pdf_inv_def pdf_inv0_def stop_timer_def pool_ok_def users_def split: option.splits)

lemma schedule_inv: "pdf_inv0 w \<Longrightarrow> pdf_inv (scheduleIdleClose w)"
  by (auto simp: pdf_inv_def pdf_inv0_def scheduleIdleClose_def Let_def pool_ok_def timer_ok_def timer_live_def users_def
      split: option.splits)

lemma pool_users_0: "pdf_inv0 w \<Longrightarrow> pe_pool (pw_e w) = None \<Longrightarrow> users w = 0"
  by (simp add: pdf_inv0_def pool_ok_def)

lemma init_pool_inv: "pdf_inv0 w \<Longrightarrow> init_pool ie w = Inr (p, w') \<Longrightarrow> pdf_inv0 w' \<and> pe_pool (pw_e w') = Some p"
  using pool_users_0 [of w]
  by (auto simp: init_pool_def pdf_inv0_def pool_ok_def users_def list_all_iff less_Suc_eq filter_empty_conv split: option.splits)

lemma acquire_inv: "pdf_inv w \<Longrightarrow> pdf_inv (snd (acquirePDF ie ge w))"
proof -
  assume "pdf_inv w"
  then have w0: "pdf_inv0 (stop_timer w)" by (rule stop_timer_inv)
  show ?thesis
  proof (cases "init_pool ie (stop_timer w)")
    case (Inl m)
    then have "pe_pool (pw_e (stop_timer w)) = None" by (auto simp: init_pool_def split: option.splits)
    then show ?thesis using w0 Inl by (auto simp: acquirePDF_def Let_def pdf_inv0_def pdf_inv_def timer_ok_def)
  next
    case (Inr x)
    obtain p w' where x: "x = (p, w')" by fastforce
    from init_pool_inv [OF w0 Inr [unfolded x]] have w': "pdf_inv0 w'" "pe_pool (pw_e w') = Some p" by auto
    then show ?thesis using Inr x schedule_inv [OF w'(1)]
      by (cases ge) (auto simp: acquirePDF_def Let_def pdf_inv0_def pdf_inv_def timer_ok_def pool_ok_def users_def use_ok_def)
  qed
qed

lemma release_inv:
  assumes "pdf_inv w" "i < length (pw_uses w)" "us_phase (pw_uses w ! i) = Settled"
  shows "pdf_inv (releasePDF (on_use (\<lambda>u. u\<lparr>us_phase := Released\<rparr>) i w))"
proof -
  let ?w = "on_use (\<lambda>u. u\<lparr>us_phase := Released\<rparr>) i w"
  let ?w1 = "?w\<lparr>pw_e := (pw_e ?w)\<lparr>pe_inUse := pe_inUse (pw_e ?w) - 1\<rparr>\<rparr>"
  have n: "Suc (users ?w) = users w"
    using assms(2,3) filter_less_update [of i "pw_uses w" "\<lambda>u. us_phase u \<noteq> Released"] by (simp add: users_def on_use_def)
  have u: "use_ok (pw_uses w ! i)" using assms(1,2) by (simp add: pdf_inv_def list_all_length)
  have "list_all use_ok (pw_uses ?w)"
    using assms u by (auto simp: on_use_def pdf_inv_def use_ok_def intro!: list_all_update)
  moreover have "list_all (\<lambda>u. us_phase u = Released \<or> pe_pool (pw_e w) = Some (us_pool u)) (pw_uses ?w)"
    using assms by (auto simp: on_use_def pdf_inv_def pool_ok_def intro!: list_all_update)
  moreover have "users ?w1 = users ?w" by (simp add: users_def)
  moreover have "pe_timer (pw_e w) = None" using assms(1) n by (auto simp: pdf_inv_def timer_ok_def split: option.splits)
  ultimately have "pdf_inv0 ?w1" using assms(1,2) n
    by (auto simp: pdf_inv_def pdf_inv0_def pool_ok_def on_use_def split: option.splits)
  then show ?thesis unfolding releasePDF_def by (rule schedule_inv)
qed

lemma close_inv: "pdf_inv w \<Longrightarrow> pdf_inv (closeIdlePDF (w\<lparr>pw_timers := ts\<rparr>))"
  by (auto simp: pdf_inv_def closeIdlePDF_def Let_def pool_ok_def timer_ok_def users_def list_all_iff filter_empty_conv
      split: option.splits)

lemma pdf_step_inv: "pdf_inv w \<Longrightarrow> pdf_inv (pdf_step ev w)"
proof (cases ev)
  case (Fire t)
  assume "pdf_inv w"
  then show ?thesis using Fire
    by (auto simp: pdf_inv_def pool_ok_def timer_ok_def timer_live_def users_def nth_list_update split: option.splits)
next
  case (RunIdle t)
  assume "pdf_inv w"
  then show ?thesis using RunIdle close_inv by simp
qed (simp_all add: acquire_inv release_inv use_inv)

lemma pdf_run_inv: "pdf_inv (pdf_run evs)"
proof -
  have "pdf_inv w \<Longrightarrow> pdf_inv (fold pdf_step evs w)" for w
    by (induction evs arbitrary: w) (simp_all add: pdf_step_inv)
  then show ?thesis using pdf_inv_start by (simp add: pdf_run_def)
qed

text \<open>C20: whatever the order of extractions, ends of contexts, timers firing and their functions running late,
  no instance is both killed and closed and each is one of them exactly by the time its extraction gives it
  back; the pool of an extraction still holding an instance is the current one and has not been closed; no
  pool is closed twice; and when nobody holds an instance, the pool, if any, has a timer under way that
  closes it.\<close>

theorem pdf_engine_safe:
  "let w = pdf_run evs; e = pw_e w
   in pe_inUse e = int (users w) \<and> distinct (pw_closed w) \<and>
      list_all (\<lambda>u. us_kills u + us_closes u \<le> 1 \<and>
        (us_phase u = Working \<or> us_phase u = Waiting \<or> us_kills u + us_closes u = 1) \<and>
        (us_phase u = Released \<or> pe_pool e = Some (us_pool u) \<and> us_pool u \<notin> set (pw_closed w))) (pw_uses w) \<and>
      (0 < users w \<or> pe_pool e = None \<or> (\<exists>t. pe_timer e = Some t \<and> timer_live w t))"
proof -
  let ?w = "pdf_run evs"
  have i: "pdf_inv ?w" by (rule pdf_run_inv)
  have k: "us_kills u + us_closes u \<le> 1 \<and> (us_phase u = Working \<or> us_phase u = Waiting \<or> us_kills u + us_closes u = 1)"
    if "use_ok u" for u
    using that by (auto simp: use_ok_def split: use_phase.splits if_splits)
  show ?thesis using i k
    by (auto simp: Let_def pdf_inv_def pool_ok_def timer_ok_def list_all_iff split: option.splits)
qed

text \<open>A fired timer's function that finally runs closes an idle pool\<close>

lemma idle_pool_closed:
  "pe_inUse (pw_e w) = 0 \<Longrightarrow> pe_pool (pw_e (closeIdlePDF w)) = None"
  by (simp add: closeIdlePDF_def Let_def split: option.split)

text \<open>A timer that fired just before the next extraction took the mutex closes the pool right after that
  extraction, not five minutes after the last use, and drops the timer newly set.\<close>

lemma stale_timer_closes_early:
  "let w = pdf_run [Acquire None None, Return 0, Release 0, Fire 0, Acquire None None, Return 1, Release 1, RunIdle 0]
   in pw_closed w = [0] \<and> pw_timers w = [Ran, Armed] \<and> pe_timer (pw_e w) = None"
  by code_simp

section \<open>Pages\<close>

datatype pdf_err = PdfPassword | PdfOther string

record pdf_doc =
  pd_open :: "pdf_err option"
  pd_count :: "pdf_err + int"
  pd_page :: "nat \<Rightarrow> pdf_err + string"

type_synonym pdfium = "read_at \<Rightarrow> nat \<Rightarrow> pdf_doc"

text \<open>The points at which the context is asked whether it has ended\<close>

datatype pdf_point = AtStart | AtOpen | AtCount | AtPage nat | AtPageErr nat

type_synonym pdf_ctx = "pdf_point \<Rightarrow> string option"

definition pdfError :: "pdf_ctx \<Rightarrow> pdf_point \<Rightarrow> pdf_err \<Rightarrow> extract_err" where
  "pdfError ctx p err =
     (case ctx p of
        Some m \<Rightarrow> ErrMsg m
      | None \<Rightarrow> (case err of PdfPassword \<Rightarrow> ErrEncrypted | PdfOther m \<Rightarrow> ErrMsg (''not a readable PDF: '' @ m)))"

definition page_error :: "nat \<Rightarrow> pdf_err \<Rightarrow> pdf_err" where
  "page_error i err = (case err of PdfPassword \<Rightarrow> PdfPassword | PdfOther m \<Rightarrow> PdfOther (''page '' @ format_nat (i + 1) @ '': '' @ m))"

text \<open>\<open>strings.NewReplacer\<close> with the ligatures U+FB00 to U+FB06\<close>

definition pdfLigatures :: "(nat \<times> string) list" where
  "pdfLigatures = [(0xFB00, ''ff''), (0xFB01, ''fi''), (0xFB02, ''fl''), (0xFB03, ''ffi''), (0xFB04, ''ffl''), (0xFB05, ''st''), (0xFB06, ''st'')]"

function lig_replace :: "string \<Rightarrow> string" where
  "lig_replace [] = []"
| "lig_replace (c # cs) =
     (case find (\<lambda>(r, n). prefix (encode_rune r) (c # cs)) pdfLigatures of
        Some (r, n) \<Rightarrow> n @ lig_replace (drop (length (encode_rune r)) (c # cs))
      | None \<Rightarrow> c # lig_replace cs)"
  by pat_completeness auto
termination
  by (relation "measure length") (auto simp: Suc_diff_le diff_less_Suc)

declare lig_replace.simps(2) [simp del]

definition cr :: string where "cr = [CHR 0x0D]"

definition page_text :: "string \<Rightarrow> string" where
  "page_text t = lig_replace (replace_all cr nl (replace_all (cr @ nl) nl t))"

fun pdf_pages :: "pdf_ctx \<Rightarrow> pdf_doc \<Rightarrow> nat \<Rightarrow> nat \<Rightarrow> sink \<Rightarrow> extract_err + sink" where
  "pdf_pages ctx d i 0 out = Inr out"
| "pdf_pages ctx d i (Suc n) out =
     (if sink_full out then Inr out
      else case ctx (AtPage i) of
             Some m \<Rightarrow> Inl (ErrMsg m)
           | None \<Rightarrow>
               (case pd_page d i of
                  Inl err \<Rightarrow>
                    (if sink_b out \<noteq> [] then Inr out else Inl (pdfError ctx (AtPageErr i) (page_error i err)))
                | Inr t \<Rightarrow> pdf_pages ctx d (Suc i) n (sink_write (sink_write out (page_text t)) (nl @ nl))))"

text \<open>\<open>acq\<close> is the error of \<open>acquirePDF\<close>\<close>

definition extractPDF :: "pdfium \<Rightarrow> string option \<Rightarrow> pdf_ctx \<Rightarrow> read_at \<Rightarrow> nat \<Rightarrow> nat \<Rightarrow> extract_err + string" where
  "extractPDF pdfium acq ctx r fsize maxText =
     (case ctx AtStart of
        Some m \<Rightarrow> Inl (ErrMsg m)
      | None \<Rightarrow>
          (case acq of
             Some m \<Rightarrow> Inl (ErrMsg m)
           | None \<Rightarrow>
               (let d = pdfium r fsize
                in case pd_open d of
                     Some err \<Rightarrow> Inl (pdfError ctx AtOpen err)
                   | None \<Rightarrow>
                       (case pd_count d of
                          Inl err \<Rightarrow> Inl (pdfError ctx AtCount err)
                        | Inr n \<Rightarrow>
                            (case pdf_pages ctx d 0 (nat n) (sink_new maxText) of
                               Inl e \<Rightarrow> Inl e
                             | Inr out \<Rightarrow> Inr (sink_text out))))))"

section \<open>The text of a document\<close>

definition lig_rune :: "nat \<Rightarrow> string" where
  "lig_rune r = (case map_of pdfLigatures r of Some n \<Rightarrow> n | None \<Rightarrow> encode_rune r)"

definition lig_runes :: "nat list" where
  "lig_runes = map fst pdfLigatures"

lemma lig_range: "(r, n) \<in> set pdfLigatures \<Longrightarrow> 0xFB00 \<le> r \<and> r \<le> 0xFB06 \<and> list_all (\<lambda>c. bval c < 0x80) n"
  by (auto simp: pdfLigatures_def)

lemma lig_head: "0xFB00 \<le> r \<Longrightarrow> r \<le> 0xFB06 \<Longrightarrow> hd (encode_rune r) = CHR 0xEF"
proof -
  have "list_all (\<lambda>r. hd (encode_rune r) = CHR 0xEF) [0xFB00, 0xFB01, 0xFB02, 0xFB03, 0xFB04, 0xFB05, 0xFB06]" by code_simp
  moreover assume "0xFB00 \<le> r" "r \<le> 0xFB06"
  then have "r = 0xFB00 \<or> r = 0xFB01 \<or> r = 0xFB02 \<or> r = 0xFB03 \<or> r = 0xFB04 \<or> r = 0xFB05 \<or> r = 0xFB06" by presburger
  ultimately show ?thesis by auto
qed

lemma prefix_encode:
  assumes "decode_rune s = (r, w)" "s \<noteq> []" "\<not> (r = rune_error \<and> w = 1)" "valid_rune r'"
  shows "prefix (encode_rune r') s \<longleftrightarrow> r' = r"
proof
  assume "prefix (encode_rune r') s"
  then obtain t where "s = encode_rune r' @ t" by (auto simp: prefix_def)
  then show "r' = r" using decode_encode [OF assms(4), of t] assms(1) by simp
next
  assume "r' = r"
  moreover have "take w s = encode_rune r" using decode_good_encode [OF assms(1-3)] by simp
  ultimately show "prefix (encode_rune r') s" by (metis take_is_prefix)
qed

lemma lig_skip:
  assumes "list_all (\<lambda>c. c \<noteq> CHR 0xEF) x"
  shows "lig_replace (x @ s) = x @ lig_replace s"
  using assms
proof (induction x)
  case (Cons c x)
  have "\<not> prefix (encode_rune r) (c # x @ s)" if "(r, n) \<in> set pdfLigatures" for r n
    using Cons.prems lig_range [OF that] lig_head [of r] by (cases "encode_rune r") auto
  then have "find (\<lambda>(r, n). prefix (encode_rune r) (c # x @ s)) pdfLigatures = None"
    by (fastforce simp: find_None_iff)
  then show ?case using Cons by (simp add: lig_replace.simps(2))
qed simp

lemma tail_bytes:
  assumes "decode_rune s = (r, w)" "s \<noteq> []" "\<not> (r = rune_error \<and> w = 1)"
  shows "list_all (\<lambda>c. c \<noteq> CHR 0xEF) (tl (take w s))"
proof -
  have "\<not> cont (CHR 0xEF)" by code_simp
  then have "c \<noteq> CHR 0xEF" if "cont c" for c using that by auto
  note nc = this
  show ?thesis using assms by (cases rule: decode_good_cases) (auto dest: nc)
qed

lemma find_lig:
  assumes "decode_rune s = (r, w)" "s \<noteq> []" "\<not> (r = rune_error \<and> w = 1)"
  shows "find (\<lambda>(r', n). prefix (encode_rune r') s) pdfLigatures = map_option (Pair r) (map_of pdfLigatures r)"
proof -
  have "find (\<lambda>(r', n). prefix (encode_rune r') s) ps = map_option (Pair r) (map_of ps r)"
    if "list_all (\<lambda>(r', n). valid_rune r') ps" for ps
    using that by (induction ps) (auto simp: prefix_encode [OF assms])
  moreover have "list_all (\<lambda>(r', n). valid_rune r') pdfLigatures" by code_simp
  ultimately show ?thesis by blast
qed

lemma lig_replace_runes: "valid_utf8 s \<Longrightarrow> lig_replace s = concat (map lig_rune (runes s))"
proof (induction s rule: valid_utf8_induct)
  case (step s r w)
  have tw: "take w s = encode_rune r" using decode_good_encode [OF step(3,2,4)] by simp
  have rs: "runes s = r # runes (drop w s)" by (simp add: runes_def step(7))
  obtain c cs where c: "s = c # cs" using step(2) by (cases s) auto
  note f = find_lig [OF step(3,2,4)]
  show ?case
  proof (cases "map_of pdfLigatures r")
    case None
    have "lig_replace s = c # lig_replace cs" using f None by (simp add: c lig_replace.simps(2))
    also have "\<dots> = take w s @ lig_replace (drop w s)"
    proof -
      obtain k where k: "w = Suc k" using step(5) by (cases w) auto
      have "list_all (\<lambda>c. c \<noteq> CHR 0xEF) (take k cs)" using tail_bytes [OF step(3,2,4)] by (simp add: c k)
      from lig_skip [OF this, of "drop k cs"] show ?thesis by (simp add: c k)
    qed
    finally show ?thesis using None step(8) by (simp add: rs lig_rune_def tw)
  next
    case (Some n)
    have "length (encode_rune r) = w" using tw step(6) by (metis length_take min.absorb2)
    then have "lig_replace s = n @ lig_replace (drop w s)" using f Some by (simp add: c lig_replace.simps(2))
    then show ?thesis using Some step(8) by (simp add: rs lig_rune_def)
  qed
qed simp

lemma lig_rune_valid: "valid_rune r \<Longrightarrow> valid_utf8 (lig_rune r) \<and> list_all (\<lambda>r. r \<notin> set lig_runes) (runes (lig_rune r))"
proof (cases "map_of pdfLigatures r")
  case None
  assume v: "valid_rune r"
  have "runes (encode_rune r) = [r]" using rune_steps_encode [OF v, of "[]"] by (simp add: runes_def)
  moreover have "r \<notin> set lig_runes" using None by (auto simp: lig_runes_def map_of_eq_None_iff)
  ultimately show ?thesis using None by (simp add: lig_rune_def valid_encode)
next
  case (Some n)
  have "list_all (\<lambda>(r, n). list_all (\<lambda>r. r \<notin> set lig_runes) (runes n)) pdfLigatures" by code_simp
  then have "list_all (\<lambda>r. r \<notin> set lig_runes) (runes n)" using map_of_SomeD [OF Some] by (auto simp: list_all_iff)
  then show ?thesis using Some lig_range [OF map_of_SomeD [OF Some]] by (simp add: lig_rune_def ascii_valid)
qed

lemma lig_replace_ok:
  assumes "valid_utf8 s"
  shows "valid_utf8 (lig_replace s) \<and> list_all (\<lambda>r. r \<notin> set lig_runes) (runes (lig_replace s))"
proof -
  have "valid_utf8 (concat (map lig_rune rs)) \<and> list_all (\<lambda>r. r \<notin> set lig_runes) (runes (concat (map lig_rune rs)))"
    if "\<forall>r\<in>set rs. valid_rune r" for rs
    using that lig_rune_valid by (induction rs) (auto simp: valid_utf8_append runes_append)
  then show ?thesis using runes_are_valid [of s] by (simp add: lig_replace_runes [OF assms])
qed

text \<open>The pages before the first that cannot be read\<close>

fun good_pages :: "pdf_doc \<Rightarrow> nat \<Rightarrow> nat \<Rightarrow> string list" where
  "good_pages d i 0 = []"
| "good_pages d i (Suc n) = (case pd_page d i of Inl err \<Rightarrow> [] | Inr t \<Rightarrow> t # good_pages d (Suc i) n)"

definition page_pieces :: "string list \<Rightarrow> string" where
  "page_pieces ts = concat (map (\<lambda>t. page_text t @ nl @ nl) ts)"

lemma page_text_ok:
  assumes "valid_utf8 t"
  shows "valid_utf8 (page_text t) \<and> list_all (\<lambda>r. r \<notin> set lig_runes) (runes (page_text t @ nl @ nl))"
proof -
  have b: "blank_ascii (cr @ nl)" "blank_ascii nl" "blank_ascii cr" "cr @ nl \<noteq> []" "cr \<noteq> []"
    by (simp_all add: cr_def nl_def is_space_def)
  have "valid_utf8 (replace_all cr nl (replace_all (cr @ nl) nl t))"
    using replace_all_ink [OF replace_all_ink [OF assms b(1,2,4), THEN conjunct1] b(3,2,5)] by blast
  from lig_replace_ok [OF this] have "valid_utf8 (page_text t)" "list_all (\<lambda>r. r \<notin> set lig_runes) (runes (page_text t))"
    by (simp_all add: page_text_def)
  moreover have "list_all (\<lambda>r. r \<notin> set lig_runes) (runes (nl @ nl))" by code_simp
  ultimately show ?thesis by (simp add: runes_append)
qed

lemma pieces_ok:
  "list_all valid_utf8 ts \<Longrightarrow> valid_utf8 (page_pieces ts) \<and> list_all (\<lambda>r. r \<notin> set lig_runes) (runes (page_pieces ts))"
proof (induction ts)
  case (Cons t ts)
  have "valid_utf8 (page_text t @ nl @ nl)" using Cons.prems page_text_ok nl_valid by (simp add: valid_utf8_appendI)
  then show ?case using Cons page_text_ok [of t] runes_append [of "page_text t @ nl @ nl" "page_pieces ts"]
    valid_utf8_appendI [of "page_text t @ nl @ nl" "page_pieces ts"]
    by (simp add: page_pieces_def)
qed (simp add: page_pieces_def)

lemma pdf_pages_text:
  "holds_text out full \<Longrightarrow> valid_utf8 (sink_b out) \<Longrightarrow> list_all valid_utf8 (good_pages d i n) \<Longrightarrow>
    pdf_pages (\<lambda>_. None) d i n out = Inr out' \<Longrightarrow>
    holds_text out' (full @ page_pieces (good_pages d i n)) \<and> valid_utf8 (sink_b out') \<and> sink_max out' = sink_max out"
proof (induction n arbitrary: i out full)
  case 0
  then show ?case by (simp add: page_pieces_def)
next
  case (Suc n)
  show ?case
  proof (cases "sink_full out")
    case True
    then show ?thesis using Suc.prems holds_more by auto
  next
    case False
    show ?thesis
    proof (cases "pd_page d i")
      case (Inl err)
      then show ?thesis using Suc.prems False by (auto simp: page_pieces_def split: if_splits)
    next
      case (Inr t)
      let ?out = "sink_write (sink_write out (page_text t)) (nl @ nl)"
      have "valid_utf8 (page_text t)" using Suc.prems(3) Inr page_text_ok [of t] by simp
      then have v: "valid_utf8 (sink_b ?out)" using Suc.prems(2) nl_valid by (simp add: sink_write_def valid_utf8_append)
      have h: "holds_text ?out ((full @ page_text t) @ nl @ nl)" by (intro holds_write Suc.prems(1))
      from Suc.IH [OF h v, of "Suc i"] show ?thesis using Suc.prems Inr False
        by (simp add: page_pieces_def sink_write_def split: if_splits)
    qed
  qed
qed

lemma pdf_pages_error:
  "0 < sink_max out \<Longrightarrow> pdf_pages (\<lambda>_. None) d i n out = Inl e \<Longrightarrow> sink_b out = [] \<and> 0 < n \<and> is_err (pd_page d i)"
proof (induction n arbitrary: i out)
  case (Suc n)
  show ?case
  proof (cases "pd_page d i")
    case (Inl err)
    then show ?thesis using Suc.prems by (auto split: if_splits)
  next
    case (Inr t)
    let ?out = "sink_write (sink_write out (page_text t)) (nl @ nl)"
    have "\<not> sink_full out" "pdf_pages (\<lambda>_. None) d (Suc i) n ?out = Inl e" using Suc.prems Inr by (auto split: if_splits)
    moreover have "sink_b ?out \<noteq> []" using Suc.prems(1) calculation(1) by (auto simp: sink_write_def sink_full_def nl_def)
    moreover have "0 < sink_max ?out" using Suc.prems(1) by (simp add: sink_write_def)
    ultimately show ?thesis using Suc.IH [of ?out "Suc i"] by blast
  qed
qed simp

lemma capped_runes: "valid_utf8 full \<Longrightarrow> set (runes (capped m full)) \<subseteq> set (runes full)"
proof -
  assume v: "valid_utf8 full"
  have strip: "set (runes (stripControls b)) \<subseteq> set (runes b)" for b
    unfolding stripControls_def
    by (subst runes_strings_map) (auto simp: List.map_filter_def split: if_splits)
  show ?thesis
  proof (cases "m < length full")
    case False
    then show ?thesis using strip by (simp add: capped_def sink_text_def)
  next
    case True
    let ?b = "cut_to_valid (take m full)"
    have "prefix ?b full" using cut_to_valid_props [of "take m full"] take_is_prefix prefix_order.trans by blast
    then obtain x where "full = ?b @ x" by (auto simp: prefix_def)
    then have "runes full = runes ?b @ runes x" using runes_append [of ?b x] cut_to_valid_props by metis
    then show ?thesis using True strip [of ?b] by (auto simp: capped_def sink_text_def)
  qed
qed

text \<open>While the context lasts, the text of a PDF is that of its pages up to the first that cannot be read,
  in order, line ends normalised and ligatures spelt out, a blank line after each, cut at the cap; it is an
  error exactly when there is a first page and it cannot be read. The result is valid UTF-8 without control
  runes or ligatures, within the cap.\<close>

theorem pdf_text:
  assumes "pd_open (pdfium r fsize) = None" "pd_count (pdfium r fsize) = Inr n"
    and "list_all valid_utf8 (good_pages (pdfium r fsize) 0 (nat n))" "0 < m"
  shows "case extractPDF pdfium None (\<lambda>_. None) r fsize m of
      Inl e \<Rightarrow> 0 < n \<and> is_err (pd_page (pdfium r fsize) 0)
    | Inr t \<Rightarrow> (n \<le> 0 \<or> \<not> is_err (pd_page (pdfium r fsize) 0)) \<and>
        t = capped m (page_pieces (good_pages (pdfium r fsize) 0 (nat n))) \<and> length t \<le> m \<and> clean_text t \<and>
        list_all (\<lambda>c. c \<notin> set lig_runes) (runes t)"
proof -
  let ?d = "pdfium r fsize"
  let ?ps = "good_pages ?d 0 (nat n)"
  show ?thesis
  proof (cases "pdf_pages (\<lambda>_. None) ?d 0 (nat n) (sink_new m)")
    case (Inl e)
    from pdf_pages_error [OF _ this] assms(4) have "0 < nat n" "is_err (pd_page ?d 0)" by (simp_all add: holds_new)
    then show ?thesis using Inl assms by (simp add: extractPDF_def Let_def)
  next
    case (Inr out)
    from pdf_pages_text [OF holds_new(1,2) assms(3) Inr]
    have h: "holds_text out (page_pieces ?ps)" "valid_utf8 (sink_b out)" "sink_max out = m" by (simp_all add: holds_new)
    then have t: "sink_text out = capped m (page_pieces ?ps)" using holds_valid_text by (auto simp: capped_def)
    have "length (sink_text out) \<le> m" using length_sink_text [OF h(2)] h(3) by simp
    moreover have "list_all (\<lambda>c. c \<notin> set lig_runes) (runes (sink_text out))"
      using pieces_ok [OF assms(3)] capped_runes [of "page_pieces ?ps" m] unfolding t list_all_iff by blast
    moreover have "n \<le> 0 \<or> \<not> is_err (pd_page ?d 0)"
    proof (cases "nat n")
      case (Suc k)
      then show ?thesis using Inr assms(4) by (auto simp: sink_full_def sink_new_def is_err_def split: sum.splits)
    qed simp
    ultimately show ?thesis using Inr assms t sink_text_clean [of out] by (simp add: extractPDF_def Let_def)
  qed
qed

definition first_page :: string where
  "first_page = ''o'' @ encode_rune 0xFB03 @ ''ce'' @ cr @ nl @ ''hours''"

definition two_pages :: pdfium where
  "two_pages r n = \<lparr>pd_open = None, pd_count = Inr 3,
     pd_page = (\<lambda>i. if i = 0 then Inr first_page else if i = 1 then Inr ''9'' else Inl (PdfOther ''damaged''))\<rparr>"

definition two_pages_text :: string where
  "two_pages_text = ''office'' @ nl @ ''hours'' @ nl @ nl @ ''9'' @ nl @ nl"

theorem pdf_text_witness:
  "extractPDF two_pages None (\<lambda>_. None) (file_read_at ''x'') 1 100 = Inr two_pages_text \<and>
   clean_text two_pages_text \<and> list_all (\<lambda>c. c \<notin> set lig_runes) (runes two_pages_text)"
proof -
  have "list_all valid_utf8 [first_page, ''9'']" by code_simp
  then have v: "list_all valid_utf8 (good_pages (two_pages r k) 0 (nat 3))" for r k
    by (simp add: two_pages_def numeral_3_eq_3)
  have "extractPDF two_pages None (\<lambda>_. None) (file_read_at ''x'') 1 100 = Inr two_pages_text" by code_simp
  then show ?thesis
    using pdf_text [where pdfium = two_pages and r = "file_read_at ''x''" and fsize = 1 and n = 3 and m = 100, OF _ _ v]
    by (simp add: two_pages_def)
qed

text \<open>The blank line after a page counts as text, so a first page without any hides that no other page could
  be read: the file is recorded as having no text.\<close>

lemma blank_page_hides_errors:
  "extractPDF (\<lambda>r n. \<lparr>pd_open = None, pd_count = Inr 9, pd_page = (\<lambda>i. if i = 0 then Inr [] else Inl (PdfOther ''damaged''))\<rparr>)
     None (\<lambda>_. None) r fsize 100 = Inr (nl @ nl)"
proof -
  have "sink_text \<lparr>sink_b = nl @ nl, sink_max = 100\<rparr> = nl @ nl" by code_simp
  then show ?thesis
    by (simp add: extractPDF_def Let_def eval_nat_numeral sink_new_def sink_write_def sink_full_def page_text_def nl_def)
qed

end
