(* ===== verification/Sheets.thy ===== *)
theory Sheets
  imports WordSlides PathNames
begin

text \<open>
  Excel text (internal/extract/xlsx.go): the shared strings, the sheets in workbook order, and the cells
  of a sheet. The parsers without a collector use \<open>xml_text\<close>, the token loop that keeps everything.
\<close>

section \<open>Attributes\<close>

text \<open>The last attribute of that name, or nothing\<close>

definition attr :: "string \<Rightarrow> (string \<times> string) list \<Rightarrow> string" where
  "attr nm as = fold (\<lambda>(n, v) x. if n = nm then v else x) as []"

section \<open>Shared strings\<close>

record shared_state =
  sh_cur :: string
  sh_kept :: nat
  sh_inT :: bool

definition shared_init :: shared_state where
  "shared_init = \<lparr>sh_cur = [], sh_kept = 0, sh_inT = False\<rparr>"

definition shared_step :: "shared_state xstep" where
  "shared_step t s =
     (case t of
        XStart n _ \<Rightarrow> ([], if n = ''t'' then s\<lparr>sh_inT := True\<rparr> else s)
      | XEnd n \<Rightarrow>
          (if n = ''t'' then ([], s\<lparr>sh_inT := False\<rparr>)
           else if n = ''si'' then
             (let x = (if maxSharedText < sh_kept s + length (sh_cur s) then [] else sh_cur s)
              in ([x], s\<lparr>sh_cur := [], sh_kept := sh_kept s + length x\<rparr>))
           else ([], s))
      | XChars c \<Rightarrow> ([], if sh_inT s then s\<lparr>sh_cur := sh_cur s @ c\<rparr> else s)
      | XOther \<Rightarrow> ([], s))"

definition phonetic :: "string list" where "phonetic = [''rPh'']"

definition readSharedStrings :: "xml_dec \<Rightarrow> zip_entry list \<Rightarrow> string + string list" where
  "readSharedStrings dec es =
     (case findPart es ''xl/sharedStrings.xml'' of
        None \<Rightarrow> Inr []
      | Some f \<Rightarrow>
          (case openPart f of
             Inl e \<Rightarrow> Inl e
           | Inr p \<Rightarrow>
               (case dec p of (toks, err) \<Rightarrow>
                 (case xml_text phonetic shared_step err toks shared_init of
                    (out, Some e) \<Rightarrow> Inl e
                  | (out, None) \<Rightarrow> Inr out))))"

section \<open>The sheets of a workbook\<close>

definition part_tokens :: "xml_dec \<Rightarrow> zip_entry \<Rightarrow> string + xtok list" where
  "part_tokens dec f =
     (case openPart f of
        Inl e \<Rightarrow> Inl e
      | Inr p \<Rightarrow> (case dec p of (toks, Some e) \<Rightarrow> Inl (ze_name f @ '': '' @ e) | (toks, None) \<Rightarrow> Inr toks))"

definition sheet_order :: "xtok list \<Rightarrow> (string \<times> string) list" where
  "sheet_order toks =
     List.map_filter (\<lambda>t. case t of XStart n as \<Rightarrow> if n = ''sheet'' then Some (attr ''name'' as, attr ''id'' as) else None
       | _ \<Rightarrow> None) toks"

definition sheet_targets :: "xtok list \<Rightarrow> string \<Rightarrow> string" where
  "sheet_targets toks =
     fold (\<lambda>t m. case t of XStart n as \<Rightarrow> if n = ''Relationship'' then m(attr ''Id'' as := attr ''Target'' as) else m | _ \<Rightarrow> m)
       toks (\<lambda>_. [])"

definition target_path :: "string \<Rightarrow> string" where
  "target_path target = (if prefix ''/'' target then trim_prefix target ''/'' else path_clean (''xl/'' @ target))"

definition sheet_refs :: "(string \<times> string) list \<Rightarrow> (string \<Rightarrow> string) \<Rightarrow> (string \<times> string) list" where
  "sheet_refs order targets =
     map (\<lambda>(nm, rid). (nm, target_path (targets rid))) (filter (\<lambda>(nm, rid). targets rid \<noteq> []) order)"

definition readSheets :: "xml_dec \<Rightarrow> zip_entry list \<Rightarrow> zip_entry \<Rightarrow> string + (string \<times> string) list" where
  "readSheets dec es wb =
     (case part_tokens dec wb of
        Inl e \<Rightarrow> Inl e
      | Inr toks \<Rightarrow>
          (case findPart es ''xl/_rels/workbook.xml.rels'' of
             None \<Rightarrow> Inr (sheet_refs (sheet_order toks) (\<lambda>_. []))
           | Some rels \<Rightarrow>
               (case part_tokens dec rels of
                  Inl e \<Rightarrow> Inl e
                | Inr rtoks \<Rightarrow> Inr (sheet_refs (sheet_order toks) (sheet_targets rtoks)))))"

section \<open>The cells of a sheet\<close>

record sheet_state =
  ss_type :: string
  ss_inV :: bool
  ss_inIS :: bool
  ss_inT :: bool
  ss_cell :: string
  ss_row :: "string list"

definition sheet_init :: sheet_state where
  "sheet_init = \<lparr>ss_type = [], ss_inV = False, ss_inIS = False, ss_inT = False, ss_cell = [], ss_row = []\<rparr>"

definition cell_text :: "string list \<Rightarrow> string \<Rightarrow> string \<Rightarrow> string" where
  "cell_text shared ty text =
     (if ty = ''s'' then
        (case ParseInt (trim_space text) of
           Inr i \<Rightarrow> if 0 \<le> i \<and> i < int (length shared) then shared ! nat i else []
         | Inl _ \<Rightarrow> [])
      else if ty \<noteq> ''inlineStr'' \<and> ty \<noteq> ''str'' then [] else text)"

definition blank :: "string \<Rightarrow> bool" where "blank t \<longleftrightarrow> trim_space t = []"

definition sheet_step :: "string list \<Rightarrow> sheet_state xstep" where
  "sheet_step shared t s =
     (case t of
        XStart n as \<Rightarrow>
          ([], if n = ''row'' then s\<lparr>ss_row := []\<rparr>
               else if n = ''c'' then s\<lparr>ss_type := attr ''t'' as, ss_cell := []\<rparr>
               else if n = ''v'' then s\<lparr>ss_inV := True\<rparr>
               else if n = ''is'' then s\<lparr>ss_inIS := True\<rparr>
               else if n = ''t'' then s\<lparr>ss_inT := True\<rparr> else s)
      | XEnd n \<Rightarrow>
          (if n = ''v'' then ([], s\<lparr>ss_inV := False\<rparr>)
           else if n = ''is'' then ([], s\<lparr>ss_inIS := False\<rparr>)
           else if n = ''t'' then ([], s\<lparr>ss_inT := False\<rparr>)
           else if n = ''c'' then
             (let text = cell_text shared (ss_type s) (ss_cell s)
              in ([], if \<not> blank text then s\<lparr>ss_row := ss_row s @ [text]\<rparr> else s))
           else if n = ''row'' then (if ss_row s \<noteq> [] then [join tab_char (ss_row s) @ nl] else [], s)
           else ([], s))
      | XChars c \<Rightarrow>
          ([], if ss_inV s \<and> \<not> ss_inIS s \<or> ss_inT s then s\<lparr>ss_cell := ss_cell s @ c\<rparr> else s)
      | XOther \<Rightarrow> ([], s))"

definition parseSheetXML :: "xml_dec \<Rightarrow> string list \<Rightarrow> zip_entry \<Rightarrow> sink \<Rightarrow> sink \<times> parse_stop option" where
  "parseSheetXML dec shared f out = parse_part dec [] (sheet_step shared) sheet_init f out"

section \<open>The extractor\<close>

fun sheets_loop :: "xml_dec \<Rightarrow> zip_entry list \<Rightarrow> string list \<Rightarrow> (string \<times> string) list \<Rightarrow> sink \<Rightarrow> extract_err + sink" where
  "sheets_loop dec es shared [] out = Inr out"
| "sheets_loop dec es shared ((nm, p) # refs) out =
     (if sink_full out then Inr out
      else case findPart es p of
             None \<Rightarrow> sheets_loop dec es shared refs out
           | Some f \<Rightarrow>
               (case parseSheetXML dec shared f (sink_write out (nm @ nl)) of
                  (out, Some (PErr e)) \<Rightarrow>
                    (if sink_b out = [] then Inl (ErrMsg (ze_name f @ '': '' @ e)) else Inr out)
                | (out, _) \<Rightarrow> sheets_loop dec es shared refs (sink_write out nl)))"

definition extractXlsx :: "unzip \<Rightarrow> xml_dec \<Rightarrow> read_at \<Rightarrow> nat \<Rightarrow> nat \<Rightarrow> extract_err + string" where
  "extractXlsx unzip dec r fsize maxText =
     (case openPackage unzip r fsize of
        Inl e \<Rightarrow> Inl e
      | Inr es \<Rightarrow>
          (case findPart es ''xl/workbook.xml'' of
             None \<Rightarrow> Inl (ErrMsg ''not an Excel file: xl/workbook.xml is missing'')
           | Some wb \<Rightarrow>
               (case readSharedStrings dec es of
                  Inl e \<Rightarrow> Inl (ErrMsg (''shared strings: '' @ e))
                | Inr shared \<Rightarrow>
                    (case readSheets dec es wb of
                       Inl e \<Rightarrow> Inl (ErrMsg e)
                     | Inr sheets \<Rightarrow>
                         (case sheets_loop dec es shared sheets (sink_new maxText) of
                            Inl e \<Rightarrow> Inl e
                          | Inr out \<Rightarrow> Inr (sink_text out))))))"

section \<open>Valid text\<close>

definition shared_ok :: "shared_state \<Rightarrow> bool" where
  "shared_ok s \<longleftrightarrow> valid_utf8 (sh_cur s)"

lemma shared_step_ok: "step_ok shared_ok shared_step"
  by (auto simp: step_ok_def shared_step_def shared_ok_def tok_ok_def Let_def valid_utf8_appendI split: xtok.splits)

definition sheet_ok :: "sheet_state \<Rightarrow> bool" where
  "sheet_ok s \<longleftrightarrow> valid_utf8 (ss_cell s) \<and> list_all valid_utf8 (ss_row s)"

lemma valid_join: "valid_utf8 sep \<Longrightarrow> list_all valid_utf8 xs \<Longrightarrow> valid_utf8 (join sep xs)"
  by (induction sep xs rule: join.induct) (auto simp: valid_utf8_appendI)

lemma cell_text_valid: "list_all valid_utf8 shared \<Longrightarrow> valid_utf8 c \<Longrightarrow> valid_utf8 (cell_text shared ty c)"
  by (auto simp: cell_text_def list_all_length split: sum.splits)

lemma sheet_step_ok: "list_all valid_utf8 shared \<Longrightarrow> step_ok sheet_ok (sheet_step shared)"
  by (auto simp: step_ok_def sheet_step_def sheet_ok_def tok_ok_def Let_def valid_utf8_appendI valid_join nl_valid
      cell_text_valid split: xtok.splits)

lemma xml_text_valid:
  assumes "step_ok ok step" "list_all tok_ok ts" "ok s"
  shows "list_all valid_utf8 (fst (xml_text names step err ts s))"
  using assms
proof (induction names step err ts s rule: xml_text.induct)
  case (2 names step err t ts s)
  show ?case
  proof (cases "skips names t")
    case sk: True
    show ?thesis
    proof (cases "skip_el 0 ts")
      case (Some rest)
      then show ?thesis using 2(1) [OF sk Some 2(3) _ 2(5)] skip_el_ok [OF Some] 2(4) sk by simp
    qed (use sk in simp)
  next
    case False
    obtain ws s' where st: "step t s = (ws, s')" by fastforce
    have "list_all valid_utf8 ws" "ok s'" using 2(3,4,5) st unfolding step_ok_def by (metis fst_conv list.pred_inject(2) snd_conv)+
    then show ?thesis using 2(2) [OF False st [symmetric] 2(3)] False st 2(4) by (auto split: prod.split)
  qed
qed simp

lemma shared_valid: "dec_ok dec \<Longrightarrow> readSharedStrings dec es = Inr shared \<Longrightarrow> list_all valid_utf8 shared"
proof -
  assume d: "dec_ok dec" and r: "readSharedStrings dec es = Inr shared"
  show ?thesis
  proof (cases "findPart es ''xl/sharedStrings.xml''")
    case (Some f)
    then obtain p toks err where "openPart f = Inr p" "dec p = (toks, err)"
        "xml_text phonetic shared_step err toks shared_init = (shared, None)"
      using r by (auto simp: readSharedStrings_def split: sum.splits option.splits prod.splits)
    moreover have "list_all tok_ok toks" using d calculation(2) unfolding dec_ok_def by (metis fst_conv)
    moreover have "shared_ok shared_init" by (simp add: shared_ok_def shared_init_def)
    ultimately show ?thesis using xml_text_valid [OF shared_step_ok, of toks shared_init phonetic err] by simp
  qed (use r in \<open>simp add: readSharedStrings_def\<close>)
qed

lemma attr_valid: "list_all (valid_utf8 \<circ> snd) as \<Longrightarrow> valid_utf8 (attr nm as)"
proof -
  have "list_all (valid_utf8 \<circ> snd) as \<Longrightarrow> valid_utf8 x \<Longrightarrow> valid_utf8 (fold (\<lambda>(n, v) x. if n = nm then v else x) as x)" for x
    by (induction as arbitrary: x) auto
  then show "list_all (valid_utf8 \<circ> snd) as \<Longrightarrow> ?thesis" by (simp add: attr_def)
qed

lemma readSheets_valid: "dec_ok dec \<Longrightarrow> readSheets dec es wb = Inr refs \<Longrightarrow> list_all (valid_utf8 \<circ> fst) refs"
proof -
  assume d: "dec_ok dec" and r: "readSheets dec es wb = Inr refs"
  obtain toks targets where t: "part_tokens dec wb = Inr toks" "refs = sheet_refs (sheet_order toks) targets"
    using r by (auto simp: readSheets_def split: sum.splits option.splits)
  have "list_all tok_ok toks" using t(1) d unfolding dec_ok_def
    by (auto simp: part_tokens_def split: sum.splits prod.splits option.splits) (metis fst_conv)
  then have "list_all (valid_utf8 \<circ> fst) (sheet_order toks)"
    by (induction toks) (auto simp: sheet_order_def map_filter_simps tok_ok_def attr_valid split: xtok.splits)
  then show ?thesis by (auto simp: t(2) sheet_refs_def list_all_iff)
qed

section \<open>Capped\<close>

definition sheet_text :: "xml_dec \<Rightarrow> string list \<Rightarrow> zip_entry \<Rightarrow> string \<times> string option" where
  "sheet_text dec shared = part_text dec [] (sheet_step shared) sheet_init"

fun sheets_text :: "xml_dec \<Rightarrow> zip_entry list \<Rightarrow> string list \<Rightarrow> (string \<times> string) list \<Rightarrow> string" where
  "sheets_text dec es shared [] = []"
| "sheets_text dec es shared ((nm, p) # refs) =
     (case findPart es p of
        None \<Rightarrow> sheets_text dec es shared refs
      | Some f \<Rightarrow>
          (case sheet_text dec shared f of
             (w, Some e) \<Rightarrow> nm @ nl @ w
           | (w, None) \<Rightarrow> nm @ nl @ w @ nl @ sheets_text dec es shared refs))"

lemma sheets_loop_full: "sink_full out \<Longrightarrow> sheets_loop dec es shared refs out = Inr out"
  by (cases "(dec, es, shared, refs, out)" rule: sheets_loop.cases) simp_all

lemma sheets_loop_text:
  assumes "dec_ok dec" "list_all valid_utf8 shared"
    and "list_all (valid_utf8 \<circ> fst) refs" "holds_text out full" "valid_utf8 (sink_b out)"
    and "sheets_loop dec es shared refs out = Inr out'"
  shows "holds_text out' (full @ sheets_text dec es shared refs) \<and> valid_utf8 (sink_b out') \<and> sink_max out' = sink_max out"
  using assms(3-)
proof (induction refs arbitrary: out full)
  case (Cons ref refs)
  obtain nm p where ref: "ref = (nm, p)" by fastforce
  show ?case
  proof (cases "sink_full out \<or> findPart es p = None")
    case True
    show ?thesis
    proof (cases "sink_full out")
      case full: True
      then have "out' = out" using Cons.prems(4) sheets_loop_full [OF full] by simp
      then show ?thesis using Cons.prems(3) holds_more [OF Cons.prems(2) full] by simp
    next
      case nf: False
      with True have n: "findPart es p = None" by simp
      have run: "sheets_loop dec es shared refs out = Inr out'" using Cons.prems(4) nf n by (simp add: ref)
      have v: "list_all (valid_utf8 \<circ> fst) refs" using Cons.prems(1) by (simp add: o_def)
      show ?thesis using Cons.IH [OF v Cons.prems(2,3) run] n by (simp add: ref)
    qed
  next
    case False
    then obtain f where f: "findPart es p = Some f" and nf: "\<not> sink_full out" by auto
    let ?o = "sink_write out (nm @ nl)"
    have h: "holds_text ?o (full @ nm @ nl)" and v: "valid_utf8 (sink_b ?o)"
      using holds_write [OF Cons.prems(2)] valid_sink_write [OF Cons.prems(3)] Cons.prems(1)
      by (simp_all add: ref valid_utf8_appendI nl_valid)
    obtain w e where pt: "sheet_text dec shared f = (w, e)" by fastforce
    obtain o1 st where ps: "parseSheetXML dec shared f ?o = (o1, st)" by fastforce
    note t = parse_part_text [OF h, of dec "[]" "sheet_step shared" sheet_init f, folded parseSheetXML_def sheet_text_def,
        unfolded ps pt fst_conv snd_conv]
    have "sheet_ok sheet_init" by (simp add: sheet_ok_def sheet_init_def)
    from parse_part_valid [OF sheet_step_ok [OF assms(2)] assms(1) this v, of "[]" f] have v1: "valid_utf8 (sink_b o1)"
      using ps by (simp add: parseSheetXML_def)
    show ?thesis
    proof (cases "\<exists>m. st = Some (PErr m)")
      case True
      then obtain m where "st = Some (PErr m)" by blast
      then have "out' = o1" "e = Some m" using Cons.prems(4) nf f ps t by (simp_all add: ref split: if_splits)
      then show ?thesis using t v1 pt f by (simp add: ref)
    next
      case False
      then have run: "sheets_loop dec es shared refs (sink_write o1 nl) = Inr out'"
        using Cons.prems(4) nf f ps by (cases st) (auto simp: ref split: parse_stop.splits)
      have h': "holds_text (sink_write o1 nl) (full @ nm @ nl @ w @ nl)" using holds_write t by fastforce
      from Cons.IH [OF _ h' valid_sink_write [OF v1 nl_valid(1)] run] Cons.prems(1)
      have ih: "holds_text out' ((full @ nm @ nl @ w @ nl) @ sheets_text dec es shared refs)" "valid_utf8 (sink_b out')"
          "sink_max out' = sink_max out" using t by auto
      show ?thesis
      proof (cases e)
        case None
        then show ?thesis using ih pt f by (simp add: ref)
      next
        case (Some m)
        then have full: "sink_full o1" using t False by (cases st) (auto split: parse_stop.splits)
        then have "out' = o1" using run by (simp add: sheets_loop_full)
        then show ?thesis using t v1 pt f Some by (simp add: ref)
      qed
    qed
  qed
qed simp

definition xlsx_text :: "xml_dec \<Rightarrow> zip_entry list \<Rightarrow> zip_entry \<Rightarrow> string" where
  "xlsx_text dec es wb =
     (case (readSharedStrings dec es, readSheets dec es wb) of
        (Inr shared, Inr refs) \<Rightarrow> sheets_text dec es shared refs
      | _ \<Rightarrow> [])"

lemma xlsx_capped:
  assumes "dec_ok dec"
  shows "case extractXlsx unzip dec r fsize m of
      Inl e \<Rightarrow> True
    | Inr t \<Rightarrow> length t \<le> m \<and> clean_text t \<and>
        (\<exists>es wb. openPackage unzip r fsize = Inr es \<and> findPart es ''xl/workbook.xml'' = Some wb \<and>
           t = capped m (xlsx_text dec es wb))"
proof (cases "extractXlsx unzip dec r fsize m")
  case (Inr t)
  then obtain es wb shared refs out where x: "openPackage unzip r fsize = Inr es" "findPart es ''xl/workbook.xml'' = Some wb"
      "readSharedStrings dec es = Inr shared" "readSheets dec es wb = Inr refs"
      "sheets_loop dec es shared refs (sink_new m) = Inr out" "t = sink_text out"
    by (auto simp: extractXlsx_def split: sum.splits option.splits)
  have "holds_text out ([] @ sheets_text dec es shared refs)" "valid_utf8 (sink_b out)" "sink_max out = m"
    using sheets_loop_text [OF assms shared_valid [OF assms x(3)] readSheets_valid [OF assms x(4)] holds_new(1,2) x(5)]
    by (simp_all add: holds_new)
  then have "t = capped m (xlsx_text dec es wb)" "length t \<le> m"
    using holds_valid_text [of out] length_sink_text [of out] x by (simp_all add: capped_def xlsx_text_def)
  then show ?thesis using Inr x(1,2) by (auto simp: capped_def sink_text_clean)
qed simp

text \<open>C25: reading a Word, PowerPoint or Excel file up to a cap gives the beginning of the text the whole
  file has, cut at the cap on a rune boundary, whichever part or token the cap is reached in; it is valid
  UTF-8 without control runes and no longer than the cap.\<close>

theorem office_text_capped:
  assumes "dec_ok dec"
  shows "(case extractDocx unzip dec r fsize m of
      Inl e \<Rightarrow> True
    | Inr t \<Rightarrow> length t \<le> m \<and> clean_text t \<and>
        (\<exists>es main. openPackage unzip r fsize = Inr es \<and> findPart es ''word/document.xml'' = Some main \<and>
           t = capped m (docx_text dec es main))) \<and>
   (case extractPptx unzip dec r fsize m of
      Inl e \<Rightarrow> True
    | Inr t \<Rightarrow> length t \<le> m \<and> clean_text t \<and>
        (\<exists>es. openPackage unzip r fsize = Inr es \<and> t = capped m (pptx_text dec es))) \<and>
   (case extractXlsx unzip dec r fsize m of
      Inl e \<Rightarrow> True
    | Inr t \<Rightarrow> length t \<le> m \<and> clean_text t \<and>
        (\<exists>es wb. openPackage unzip r fsize = Inr es \<and> findPart es ''xl/workbook.xml'' = Some wb \<and>
           t = capped m (xlsx_text dec es wb)))"
  using docx_capped [OF assms] pptx_capped [OF assms] xlsx_capped [OF assms] by (intro conjI)

theorem office_text_capped_witness:
  "dec_ok example_dec \<and>
   (case extractDocx example_zip example_dec (file_read_at ''PK'') 2 12 of
      Inl e \<Rightarrow> False | Inr t \<Rightarrow> t = ''Dear all,'' @ nl @ nl @ ''s'' \<and> length t \<le> 12)"
proof -
  have d: "dec_ok example_dec"
    by (auto simp: dec_ok_def example_dec_def tok_ok_def para_toks_def run_toks_def ascii_valid)
  show ?thesis
    using office_text_capped [OF d, where unzip = example_zip and r = "file_read_at ''PK''" and fsize = 2 and m = 12] example_docx d
    by simp
qed

section \<open>What the text of a sheet is\<close>

text \<open>Cells as a writer lays them out: their type attribute, none for a number, and their content\<close>

definition cell_toks :: "string \<times> string \<Rightarrow> xtok list" where
  "cell_toks = (\<lambda>(ty, v).
     if ty = ''inlineStr''
     then [XStart ''c'' [(''t'', ty)], XStart ''is'' [], XStart ''t'' [], XChars v, XEnd ''t'', XEnd ''is'', XEnd ''c'']
     else [XStart ''c'' (if ty = [] then [] else [(''t'', ty)]), XStart ''v'' [], XChars v, XEnd ''v'', XEnd ''c''])"

definition row_toks :: "(string \<times> string) list \<Rightarrow> xtok list" where
  "row_toks cs = XStart ''row'' [] # concat (map cell_toks cs) @ [XEnd ''row'']"

definition row_texts :: "string list \<Rightarrow> (string \<times> string) list \<Rightarrow> string list" where
  "row_texts shared cs = filter (\<lambda>t. \<not> blank t) (map (\<lambda>(ty, v). cell_text shared ty v) cs)"

definition row_line :: "string list \<Rightarrow> (string \<times> string) list \<Rightarrow> string list" where
  "row_line shared cs = (let ts = row_texts shared cs in if ts = [] then [] else [join tab_char ts @ nl])"

definition between_cells :: "sheet_state \<Rightarrow> bool" where
  "between_cells s \<longleftrightarrow> \<not> ss_inV s \<and> \<not> ss_inIS s \<and> \<not> ss_inT s"

lemma no_skips [simp]: "\<not> skips [] t"
  by (simp add: skips_def split: xtok.split)

lemma cell_run:
  assumes "between_cells s"
  shows "\<exists>s'. between_cells s' \<and> ss_row s' = ss_row s @ row_texts shared [c] \<and>
    xml_text [] (sheet_step shared) err (cell_toks c @ rest) s = xml_text [] (sheet_step shared) err rest s'"
proof -
  obtain ty v where c: "c = (ty, v)" by fastforce
  let ?s = "\<lambda>r. s\<lparr>ss_type := ty, ss_inV := False, ss_inIS := False, ss_inT := False, ss_cell := v, ss_row := r\<rparr>"
  have f: "\<not> ss_inV s" "\<not> ss_inIS s" "\<not> ss_inT s" using assms by (simp_all add: between_cells_def)
  have "xml_text [] (sheet_step shared) err (cell_toks c @ rest) s =
      xml_text [] (sheet_step shared) err rest (?s (ss_row s @ row_texts shared [c]))"
    using f by (auto simp: c cell_toks_def sheet_step_def attr_def row_texts_def Let_def intro!: arg_cong [where f = "xml_text _ _ _ _"])
  then show ?thesis by (intro exI [of _ "?s (ss_row s @ row_texts shared [c])"]) (simp add: between_cells_def)
qed

lemma row_texts_Cons: "row_texts shared (c # cs) = row_texts shared [c] @ row_texts shared cs"
  by (simp add: row_texts_def)

lemma cells_run:
  assumes "between_cells s"
  shows "\<exists>s'. between_cells s' \<and> ss_row s' = ss_row s @ row_texts shared cs \<and>
    xml_text [] (sheet_step shared) err (concat (map cell_toks cs) @ rest) s = xml_text [] (sheet_step shared) err rest s'"
  using assms
proof (induction cs arbitrary: s)
  case Nil
  then show ?case by (intro exI [of _ s]) (simp add: row_texts_def)
next
  case (Cons c cs)
  obtain s1 where s1: "between_cells s1" "ss_row s1 = ss_row s @ row_texts shared [c]"
      "xml_text [] (sheet_step shared) err (cell_toks c @ concat (map cell_toks cs) @ rest) s =
       xml_text [] (sheet_step shared) err (concat (map cell_toks cs) @ rest) s1"
    using cell_run [OF Cons.prems] by blast
  obtain s2 where "between_cells s2" "ss_row s2 = ss_row s1 @ row_texts shared cs"
      "xml_text [] (sheet_step shared) err (concat (map cell_toks cs) @ rest) s1 = xml_text [] (sheet_step shared) err rest s2"
    using Cons.IH [OF s1(1)] by blast
  then show ?case using s1 row_texts_Cons [of shared c cs] by (intro exI [of _ s2]) simp
qed

lemma row_run:
  assumes "between_cells s"
  shows "\<exists>s'. between_cells s' \<and> xml_text [] (sheet_step shared) err (row_toks cs @ rest) s =
    (case xml_text [] (sheet_step shared) err rest s' of (ws, e) \<Rightarrow> (row_line shared cs @ ws, e))"
proof -
  let ?s = "s\<lparr>ss_row := []\<rparr>"
  have "between_cells ?s" using assms by (simp add: between_cells_def)
  from cells_run [OF this] obtain s' where s': "between_cells s'" "ss_row s' = row_texts shared cs"
      "xml_text [] (sheet_step shared) err (concat (map cell_toks cs) @ XEnd ''row'' # rest) ?s =
       xml_text [] (sheet_step shared) err (XEnd ''row'' # rest) s'"
    by fastforce
  have "xml_text [] (sheet_step shared) err (row_toks cs @ rest) s =
      xml_text [] (sheet_step shared) err (concat (map cell_toks cs) @ XEnd ''row'' # rest) ?s"
    by (simp add: row_toks_def sheet_step_def)
  then show ?thesis using s' by (intro exI [of _ s']) (simp add: sheet_step_def row_line_def Let_def)
qed

lemma rows_run:
  "between_cells s \<Longrightarrow>
   xml_text [] (sheet_step shared) err (concat (map row_toks rows)) s = (concat (map (row_line shared) rows), err)"
proof (induction rows arbitrary: s)
  case (Cons r rows)
  obtain s' where "between_cells s'" "xml_text [] (sheet_step shared) err (row_toks r @ concat (map row_toks rows)) s =
      (case xml_text [] (sheet_step shared) err (concat (map row_toks rows)) s' of (ws, e) \<Rightarrow> (row_line shared r @ ws, e))"
    using row_run [OF Cons.prems] by blast
  then show ?case using Cons.IH by simp
qed simp

text \<open>A shared string: its runs, then phonetic runs\<close>

definition si_toks :: "string list \<times> xtok list \<Rightarrow> xtok list" where
  "si_toks = (\<lambda>(rs, ph). XStart ''si'' [] # concat (map run_toks rs) @ XStart ''rPh'' [] # ph @ [XEnd ''rPh'', XEnd ''si''])"

fun kept_strings :: "nat \<Rightarrow> string list \<Rightarrow> string list" where
  "kept_strings k [] = []"
| "kept_strings k (x # xs) =
     (if maxSharedText < k + length x then [] # kept_strings k xs else x # kept_strings (k + length x) xs)"

lemma shared_runs:
  "\<not> sh_inT s \<Longrightarrow> xml_text phonetic shared_step err (concat (map run_toks rs) @ rest) s =
     xml_text phonetic shared_step err rest (s\<lparr>sh_cur := sh_cur s @ concat rs\<rparr>)"
proof (induction rs arbitrary: s)
  case (Cons r rs)
  have f: "\<not> skips phonetic (XStart ''r'' [])" "\<not> skips phonetic (XStart ''t'' [])" "\<not> skips phonetic (XChars r)"
      "\<not> skips phonetic (XEnd n)" for n
    by (simp_all add: skips_def phonetic_def)
  have "xml_text phonetic shared_step err (run_toks r @ concat (map run_toks rs) @ rest) s =
      xml_text phonetic shared_step err (concat (map run_toks rs) @ rest) (s\<lparr>sh_cur := sh_cur s @ r, sh_inT := False\<rparr>)"
    using Cons.prems by (simp add: run_toks_def f) (simp add: shared_step_def)
  moreover have "s\<lparr>sh_cur := x, sh_inT := False\<rparr> = s\<lparr>sh_cur := x\<rparr>" for x using Cons.prems by (cases s) simp
  ultimately show ?case using Cons.IH [of "s\<lparr>sh_cur := sh_cur s @ r\<rparr>"] Cons.prems by simp
qed simp

lemma si_run:
  assumes "balanced 0 ph" "\<not> sh_inT s" "sh_cur s = []"
  shows "xml_text phonetic shared_step err (si_toks (rs, ph) @ rest) s =
    (let x = (if maxSharedText < sh_kept s + length (concat rs) then [] else concat rs)
     in case xml_text phonetic shared_step err rest (s\<lparr>sh_kept := sh_kept s + length x\<rparr>) of (ws, e) \<Rightarrow> (x # ws, e))"
proof -
  have f: "\<not> skips phonetic (XStart ''si'' [])" "\<not> skips phonetic (XEnd n)" "skips phonetic (XStart ''rPh'' [])" for n
    by (simp_all add: skips_def phonetic_def)
  have sk: "skip_el 0 (ph @ XEnd ''rPh'' # XEnd ''si'' # rest) = Some (XEnd ''si'' # rest)"
    by (rule skip_balanced [OF assms(1)])
  have "xml_text phonetic shared_step err (si_toks (rs, ph) @ rest) s =
      xml_text phonetic shared_step err (concat (map run_toks rs) @ XStart ''rPh'' [] # ph @ XEnd ''rPh'' # XEnd ''si'' # rest) s"
    by (simp add: si_toks_def f) (simp add: shared_step_def)
  also have "\<dots> = xml_text phonetic shared_step err (XEnd ''si'' # rest) (s\<lparr>sh_cur := concat rs\<rparr>)"
    using assms by (simp add: shared_runs f sk)
  also have "\<dots> = (let x = (if maxSharedText < sh_kept s + length (concat rs) then [] else concat rs)
     in case xml_text phonetic shared_step err rest (s\<lparr>sh_kept := sh_kept s + length x\<rparr>) of (ws, e) \<Rightarrow> (x # ws, e))"
  proof -
    have "s\<lparr>sh_cur := [], sh_kept := k\<rparr> = s\<lparr>sh_kept := k\<rparr>" for k using assms(3) by simp
    then show ?thesis by (simp add: f shared_step_def Let_def del: length_concat)
  qed
  finally show ?thesis .
qed

lemma si_runs:
  "list_all (balanced 0 \<circ> snd) sis \<Longrightarrow> \<not> sh_inT s \<Longrightarrow> sh_cur s = [] \<Longrightarrow>
   xml_text phonetic shared_step err (concat (map si_toks sis)) s = (kept_strings (sh_kept s) (map (concat \<circ> fst) sis), err)"
proof (induction sis arbitrary: s)
  case (Cons si sis)
  obtain rs ph where si: "si = (rs, ph)" by fastforce
  show ?case using Cons si_run [of ph s err rs "concat (map si_toks sis)"] by (simp add: si Let_def del: length_concat)
qed simp

lemma kept_strings_aligned:
  "list_all2 (\<lambda>x y. x = y \<or> x = []) (kept_strings k xs) xs \<and>
   (maxSharedText < k + sum_list (map length xs) \<or> kept_strings k xs = xs)"
proof (induction xs arbitrary: k)
  case (Cons x xs)
  from Cons.IH [of "k + length x"] Cons.IH [of k] show ?case by (auto simp: add.assoc)
qed simp



section \<open>What the loops miss\<close>

text \<open>The sheet's name is written before the sheet is read, so a workbook whose only sheet is damaged is
  not reported as damaged: its text is the sheet's name.\<close>

definition damaged_dec :: xml_dec where
  "damaged_dec = (\<lambda>(s, e).
     if s = ''book'' then ([XStart ''sheet'' [(''name'', ''Sheet1''), (''id'', ''rId1'')], XEnd ''sheet''], None)
     else if s = ''rels'' then ([XStart ''Relationship'' [(''Id'', ''rId1''), (''Target'', ''worksheets/sheet1.xml'')]], None)
     else ([], Some ''syntax error''))"

definition damaged_zip :: unzip where
  "damaged_zip r n = Inr [\<lparr>ze_name = ''xl/workbook.xml'', ze_data = Inr (''book'', EOF)\<rparr>,
     \<lparr>ze_name = ''xl/_rels/workbook.xml.rels'', ze_data = Inr (''rels'', EOF)\<rparr>,
     \<lparr>ze_name = ''xl/worksheets/sheet1.xml'', ze_data = Inr (''bad'', EOF)\<rparr>]"

lemma damaged_sheet_unreported:
  "extractXlsx damaged_zip damaged_dec (file_read_at ''PK'') 2 100 = Inr (''Sheet1'' @ nl)"
  by code_simp

text \<open>Phonetic runs are skipped in shared strings but not in inline ones.\<close>

lemma inline_phonetic_kept:
  "fst (xml_text [] (sheet_step []) None
     [XStart ''row'' [], XStart ''c'' [(''t'', ''inlineStr'')], XStart ''is'' [], XStart ''t'' [], XChars ''kanji'', XEnd ''t'',
      XStart ''rPh'' [], XStart ''t'' [], XChars ''kana'', XEnd ''t'', XEnd ''rPh'', XEnd ''is'', XEnd ''c'', XEnd ''row''] sheet_init) =
   [''kanjikana'' @ nl]"
  by code_simp

end
