(* ===== verification/Protobuf.thy ===== *)
theory Protobuf
  imports Ooxml
begin

text \<open>
  The message layer of iWork archives (internal/extract/iwork.go): \<open>eachField\<close>, \<open>readIWA\<close> and
  \<open>walkArchive\<close>. The packages protowire and snappy are third-party code and parameters: \<open>wire\<close> and
  \<open>snappy\<close> hold the functions the code calls, and \<open>wire_ok\<close> what their documentation promises. A call
  that consumes nothing would make the code loop; the model stops there with an error no decoder that
  keeps \<open>wire_ok\<close> reaches. The closures of the code are functions on an explicit state.
\<close>

section \<open>The packages\<close>

datatype wire_type = VarintType | BytesType | Fixed32Type | Fixed64Type | OtherType

record wire =
  consume_varint :: "string \<Rightarrow> nat \<times> int"
  consume_tag :: "string \<Rightarrow> nat \<times> wire_type \<times> int"
  consume_bytes :: "string \<Rightarrow> string \<times> int"

record snappy =
  decoded_len :: "string \<Rightarrow> string + nat"
  snappy_decode :: "string \<Rightarrow> string + string"

text \<open>A call that succeeds consumes at least one byte and not more than there are.\<close>

definition wire_ok :: "wire \<Rightarrow> bool" where
  "wire_ok w \<longleftrightarrow>
     (\<forall>b n k. consume_varint w b = (n, k) \<longrightarrow> k < 0 \<or> 0 < k \<and> k \<le> int (length b)) \<and>
     (\<forall>b n t k. consume_tag w b = (n, t, k) \<longrightarrow> k < 0 \<or> 0 < k \<and> k \<le> int (length b)) \<and>
     (\<forall>b v k. consume_bytes w b = (v, k) \<longrightarrow> k < 0 \<or> 0 < k \<and> k \<le> int (length b))"

section \<open>\<open>eachField\<close>\<close>

record field =
  f_num :: nat
  f_x :: nat
  f_v :: "string option"

definition no_progress :: string where "no_progress = ''decoder made no progress''"

text \<open>The value after a tag: the varint, the bytes, and how much was consumed\<close>

definition field_value :: "wire \<Rightarrow> wire_type \<Rightarrow> string \<Rightarrow> (nat \<times> string option \<times> int) option" where
  "field_value w t b =
     (case t of
        VarintType \<Rightarrow> (case consume_varint w b of (x, k) \<Rightarrow> Some (x, None, k))
      | BytesType \<Rightarrow> (case consume_bytes w b of (v, k) \<Rightarrow> Some (0, Some v, k))
      | Fixed32Type \<Rightarrow> Some (0, None, 4)
      | Fixed64Type \<Rightarrow> Some (0, None, 8)
      | OtherType \<Rightarrow> None)"

definition next_field :: "wire \<Rightarrow> string \<Rightarrow> string + (field \<times> string)" where
  "next_field w b =
     (case consume_tag w b of
        (num, t, k) \<Rightarrow>
          (if k < 0 then Inl ''malformed protobuf tag''
           else let b = drop (nat k) b
                in case field_value w t b of
                     None \<Rightarrow> Inl ''unsupported protobuf wire type''
                   | Some (x, v, k) \<Rightarrow>
                       (if k < 0 \<or> int (length b) < k then Inl ''malformed protobuf field''
                        else Inr (\<lparr>f_num = num, f_x = x, f_v = v\<rparr>, drop (nat k) b))))"

text \<open>The fields of a message up to the first malformed one, and the error that ends them\<close>

function parse_fields :: "wire \<Rightarrow> string \<Rightarrow> field list \<times> string option" where
  "parse_fields w b =
     (if b = [] then ([], None)
      else case next_field w b of
             Inl e \<Rightarrow> ([], Some e)
           | Inr (f, rest) \<Rightarrow>
               (if length rest < length b then (case parse_fields w rest of (fs, e) \<Rightarrow> (f # fs, e))
                else ([], Some no_progress)))"
  by pat_completeness auto
termination
  by (relation "measure (\<lambda>(w, b). length b)") auto

declare parse_fields.simps [simp del]

text \<open>The callback, which may end the walk with an error\<close>

type_synonym 's callback = "'s \<Rightarrow> string option \<times> 's"

fun fold_fields :: "(field \<Rightarrow> 's callback) \<Rightarrow> field list \<Rightarrow> string option \<Rightarrow> 's callback" where
  "fold_fields fn [] e s = (e, s)"
| "fold_fields fn (f # fs) e s =
     (case fn f s of
        (Some e', s') \<Rightarrow> (Some e', s')
      | (None, s') \<Rightarrow> fold_fields fn fs e s')"

definition eachField :: "wire \<Rightarrow> string \<Rightarrow> (field \<Rightarrow> 's callback) \<Rightarrow> 's callback" where
  "eachField w b fn s = (case parse_fields w b of (fs, e) \<Rightarrow> fold_fields fn fs e s)"

section \<open>\<open>readIWA\<close>\<close>

definition maxIWAChunk :: nat where "maxIWAChunk = 2 ^ 20"
definition maxIWABytes :: nat where "maxIWABytes = 64 * 2 ^ 20"

definition chunk_len :: "string \<Rightarrow> nat" where
  "chunk_len hdr = bval (hdr ! 1) + 256 * bval (hdr ! 2) + 65536 * bval (hdr ! 3)"

function read_iwa :: "snappy \<Rightarrow> io_err \<Rightarrow> string \<Rightarrow> string \<Rightarrow> string + string" where
  "read_iwa sn ending out data =
     (let hdr = take 4 data; rest = drop 4 data; n = chunk_len hdr; comp = take n rest
      in if data = [] \<and> ending = EOF then Inr out
         else if length hdr < 4 then Inl ''truncated chunk header''
         else if hd hdr \<noteq> CHR 0x00 then Inl ''not an iWork archive chunk''
         else if maxIWAChunk < n then Inl ''chunk exceeds the limit''
         else if length comp < n then Inl ''truncated chunk''
         else case decoded_len sn comp of
                Inl e \<Rightarrow> Inl e
              | Inr dn \<Rightarrow>
                  (if maxIWAChunk < dn \<or> maxIWABytes < length out + dn then Inl ''part exceeds the decompressed size limit''
                   else case snappy_decode sn comp of
                          Inl e \<Rightarrow> Inl e
                        | Inr d \<Rightarrow> read_iwa sn ending (out @ d) (drop n rest)))"
  by pat_completeness auto
termination
  by (relation "measure (\<lambda>(sn, ending, out, data). length data)") auto

declare read_iwa.simps [simp del]

definition readIWA :: "snappy \<Rightarrow> zip_entry \<Rightarrow> string + string" where
  "readIWA sn f =
     (case openPart f of
        Inl e \<Rightarrow> Inl e
      | Inr (data, ending) \<Rightarrow> read_iwa sn ending [] data)"

section \<open>\<open>walkArchive\<close>\<close>

type_synonym 's message_func = "nat \<Rightarrow> nat \<Rightarrow> string \<Rightarrow> 's callback"

text \<open>The object id of an \<open>ArchiveInfo\<close>: its last field 1, whatever follows\<close>

definition archive_id :: "wire \<Rightarrow> string \<Rightarrow> nat" where
  "archive_id w info = snd (eachField w info (\<lambda>f i. (None, if f_num f = 1 then f_x f else i)) 0)"

text \<open>A \<open>MessageInfo\<close>: type and length of a payload\<close>

definition message_info :: "wire \<Rightarrow> string \<Rightarrow> string option \<times> (nat \<times> nat)" where
  "message_info w v =
     eachField w v (\<lambda>f (ty, len). (None, if f_num f = 1 then (f_x f, len) else if f_num f = 3 then (ty, f_x f) else (ty, len)))
       (0, 0)"

definition bytes_of :: "field \<Rightarrow> string" where
  "bytes_of f = (case f_v f of None \<Rightarrow> [] | Some v \<Rightarrow> v)"

text \<open>One field of an \<open>ArchiveInfo\<close>; the payloads still to come are part of the state\<close>

definition info_field :: "wire \<Rightarrow> nat \<Rightarrow> 's message_func \<Rightarrow> field \<Rightarrow> (string \<times> 's) callback" where
  "info_field w i handle f bs =
     (case bs of (b, s) \<Rightarrow>
       (if f_num f \<noteq> 2 then (None, (b, s))
        else case message_info w (bytes_of f) of
               (Some e, _) \<Rightarrow> (Some e, (b, s))
             | (None, (ty, len)) \<Rightarrow>
                 (if length b < len then (Some ''message length exceeds the archive'', (b, s))
                  else case handle i ty (take len b) s of (e, s') \<Rightarrow> (e, (drop len b, s')))))"

lemma info_field_shrinks: "info_field w i handle f (b, s) = (e, (b', s')) \<Longrightarrow> length b' \<le> length b"
  by (auto simp: info_field_def split: if_splits option.splits prod.splits)

lemma fold_fields_shrinks:
  "fold_fields (info_field w i handle) fs e (b, s) = (e', (b', s')) \<Longrightarrow> length b' \<le> length b"
proof (induction fs arbitrary: b s)
  case (Cons f fs)
  obtain e1 b1 s1 where f: "info_field w i handle f (b, s) = (e1, (b1, s1))" by (metis prod.collapse)
  then show ?case using Cons info_field_shrinks [OF f] by (cases e1) (auto intro: le_trans)
qed simp

lemma each_info_shrinks:
  "eachField w info (info_field w i handle) (b, s) = (e, (b', s')) \<Longrightarrow> length b' \<le> length b"
  by (auto simp: eachField_def split: prod.splits dest!: fold_fields_shrinks)

function walkArchive :: "wire \<Rightarrow> 's message_func \<Rightarrow> string \<Rightarrow> 's callback" where
  "walkArchive w handle b s =
     (if b = [] then (None, s)
      else case consume_varint w b of
             (n, k) \<Rightarrow>
               (if k < 0 \<or> int (length b) - k < int n then (Some ''bad archive header length'', s)
                else if k = 0 then (Some no_progress, s)
                else
                  (let info = take n (drop (nat k) b);
                       b' = drop (nat k + n) b
                   in case eachField w info (info_field w (archive_id w info) handle) (b', s) of
                        (Some e, (_, s')) \<Rightarrow> (Some e, s')
                      | (None, (b'', s')) \<Rightarrow> walkArchive w handle b'' s')))"
  by pat_completeness auto
termination
  apply (relation "measure (\<lambda>(w, handle, b, s). length b)")
   apply simp
  apply (auto dest!: each_info_shrinks [OF sym])
  done

declare walkArchive.simps [simp del]

section \<open>Progress and bounds\<close>

lemma next_field_progress: "wire_ok w \<Longrightarrow> b \<noteq> [] \<Longrightarrow> next_field w b = Inr (f, rest) \<Longrightarrow> length rest < length b"
proof -
  assume w: "wire_ok w" and b: "b \<noteq> []" and n: "next_field w b = Inr (f, rest)"
  obtain num t k where tag: "consume_tag w b = (num, t, k)" by (metis prod_cases3)
  then have "\<not> k < 0" using n by (auto simp: next_field_def)
  moreover have "k < 0 \<or> 0 < k \<and> k \<le> int (length b)" using w tag unfolding wire_ok_def by blast
  ultimately have "0 < k" "k \<le> int (length b)" by auto
  moreover obtain k' where "rest = drop (nat k') (drop (nat k) b)"
    using n tag \<open>\<not> k < 0\<close> by (auto simp: next_field_def Let_def split: option.splits prod.splits if_splits)
  ultimately show ?thesis using b by simp
qed

lemma next_field_error: "next_field w b \<noteq> Inl no_progress"
  by (auto simp: next_field_def no_progress_def Let_def split: option.splits prod.splits)

lemma fields_progress: "wire_ok w \<Longrightarrow> snd (parse_fields w b) \<noteq> Some no_progress"
proof (induction w b rule: parse_fields.induct)
  case (1 w b)
  show ?case
  proof (cases "next_field w b")
    case (Inl e)
    then show ?thesis using next_field_error [of w b] by (subst parse_fields.simps) auto
  next
    case (Inr fr)
    obtain f rest where fr: "fr = (f, rest)" by fastforce
    show ?thesis
    proof (cases "b = []")
      case False
      have l: "length rest < length b" using next_field_progress [OF 1(2) False] Inr fr by simp
      have "snd (parse_fields w rest) \<noteq> Some no_progress" using 1(1) [OF False Inr _ l 1(2)] fr by simp
      then show ?thesis using Inr fr l False by (subst parse_fields.simps) (auto split: prod.splits)
    qed (simp add: parse_fields.simps)
  qed
qed

definition snappy_ok :: "snappy \<Rightarrow> bool" where
  "snappy_ok sn \<longleftrightarrow> (\<forall>c n d. decoded_len sn c = Inr n \<longrightarrow> snappy_decode sn c = Inr d \<longrightarrow> length d = n)"

lemma read_iwa_bound:
  "snappy_ok sn \<Longrightarrow> length out \<le> maxIWABytes \<Longrightarrow> read_iwa sn ending out data = Inr res \<Longrightarrow> length res \<le> maxIWABytes"
proof (induction sn ending out data rule: read_iwa.induct)
  case (1 sn ending out data)
  let ?c = "take (chunk_len (take 4 data)) (drop 4 data)"
  note run = 1(4) [unfolded read_iwa.simps [of sn ending out data] Let_def]
  show ?case
  proof (cases "data = [] \<and> ending = EOF")
    case False
    then obtain dn d where d: "decoded_len sn ?c = Inr dn" "snappy_decode sn ?c = Inr d" "length out + dn \<le> maxIWABytes"
        "read_iwa sn ending (out @ d) (drop (chunk_len (take 4 data)) (drop 4 data)) = Inr res"
      using run by (auto split: if_splits sum.splits simp: not_less)
    have "length d = dn" using 1(2) d(1,2) unfolding snappy_ok_def by blast
    then have l: "length (out @ d) \<le> maxIWABytes" using d(3) by simp
    show ?thesis using 1(1) [OF refl refl refl refl False] run d l 1(2) False
      by (auto split: if_splits)
  qed (use run 1(3) in simp)
qed

text \<open>A chunk as Apple writes it\<close>

definition chunk_bytes :: "string \<Rightarrow> string" where
  "chunk_bytes c = [CHR 0x00, char_of (length c mod 256), char_of (length c div 256 mod 256), char_of (length c div 65536)] @ c"

lemma chunk_len_bytes: "length c \<le> maxIWAChunk \<Longrightarrow> chunk_len (take 4 (chunk_bytes c @ r)) = length c"
proof -
  assume "length c \<le> maxIWAChunk"
  then have "length c div 65536 < 256" by (simp add: maxIWAChunk_def)
  moreover have "length c mod 256 + 256 * (length c div 256 mod 256) + 65536 * (length c div 65536) = length c"
  proof -
    have a: "x * 256 + y = q \<Longrightarrow> q * 256 + r = a \<Longrightarrow> r + 256 * y + 65536 * x = a" for x y q r a :: nat by linarith
    have "length c div 65536 = length c div 256 div 256" by (simp add: div_mult2_eq [symmetric])
    then show ?thesis by (simp only:) (rule a [OF div_mult_mod_eq div_mult_mod_eq])
  qed
  ultimately show ?thesis by (simp add: chunk_len_def chunk_bytes_def)
qed

lemma read_iwa_chunks:
  assumes "list_all (\<lambda>(c, d). length c \<le> maxIWAChunk \<and> length d \<le> maxIWAChunk \<and>
      decoded_len sn c = Inr (length d) \<and> snappy_decode sn c = Inr d) cds"
    and "length out + sum_list (map (length \<circ> snd) cds) \<le> maxIWABytes"
  shows "read_iwa sn EOF out (concat (map (chunk_bytes \<circ> fst) cds)) = Inr (out @ concat (map snd cds))"
  using assms
proof (induction cds arbitrary: out)
  case Nil
  then show ?case by (simp add: read_iwa.simps)
next
  case (Cons cd cds)
  obtain c d where cd: "cd = (c, d)" by fastforce
  let ?r = "concat (map (chunk_bytes \<circ> fst) cds)"
  have p: "length c \<le> maxIWAChunk" "length d \<le> maxIWAChunk" "decoded_len sn c = Inr (length d)" "snappy_decode sn c = Inr d"
    using Cons.prems(1) by (simp_all add: cd)
  have h: "take 4 (chunk_bytes c @ ?r) = take 4 (chunk_bytes c)" "drop 4 (chunk_bytes c @ ?r) = c @ ?r"
      "hd (take 4 (chunk_bytes c)) = CHR 0x00" "length (take 4 (chunk_bytes c)) = 4" "chunk_bytes c \<noteq> []"
    by (simp_all add: chunk_bytes_def)
  have n: "chunk_len (take 4 (chunk_bytes c)) = length c" using chunk_len_bytes [OF p(1), of ?r] h by simp
  have "read_iwa sn EOF out (chunk_bytes c @ ?r) = read_iwa sn EOF (out @ d) ?r"
    using p h n Cons.prems(2) by (subst read_iwa.simps) (simp add: Let_def cd)
  moreover have "read_iwa sn EOF (out @ d) ?r = Inr ((out @ d) @ concat (map snd cds))"
    by (rule Cons.IH) (use Cons.prems in \<open>simp_all add: cd\<close>)
  ultimately show ?case by (simp add: cd o_def)
qed

section \<open>The wire format\<close>

text \<open>The contract of an encoder for what the decoder reads, for fields of the two kinds the code looks at\<close>

locale wire_codec =
  fixes w :: wire and ev :: "nat \<Rightarrow> string" and et :: "nat \<Rightarrow> wire_type \<Rightarrow> string" and eb :: "string \<Rightarrow> string"
  assumes ev_ne: "ev n \<noteq> []" and et_ne: "et n t \<noteq> []" and eb_ne: "eb v \<noteq> []"
    and varint: "n < 2 ^ 64 \<Longrightarrow> consume_varint w (ev n @ r) = (n, int (length (ev n)))"
    and tag: "1 \<le> n \<Longrightarrow> n < 2 ^ 29 \<Longrightarrow> t = VarintType \<or> t = BytesType \<Longrightarrow>
      consume_tag w (et n t @ r) = (n, t, int (length (et n t)))"
    and bytes: "length v < 2 ^ 63 \<Longrightarrow> consume_bytes w (eb v @ r) = (v, int (length (eb v)))"
begin

end

datatype fld = FVar nat nat | FBytes nat string

definition fld_ok :: "fld \<Rightarrow> bool" where
  "fld_ok f = (case f of FVar n x \<Rightarrow> 1 \<le> n \<and> n < 2 ^ 29 \<and> x < 2 ^ 64 | FBytes n v \<Rightarrow> 1 \<le> n \<and> n < 2 ^ 29 \<and> length v < 2 ^ 63)"

definition fld_of :: "fld \<Rightarrow> field" where
  "fld_of f = (case f of FVar n x \<Rightarrow> \<lparr>f_num = n, f_x = x, f_v = None\<rparr> | FBytes n v \<Rightarrow> \<lparr>f_num = n, f_x = 0, f_v = Some v\<rparr>)"

definition enc_fld :: "(nat \<Rightarrow> string) \<Rightarrow> (nat \<Rightarrow> wire_type \<Rightarrow> string) \<Rightarrow> (string \<Rightarrow> string) \<Rightarrow> fld \<Rightarrow> string" where
  "enc_fld ev et eb f =
     (case f of FVar n x \<Rightarrow> et n VarintType @ ev x | FBytes n v \<Rightarrow> et n BytesType @ eb v)"

definition enc_msg :: "(nat \<Rightarrow> string) \<Rightarrow> (nat \<Rightarrow> wire_type \<Rightarrow> string) \<Rightarrow> (string \<Rightarrow> string) \<Rightarrow> fld list \<Rightarrow> string" where
  "enc_msg ev et eb fs = concat (map (enc_fld ev et eb) fs)"

definition enc_info :: "(nat \<Rightarrow> string) \<Rightarrow> (nat \<Rightarrow> wire_type \<Rightarrow> string) \<Rightarrow> (string \<Rightarrow> string) \<Rightarrow> nat \<times> string \<Rightarrow> string" where
  "enc_info ev et eb = (\<lambda>(ty, p). enc_msg ev et eb [FVar 1 ty, FVar 3 (length p)])"

text \<open>An archive: an object id, and its messages with their types\<close>

type_synonym archive = "nat \<times> (nat \<times> string) list"

definition enc_archive :: "(nat \<Rightarrow> string) \<Rightarrow> (nat \<Rightarrow> wire_type \<Rightarrow> string) \<Rightarrow> (string \<Rightarrow> string) \<Rightarrow> archive \<Rightarrow> string" where
  "enc_archive ev et eb = (\<lambda>(i, ms).
     let info = enc_msg ev et eb (FVar 1 i # map (\<lambda>m. FBytes 2 (enc_info ev et eb m)) ms)
     in ev (length info) @ info @ concat (map snd ms))"

definition archive_ok :: "(nat \<Rightarrow> string) \<Rightarrow> (nat \<Rightarrow> wire_type \<Rightarrow> string) \<Rightarrow> (string \<Rightarrow> string) \<Rightarrow> archive \<Rightarrow> bool" where
  "archive_ok ev et eb = (\<lambda>(i, ms). i < 2 ^ 64 \<and> list_all (\<lambda>(ty, p). ty < 2 ^ 64 \<and> length p < 2 ^ 64 \<and>
       length (enc_info ev et eb (ty, p)) < 2 ^ 63) ms \<and>
     length (enc_msg ev et eb (FVar 1 i # map (\<lambda>m. FBytes 2 (enc_info ev et eb m)) ms)) < 2 ^ 64)"

text \<open>The messages handed on one after the other, until one fails\<close>

fun deliver :: "'s message_func \<Rightarrow> nat \<Rightarrow> (nat \<times> string) list \<Rightarrow> 's callback" where
  "deliver handle i [] s = (None, s)"
| "deliver handle i ((ty, p) # ms) s =
     (case handle i ty p s of (Some e, s') \<Rightarrow> (Some e, s') | (None, s') \<Rightarrow> deliver handle i ms s')"

fun deliver_all :: "'s message_func \<Rightarrow> archive list \<Rightarrow> 's callback" where
  "deliver_all handle [] s = (None, s)"
| "deliver_all handle ((i, ms) # as) s =
     (case deliver handle i ms s of (Some e, s') \<Rightarrow> (Some e, s') | (None, s') \<Rightarrow> deliver_all handle as s')"

context wire_codec
begin

lemma next_field_enc:
  "fld_ok f \<Longrightarrow> next_field w (enc_fld ev et eb f @ r) = Inr (fld_of f, r)"
  by (cases f) (simp_all add: fld_ok_def enc_fld_def fld_of_def next_field_def field_value_def tag varint bytes Let_def)

lemma parse_enc_msg: "list_all fld_ok fs \<Longrightarrow> parse_fields w (enc_msg ev et eb fs) = (map fld_of fs, None)"
proof (induction fs)
  case Nil
  then show ?case by (simp add: enc_msg_def parse_fields.simps)
next
  case (Cons f fs)
  have ne: "enc_fld ev et eb f \<noteq> []" by (simp add: enc_fld_def et_ne split: fld.split)
  then show ?case using Cons next_field_enc [of f "enc_msg ev et eb fs"]
    by (subst parse_fields.simps) (simp add: enc_msg_def)
qed

lemma message_info_enc:
  "ty < 2 ^ 64 \<Longrightarrow> length p < 2 ^ 64 \<Longrightarrow> message_info w (enc_info ev et eb (ty, p)) = (None, (ty, length p))"
  by (simp add: message_info_def eachField_def parse_enc_msg fld_ok_def fld_of_def enc_info_def)

lemma infos_deliver:
  "list_all (\<lambda>(ty, p). ty < 2 ^ 64 \<and> length p < 2 ^ 64) ms \<Longrightarrow> deliver handle i ms s = (e, s') \<Longrightarrow>
   \<exists>b'. fold_fields (info_field w i handle) (map (\<lambda>m. fld_of (FBytes 2 (enc_info ev et eb m))) ms) None
      (concat (map snd ms) @ r, s) = (e, (b', s')) \<and> (e = None \<longrightarrow> b' = r)"
proof (induction ms arbitrary: s)
  case (Cons m ms)
  obtain ty p where m: "m = (ty, p)" by fastforce
  obtain e1 s1 where h: "handle i ty p s = (e1, s1)" by fastforce
  have step: "info_field w i handle (fld_of (FBytes 2 (enc_info ev et eb m))) (p @ concat (map snd ms) @ r, s) =
      (e1, (concat (map snd ms) @ r, s1))"
    using Cons.prems(1) by (simp add: m info_field_def fld_of_def bytes_of_def message_info_enc h)
  show ?case
  proof (cases e1)
    case None
    then have "deliver handle i ms s1 = (e, s')" using Cons.prems(2) by (simp add: m h)
    from Cons.IH [OF _ this] Cons.prems(1) show ?thesis using step None by (simp add: m)
  next
    case (Some x)
    then have "e = Some x" "s' = s1" using Cons.prems(2) by (simp_all add: m h)
    then show ?thesis using step Some by (simp add: m)
  qed
qed simp

lemma header_fields:
  assumes "archive_ok ev et eb (i, ms)"
  shows "list_all fld_ok (FVar 1 i # map (\<lambda>m. FBytes 2 (enc_info ev et eb m)) ms)"
  using assms by (auto simp: archive_ok_def fld_ok_def list_all_iff)

lemma header_deliver:
  assumes "archive_ok ev et eb (i, ms)" "deliver handle i ms s = (e, s')"
  shows "let info = enc_msg ev et eb (FVar 1 i # map (\<lambda>m. FBytes 2 (enc_info ev et eb m)) ms)
    in archive_id w info = i \<and> (\<exists>b'. eachField w info (info_field w i handle) (concat (map snd ms) @ r, s) = (e, (b', s')) \<and>
         (e = None \<longrightarrow> b' = r))"
proof -
  let ?fs = "FVar 1 i # map (\<lambda>m. FBytes 2 (enc_info ev et eb m)) ms"
  have p: "parse_fields w (enc_msg ev et eb ?fs) = (map fld_of ?fs, None)"
    by (rule parse_enc_msg [OF header_fields [OF assms(1)]])
  have keep: "fold_fields (\<lambda>f x. (None, if f_num f = 1 then f_x f else x)) (map (\<lambda>m. fld_of (FBytes 2 (enc_info ev et eb m))) ms) None x = (None, x)"
    for x by (induction ms) (simp_all add: fld_of_def)
  have "archive_id w (enc_msg ev et eb ?fs) = i"
    using keep unfolding archive_id_def eachField_def p by (simp add: o_def) (simp add: fld_of_def)
  moreover have "list_all (\<lambda>(ty, p). ty < 2 ^ 64 \<and> length p < 2 ^ 64) ms"
    using assms(1) by (auto simp: archive_ok_def list_all_iff)
  note infos_deliver [OF this assms(2), of r]
  moreover have "info_field w i handle (fld_of (FVar 1 i)) x = (None, x)" for x
    by (cases x) (simp add: info_field_def fld_of_def)
  ultimately show ?thesis unfolding eachField_def p Let_def by (simp add: o_def)
qed

lemma walk_enc_archives:
  "list_all (archive_ok ev et eb) as \<Longrightarrow>
   walkArchive w handle (concat (map (enc_archive ev et eb) as)) s = deliver_all handle as s"
proof (induction as arbitrary: s)
  case (Cons a as)
  obtain i ms where a: "a = (i, ms)" by fastforce
  let ?info = "enc_msg ev et eb (FVar 1 i # map (\<lambda>m. FBytes 2 (enc_info ev et eb m)) ms)"
  let ?r = "concat (map (enc_archive ev et eb) as)" and ?p = "concat (map snd ms)"
  obtain e s' where d: "deliver handle i ms s = (e, s')" by fastforce
  have ok: "archive_ok ev et eb (i, ms)" using Cons.prems by (simp add: a)
  obtain b' where h: "archive_id w ?info = i" "eachField w ?info (info_field w i handle) (?p @ ?r, s) = (e, (b', s'))"
      "e = None \<longrightarrow> b' = ?r"
    using header_deliver [OF ok d, of ?r] by (auto simp: Let_def)
  have len: "length ?info < 2 ^ 64" using ok by (simp add: archive_ok_def)
  have whole: "concat (map (enc_archive ev et eb) (a # as)) = ev (length ?info) @ ?info @ ?p @ ?r"
    by (simp add: a enc_archive_def Let_def)
  have v: "consume_varint w (ev (length ?info) @ ?info @ ?p @ ?r) = (length ?info, int (length (ev (length ?info))))"
    by (rule varint [OF len])
  have "walkArchive w handle (ev (length ?info) @ ?info @ ?p @ ?r) s =
      (case eachField w ?info (info_field w (archive_id w ?info) handle) (?p @ ?r, s) of
         (Some e, (_, s')) \<Rightarrow> (Some e, s')
       | (None, (b'', s')) \<Rightarrow> walkArchive w handle b'' s')"
    by (subst walkArchive.simps) (simp only: v, simp add: ev_ne Let_def)
  also have "\<dots> = deliver_all handle (a # as) s"
    using h Cons d by (cases e) (simp_all add: a)
  finally show ?case by (simp only: whole)
qed (simp add: walkArchive.simps)

end

section \<open>Base-128 varints keep the contract\<close>

fun leb_enc :: "nat \<Rightarrow> string" where
  "leb_enc n = (if n < 128 then [char_of n] else char_of (128 + n mod 128) # leb_enc (n div 128))"

declare leb_enc.simps [simp del]

fun leb_dec :: "nat \<Rightarrow> string \<Rightarrow> (nat \<times> nat) option" where
  "leb_dec 0 b = None"
| "leb_dec (Suc k) [] = None"
| "leb_dec (Suc k) (c # cs) =
     (if bval c < 128 then Some (bval c, 1)
      else case leb_dec k cs of None \<Rightarrow> None | Some (v, n) \<Rightarrow> Some (bval c - 128 + 128 * v, Suc n))"

definition leb_varint :: "string \<Rightarrow> nat \<times> int" where
  "leb_varint b =
     (case leb_dec 10 b of
        None \<Rightarrow> (0, - 1)
      | Some (v, n) \<Rightarrow> (if v < 2 ^ 64 then (v, int n) else (0, - 3)))"

definition type_code :: "wire_type \<Rightarrow> nat" where
  "type_code t = (case t of VarintType \<Rightarrow> 0 | Fixed64Type \<Rightarrow> 1 | BytesType \<Rightarrow> 2 | Fixed32Type \<Rightarrow> 5 | OtherType \<Rightarrow> 3)"

definition code_type :: "nat \<Rightarrow> wire_type" where
  "code_type n = (if n = 0 then VarintType else if n = 1 then Fixed64Type else if n = 2 then BytesType
     else if n = 5 then Fixed32Type else OtherType)"

definition leb_wire :: wire where
  "leb_wire = \<lparr>consume_varint = leb_varint,
     consume_tag = (\<lambda>b. case leb_varint b of (v, k) \<Rightarrow> (v div 8, code_type (v mod 8), k)),
     consume_bytes = (\<lambda>b. case leb_varint b of (v, k) \<Rightarrow>
       if k < 0 \<or> int (length b) - k < int v then ([], - 1) else (take v (drop (nat k) b), k + int v))\<rparr>"

lemma leb_roundtrip: "n < 128 ^ Suc k \<Longrightarrow> leb_dec (Suc k) (leb_enc n @ r) = Some (n, length (leb_enc n))"
proof (induction k arbitrary: n)
  case 0
  then show ?case by (simp add: leb_enc.simps [of n])
next
  case (Suc k)
  show ?case
  proof (cases "n < 128")
    case True
    then show ?thesis by (simp add: leb_enc.simps [of n])
  next
    case False
    have d: "n div 128 < 128 ^ Suc k" using Suc.prems by (simp add: less_mult_imp_div_less)
    have m: "bval (char_of (128 + n mod 128)) = 128 + n mod 128" by simp
    show ?thesis using Suc.IH [OF d] False m by (subst leb_enc.simps) (simp add: leb_enc.simps [of n])
  qed
qed

lemma leb_enc_ne: "leb_enc n \<noteq> []"
  by (simp add: leb_enc.simps [of n])

lemma leb_varint_enc: "n < 2 ^ 64 \<Longrightarrow> leb_varint (leb_enc n @ r) = (n, int (length (leb_enc n)))"
proof -
  assume n: "n < 2 ^ 64"
  have "(2::nat) ^ 64 \<le> 128 ^ Suc 9" by simp
  then have "n < 128 ^ Suc 9" using n by linarith
  from leb_roundtrip [OF this, of r] have "leb_dec 10 (leb_enc n @ r) = Some (n, length (leb_enc n))" by simp
  then show ?thesis using n by (simp add: leb_varint_def)
qed

lemma leb_dec_bounds: "leb_dec k b = Some (v, n) \<Longrightarrow> 0 < n \<and> n \<le> length b"
proof (induction k b arbitrary: v n rule: leb_dec.induct)
  case (3 k c cs)
  then show ?case by (fastforce split: if_splits option.splits)
qed simp_all

lemma leb_varint_bounds: "leb_varint b = (v, k) \<Longrightarrow> k < 0 \<or> 0 < k \<and> k \<le> int (length b)"
  using leb_dec_bounds [of 10 b] by (auto simp: leb_varint_def split: option.splits if_splits)

lemma leb_wire_ok: "wire_ok leb_wire"
  unfolding wire_ok_def
proof (intro conjI allI impI)
  fix b n k assume "consume_varint leb_wire b = (n, k)"
  then show "k < 0 \<or> 0 < k \<and> k \<le> int (length b)" using leb_varint_bounds by (simp add: leb_wire_def)
next
  fix b n t k assume "consume_tag leb_wire b = (n, t, k)"
  then show "k < 0 \<or> 0 < k \<and> k \<le> int (length b)" using leb_varint_bounds [of b]
    by (auto simp: leb_wire_def split: prod.splits)
next
  fix b v k assume "consume_bytes leb_wire b = (v, k)"
  then show "k < 0 \<or> 0 < k \<and> k \<le> int (length b)" using leb_varint_bounds [of b]
    by (auto simp: leb_wire_def split: prod.splits if_splits)
qed

definition leb_tag :: "nat \<Rightarrow> wire_type \<Rightarrow> string" where
  "leb_tag n t = leb_enc (8 * n + type_code t)"

definition leb_bytes :: "string \<Rightarrow> string" where
  "leb_bytes v = leb_enc (length v) @ v"

interpretation leb: wire_codec leb_wire leb_enc leb_tag leb_bytes
proof
  fix n :: nat and r assume "n < 2 ^ 64"
  then show "consume_varint leb_wire (leb_enc n @ r) = (n, int (length (leb_enc n)))"
    by (simp add: leb_wire_def leb_varint_enc)
next
  fix n :: nat and t r assume n: "n < 2 ^ 29" and t: "t = VarintType \<or> t = BytesType"
  have "8 * n + type_code t < 2 ^ 64" using n t by (auto simp: type_code_def)
  from leb_varint_enc [OF this, of r] t show "consume_tag leb_wire (leb_tag n t @ r) = (n, t, int (length (leb_tag n t)))"
    by (auto simp: leb_wire_def leb_tag_def type_code_def code_type_def)
next
  fix v r :: string assume "length v < 2 ^ 63"
  then have "length v < 2 ^ 64" by simp
  from leb_varint_enc [OF this, of "v @ r"] show "consume_bytes leb_wire (leb_bytes v @ r) = (v, int (length (leb_bytes v)))"
    by (simp add: leb_wire_def leb_bytes_def)
qed (simp_all add: leb_enc_ne leb_tag_def leb_bytes_def)

section \<open>The archive read back\<close>

text \<open>C24: an archive written in the chunk framing and the message layout of iWork files reads back: the
  chunks decode to the message stream, at most the limit long, and walking the stream hands every message
  of every object to the handler in order, with the object's id and the message's type, up to the first
  the handler refuses.\<close>

theorem archive_roundtrip:
  assumes "wire_codec w ev et eb"
    and "list_all (archive_ok ev et eb) as"
    and "concat (map snd cds) = concat (map (enc_archive ev et eb) as)"
    and "list_all (\<lambda>(c, d). length c \<le> maxIWAChunk \<and> length d \<le> maxIWAChunk \<and>
      decoded_len sn c = Inr (length d) \<and> snappy_decode sn c = Inr d) cds"
    and "sum_list (map (length \<circ> snd) cds) \<le> maxIWABytes"
  shows "case read_iwa sn EOF [] (concat (map (chunk_bytes \<circ> fst) cds)) of
      Inl e \<Rightarrow> False
    | Inr data \<Rightarrow> length data \<le> maxIWABytes \<and> walkArchive w handle data s = deliver_all handle as s"
proof -
  have "read_iwa sn EOF [] (concat (map (chunk_bytes \<circ> fst) cds)) = Inr (concat (map snd cds))"
    using read_iwa_chunks [OF assms(4), of "[]"] assms(5) by simp
  moreover have "length (concat (map snd cds)) \<le> maxIWABytes" using assms(5) by (simp add: length_concat o_def)
  moreover have "walkArchive w handle (concat (map snd cds)) s = deliver_all handle as s"
    unfolding assms(3) by (rule wire_codec.walk_enc_archives [OF assms(1,2)])
  ultimately show ?thesis by simp
qed

text \<open>A compressor that stores\<close>

definition stored_snappy :: snappy where
  "stored_snappy = \<lparr>decoded_len = (\<lambda>c. Inr (length c)), snappy_decode = Inr\<rparr>"

definition note_message :: "(nat \<times> nat \<times> string) list message_func" where
  "note_message i ty p s = (None, s @ [(i, ty, p)])"

theorem archive_roundtrip_witness:
  "(let as = [(7, [(2001, ''hello''), (5, [])]), (9, [(2001, ''world'')])];
        d = concat (map (enc_archive leb_enc leb_tag leb_bytes) as)
    in case read_iwa stored_snappy EOF [] (chunk_bytes (take 10 d) @ chunk_bytes (drop 10 d)) of
         Inl e \<Rightarrow> False
       | Inr data \<Rightarrow> walkArchive leb_wire note_message data [] = (None, [(7, 2001, ''hello''), (7, 5, []), (9, 2001, ''world'')]))"
proof -
  let ?as = "[(7, [(2001, ''hello''), (5, [])]), (9, [(2001, ''world'')])] :: archive list"
  let ?d = "concat (map (enc_archive leb_enc leb_tag leb_bytes) ?as)"
  let ?cds = "[(take 10 ?d, take 10 ?d), (drop 10 ?d, drop 10 ?d)]"
  have ok: "list_all (archive_ok leb_enc leb_tag leb_bytes) ?as"
    by code_simp
  have len: "length ?d = 36" by code_simp
  have two: "list_all (\<lambda>(c, d). length c \<le> maxIWAChunk \<and> length d \<le> maxIWAChunk \<and>
        decoded_len stored_snappy c = Inr (length d) \<and> snappy_decode stored_snappy c = Inr d)
        [(take 10 d, take 10 d), (drop 10 d, drop 10 d)] \<and>
      sum_list (map (length \<circ> snd) [(take 10 d, take 10 d), (drop 10 d, drop 10 d)]) \<le> maxIWABytes"
    if "length d = 36" for d :: string
    using that by (simp add: stored_snappy_def maxIWAChunk_def maxIWABytes_def)
  note c = two [OF len, THEN conjunct1] and sz = two [OF len, THEN conjunct2]
  have e: "concat (map snd ?cds) = ?d" by (simp only: list.map snd_conv concat.simps append_Nil2 append_take_drop_id)
  have r: "deliver_all note_message ?as [] = (None, [(7, 2001, ''hello''), (7, 5, []), (9, 2001, ''world'')])"
    by (simp add: note_message_def)
  have b: "concat (map (chunk_bytes \<circ> fst) ?cds) = chunk_bytes (take 10 ?d) @ chunk_bytes (drop 10 ?d)"
    by (simp only: list.map o_apply fst_conv concat.simps append_Nil2)
  show ?thesis unfolding Let_def b [symmetric]
    using archive_roundtrip [OF leb.wire_codec_axioms ok e c sz, of note_message "[]"] r by (auto split: sum.splits)
qed

end
