(* ===== verification/IWork.thy ===== *)
theory IWork
  imports Protobuf WordSlides PathNames "HOL-Library.List_Lexorder" "HOL-Library.Char_ord" "HOL-Library.AList"
begin

text \<open>
  Numbers, Pages and Keynote text (internal/extract/iwork.go, keynote.go): which messages hold text, how
  it is cleaned, which parts are read and in what order. An \<open>emit\<close> closure is a function on the state it
  writes to.
\<close>

section \<open>Message types\<close>

definition iwSheet :: nat where "iwSheet = 2"
definition iwText :: nat where "iwText = 2001"
definition iwComment :: nat where "iwComment = 3056"
definition iwTable :: nat where "iwTable = 6001"
definition iwDataList :: nat where "iwDataList = 6005"
definition iwStringLst :: nat where "iwStringLst = 1"
definition iwHeader :: nat where "iwHeader = 1"
definition iwNotes :: nat where "iwNotes = 4"
definition iwSlide :: nat where "iwSlide = 5"
definition iwShow :: nat where "iwShow = 2"
definition iwSlideNode :: nat where "iwSlideNode = 4"

type_synonym 's emitter = "string \<Rightarrow> 's \<Rightarrow> 's"

definition lineEmitter :: "sink emitter" where
  "lineEmitter s out = (if s \<noteq> [] \<and> valid_utf8 s then sink_write (sink_write out s) nl else out)"

definition emitAll :: "'s emitter \<Rightarrow> string list \<Rightarrow> 's \<Rightarrow> 's" where
  "emitAll emit ls s = fold emit ls s"

definition trimmed :: "'s emitter \<Rightarrow> 's emitter" where
  "trimmed emit s = emit (trim_space s)"

section \<open>Text in messages\<close>

definition stringField :: "wire \<Rightarrow> string \<Rightarrow> nat \<Rightarrow> 's emitter \<Rightarrow> 's callback" where
  "stringField w payload num emit =
     eachField w payload (\<lambda>f s. (None, if f_num f = num then (case f_v f of Some v \<Rightarrow> emit v s | None \<Rightarrow> s) else s))"

definition object_mark :: string where "object_mark = encode_rune 0xFFFC"

definition storage_fields :: "wire \<Rightarrow> string \<Rightarrow> string option \<times> (nat \<times> string)" where
  "storage_fields w payload =
     eachField w payload (\<lambda>f (kind, text).
       (None, if f_num f = 1 then (f_x f, text)
              else if f_num f = 3 then (kind, (if text \<noteq> [] then text @ nl else text) @ bytes_of f)
              else (kind, text)))
       (0, [])"

definition text_lines :: "string \<Rightarrow> string list" where
  "text_lines text =
     filter (\<lambda>l. l \<noteq> []) (map trim_space (split_on nl (replace_all object_mark [] (stripControls text))))"

definition storageLines :: "wire \<Rightarrow> string \<Rightarrow> nat \<times> string list \<times> string option" where
  "storageLines w payload =
     (case storage_fields w payload of
        (e, (kind, text)) \<Rightarrow>
          (if e \<noteq> None \<or> text = [] \<or> \<not> valid_utf8 text then (kind, [], e)
           else (kind, text_lines text, None)))"

text \<open>An entry of a string list: its text, unless no cell uses it any more\<close>

definition entry_fields :: "wire \<Rightarrow> string \<Rightarrow> string option \<times> (string option \<times> nat)" where
  "entry_fields w e =
     eachField w e (\<lambda>f (text, refs).
       (None, if f_num f = 2 then (text, f_x f) else if f_num f = 3 then (f_v f, refs) else (text, refs)))
       (None, 1)"

fun emit_entries :: "wire \<Rightarrow> 's emitter \<Rightarrow> string list \<Rightarrow> 's callback" where
  "emit_entries w emit [] s = (None, s)"
| "emit_entries w emit (e # es) s =
     (case entry_fields w e of
        (Some err, _) \<Rightarrow> (Some err, s)
      | (None, (text, refs)) \<Rightarrow>
          emit_entries w emit es (case text of Some v \<Rightarrow> if 0 < refs then emit v s else s | None \<Rightarrow> s))"

definition list_fields :: "wire \<Rightarrow> string \<Rightarrow> string option \<times> (nat \<times> string list)" where
  "list_fields w payload =
     eachField w payload (\<lambda>f (ty, es).
       (None, if f_num f = 1 then (f_x f, es) else if f_num f = 3 then (ty, es @ [bytes_of f]) else (ty, es)))
       (0, [])"

definition dataListText :: "wire \<Rightarrow> string \<Rightarrow> 's emitter \<Rightarrow> 's callback" where
  "dataListText w payload emit s =
     (case list_fields w payload of
        (Some e, _) \<Rightarrow> (Some e, s)
      | (None, (ty, es)) \<Rightarrow> (if ty \<noteq> iwStringLst then (None, s) else emit_entries w emit es s))"

definition numbersMessage :: "wire \<Rightarrow> 's emitter \<Rightarrow> 's message_func" where
  "numbersMessage w emit i ty payload s =
     (if ty = iwSheet then stringField w payload 1 emit s
      else if ty = iwTable then stringField w payload 8 emit s
      else if ty = iwDataList then dataListText w payload emit s
      else (None, s))"

definition pagesMessage :: "wire \<Rightarrow> 's emitter \<Rightarrow> 's message_func" where
  "pagesMessage w emit i ty payload s =
     (if ty = iwText then
        (case storageLines w payload of (kind, ls, e) \<Rightarrow> (e, if kind \<noteq> iwHeader then emitAll emit ls s else s))
      else if ty = iwComment then stringField w payload 1 (trimmed emit) s
      else if ty = iwTable then stringField w payload 8 emit s
      else if ty = iwDataList then dataListText w payload emit s
      else (None, s))"

section \<open>Parts\<close>

text \<open>\<open>^Index/Slide[^/]*\.iwa$\<close> and the like\<close>

definition iwa_part :: "string \<Rightarrow> string \<Rightarrow> bool" where
  "iwa_part pre nm \<longleftrightarrow>
     (let mid = take (length nm - length pre - 4) (drop (length pre) nm)
      in nm = pre @ mid @ ''.iwa'' \<and> sl \<notin> set mid)"

definition iwaDataListRe :: "string \<Rightarrow> bool" where "iwaDataListRe = iwa_part ''Index/Tables/DataList''"
definition iwaCalcRe :: "string \<Rightarrow> bool" where "iwaCalcRe = iwa_part ''Index/CalculationEngine''"
definition iwaSlideRe :: "string \<Rightarrow> bool" where "iwaSlideRe = iwa_part ''Index/Slide''"

definition tableParts :: "zip_entry list \<Rightarrow> zip_entry list" where
  "tableParts es =
     sort_key ze_name (filter (\<lambda>f. iwaCalcRe (ze_name f)) es) @
     sort_key ze_name (filter (\<lambda>f. \<not> iwaCalcRe (ze_name f) \<and> iwaDataListRe (ze_name f)) es)"

definition readMessages :: "wire \<Rightarrow> snappy \<Rightarrow> zip_entry \<Rightarrow> 's message_func \<Rightarrow> 's callback" where
  "readMessages w sn f handle s =
     (case readIWA sn f of Inl e \<Rightarrow> (Some e, s) | Inr data \<Rightarrow> walkArchive w handle data s)"

fun iwork_loop :: "wire \<Rightarrow> snappy \<Rightarrow> sink message_func \<Rightarrow> zip_entry list \<Rightarrow> sink \<times> string option \<Rightarrow> sink \<times> string option" where
  "iwork_loop w sn handle [] x = x"
| "iwork_loop w sn handle (f # fs) (out, firstErr) =
     (if sink_full out then (out, firstErr)
      else case readMessages w sn f handle out of
             (e, out) \<Rightarrow>
               iwork_loop w sn handle fs
                 (out, if firstErr = None then map_option (\<lambda>m. ze_name f @ '': '' @ m) e else firstErr))"

definition extractIWork ::
  "unzip \<Rightarrow> wire \<Rightarrow> snappy \<Rightarrow> string \<Rightarrow> sink message_func \<Rightarrow> read_at \<Rightarrow> nat \<Rightarrow> nat \<Rightarrow> extract_err + string" where
  "extractIWork unzip w sn app handle r fsize maxText =
     (case openPackage unzip r fsize of
        Inl e \<Rightarrow> Inl e
      | Inr es \<Rightarrow>
          (case findPart es ''Index/Document.iwa'' of
             None \<Rightarrow> Inl (ErrMsg (''not a '' @ app @ '' file: it has no Index/Document.iwa''))
           | Some doc \<Rightarrow>
               (case iwork_loop w sn handle (doc # tableParts es) (sink_new maxText, None) of
                  (out, firstErr) \<Rightarrow>
                    (if sink_b out = [] \<and> firstErr \<noteq> None then Inl (ErrMsg (the firstErr))
                     else Inr (sink_text out)))))"

definition extractNumbers where
  "extractNumbers unzip w sn = extractIWork unzip w sn ''Numbers'' (numbersMessage w lineEmitter)"

definition extractPages where
  "extractPages unzip w sn = extractIWork unzip w sn ''Pages'' (pagesMessage w lineEmitter)"

section \<open>Keynote\<close>

record slide =
  sl_id :: nat
  sl_text :: "string list"
  sl_notes :: "string list"

definition refID :: "wire \<Rightarrow> string \<Rightarrow> nat" where
  "refID w ref = snd (eachField w ref (\<lambda>f i. (None, if f_num f = 1 then f_x f else i)) 0)"

text \<open>The show's nodes in order, and the slide of each node\<close>

type_synonym show_state = "nat list \<times> (nat \<Rightarrow> nat)"

definition show_message :: "wire \<Rightarrow> show_state message_func" where
  "show_message w i ty payload st =
     (if ty = iwShow then
        eachField w payload (\<lambda>f st.
          if f_num f \<noteq> 3 then (None, st)
          else eachField w (bytes_of f) (\<lambda>g (nodes, slideOf).
            (None, if f_num g = 2 then (nodes @ [refID w (bytes_of g)], slideOf) else (nodes, slideOf))) st) st
      else if ty = iwSlideNode then
        eachField w payload (\<lambda>f (nodes, slideOf).
          (None, if f_num f = 2 then (nodes, slideOf(i := refID w (bytes_of f))) else (nodes, slideOf))) st
      else (None, st))"

text \<open>Slide ids with their position, later ones overriding, as an association list\<close>

definition slideOrder :: "wire \<Rightarrow> string \<Rightarrow> (nat \<times> nat) list" where
  "slideOrder w doc =
     (case walkArchive w (show_message w) doc ([], \<lambda>_. 0) of
        (Some e, _) \<Rightarrow> []
      | (None, (nodes, slideOf)) \<Rightarrow>
          fold (\<lambda>(i, n) m. AList.update (slideOf n) i m) (enumerate 0 nodes) [])"

definition slide_pos :: "(nat \<times> nat) list \<Rightarrow> nat \<Rightarrow> nat" where
  "slide_pos order i = (case map_of order i of Some p \<Rightarrow> p | None \<Rightarrow> length order)"

definition slide_message :: "wire \<Rightarrow> slide message_func" where
  "slide_message w i ty payload s =
     (if ty = iwSlide then (None, if sl_id s = 0 then s\<lparr>sl_id := i\<rparr> else s)
      else if ty = iwText then
        (case storageLines w payload of
           (kind, ls, e) \<Rightarrow>
             (e, if kind = iwNotes then s\<lparr>sl_notes := sl_notes s @ ls\<rparr> else s\<lparr>sl_text := sl_text s @ ls\<rparr>))
      else if ty = iwComment then
        stringField w payload 1 (trimmed (\<lambda>c s. s\<lparr>sl_text := sl_text s @ [c]\<rparr>)) s
      else (None, s))"

definition slide_size :: "slide \<Rightarrow> nat" where
  "slide_size s = sum_list (map length (sl_text s)) + sum_list (map length (sl_notes s))"

text \<open>Slides are collected until their text reaches the cap; a damaged slide is left out.\<close>

fun collect_slides :: "wire \<Rightarrow> snappy \<Rightarrow> nat \<Rightarrow> zip_entry list \<Rightarrow> nat \<Rightarrow> slide list" where
  "collect_slides w sn maxText [] collected = []"
| "collect_slides w sn maxText (f # fs) collected =
     (if maxText \<le> collected then []
      else case readMessages w sn f (slide_message w) \<lparr>sl_id = 0, sl_text = [], sl_notes = []\<rparr> of
             (Some e, s) \<Rightarrow> collect_slides w sn maxText fs collected
           | (None, s) \<Rightarrow> s # collect_slides w sn maxText fs (collected + slide_size s))"

definition emit_slide :: "slide \<Rightarrow> sink \<Rightarrow> sink" where
  "emit_slide s out = emitAll lineEmitter (sl_notes s) (emitAll lineEmitter (sl_text s) out)"

fun keynote_tables :: "wire \<Rightarrow> snappy \<Rightarrow> zip_entry list \<Rightarrow> sink \<Rightarrow> sink" where
  "keynote_tables w sn [] out = out"
| "keynote_tables w sn (f # fs) out =
     (if sink_full out then out
      else keynote_tables w sn fs (snd (readMessages w sn f (numbersMessage w lineEmitter) out)))"

definition extractKeynote :: "unzip \<Rightarrow> wire \<Rightarrow> snappy \<Rightarrow> read_at \<Rightarrow> nat \<Rightarrow> nat \<Rightarrow> extract_err + string" where
  "extractKeynote unzip w sn r fsize maxText =
     (case openPackage unzip r fsize of
        Inl e \<Rightarrow> Inl e
      | Inr es \<Rightarrow>
          (case findPart es ''Index/Document.iwa'' of
             None \<Rightarrow> Inl (ErrMsg ''not a Keynote file: it has no Index/Document.iwa'')
           | Some doc \<Rightarrow>
               (case readIWA sn doc of
                  Inl e \<Rightarrow> Inl (ErrMsg e)
                | Inr data \<Rightarrow>
                    (let order = slideOrder w data;
                         parts = sort_key ze_name (filter (\<lambda>f. iwaSlideRe (ze_name f)) es);
                         slides = sort_key (\<lambda>s. slide_pos order (sl_id s)) (collect_slides w sn maxText parts 0);
                         out = fold emit_slide slides (sink_new maxText)
                     in Inr (sink_text (keynote_tables w sn (tableParts es) out))))))"

section \<open>The collector stays valid\<close>

lemma fold_fields_inv:
  "(\<And>f s. P s \<Longrightarrow> P (snd (fn f s))) \<Longrightarrow> P s \<Longrightarrow> P (snd (fold_fields fn fs e s))"
  by (induction fs arbitrary: s) (auto split: option.splits prod.splits, metis snd_conv, metis snd_conv)

lemma eachField_inv: "(\<And>f s. P s \<Longrightarrow> P (snd (fn f s))) \<Longrightarrow> P s \<Longrightarrow> P (snd (eachField w b fn s))"
  by (simp add: eachField_def fold_fields_inv split: prod.split)

lemma walkArchive_inv:
  assumes "\<And>i ty p s. P s \<Longrightarrow> P (snd (handle i ty p s))" "P s"
  shows "P (snd (walkArchive w handle b s))"
  using assms
proof (induction w handle b s rule: walkArchive.induct)
  case (1 w handle b s)
  show ?case
  proof (cases "b = []")
    case ne: False
    obtain n k where nk: "consume_varint w b = (n, k)" by fastforce
    show ?thesis
    proof (cases "k < 0 \<or> int (length b) - k < int n \<or> k = 0")
      case True
      then show ?thesis using ne nk 1(3) by (subst walkArchive.simps) auto
    next
      case False
      let ?info = "take n (drop (nat k) b)" and ?b = "drop (nat k + n) b"
      obtain e b' s' where f: "eachField w ?info (info_field w (archive_id w ?info) handle) (?b, s) = (e, (b', s'))"
        by (metis prod_cases3)
      have "P (snd (snd (eachField w ?info (info_field w (archive_id w ?info) handle) (?b, s))))"
      proof (rule eachField_inv [where P = "\<lambda>bs. P (snd bs)"])
        fix fl and bs :: "string \<times> 'a" assume "P (snd bs)"
        then show "P (snd (snd (info_field w (archive_id w ?info) handle fl bs)))"
          using 1(2) by (cases bs) (auto simp: info_field_def split: prod.splits option.splits, metis snd_conv)
      qed (simp add: 1(3))
      then have s': "P s'" using f by simp
      have h: "\<not> (k < 0 \<or> int (length b) - k < int n)" "k \<noteq> 0" using False by auto
      show ?thesis
      proof (cases e)
        case None
        have "P (snd (walkArchive w handle b' s'))"
          by (rule 1(1) [OF ne nk [symmetric] h refl refl f [symmetric] None refl 1(2) s'])
        then show ?thesis using ne nk h f None by (subst walkArchive.simps) (simp add: Let_def)
      next
        case (Some m)
        then show ?thesis using ne nk h f s' by (subst walkArchive.simps) (simp add: Let_def)
      qed
    qed
  qed (use 1(3) in \<open>simp add: walkArchive.simps\<close>)
qed

definition good_sink :: "nat \<Rightarrow> sink \<Rightarrow> bool" where
  "good_sink m out \<longleftrightarrow> valid_utf8 (sink_b out) \<and> sink_max out = m"

lemma lineEmitter_good: "good_sink m out \<Longrightarrow> good_sink m (lineEmitter s out)"
  by (simp add: good_sink_def lineEmitter_def valid_sink_write nl_valid)

lemma emitAll_good: "good_sink m out \<Longrightarrow> good_sink m (emitAll lineEmitter ls out)"
  unfolding emitAll_def by (induction ls arbitrary: out) (simp_all add: lineEmitter_good)

lemma stringField_inv: "(\<And>v s. P s \<Longrightarrow> P (emit v s)) \<Longrightarrow> P s \<Longrightarrow> P (snd (stringField w payload num emit s))"
  unfolding stringField_def by (rule eachField_inv) (auto split: option.split)

lemma emit_entries_inv: "(\<And>v s. P s \<Longrightarrow> P (emit v s)) \<Longrightarrow> P s \<Longrightarrow> P (snd (emit_entries w emit es s))"
proof (induction es arbitrary: s)
  case (Cons e es)
  obtain err body refs where e: "entry_fields w e = (err, (body, refs))" by (metis prod_cases3)
  have "P (case body of Some v \<Rightarrow> if 0 < refs then emit v s else s | None \<Rightarrow> s)" using Cons.prems by (auto split: option.split)
  then show ?case using Cons e by (cases err) auto
qed simp

lemma dataListText_inv: "(\<And>v s. P s \<Longrightarrow> P (emit v s)) \<Longrightarrow> P s \<Longrightarrow> P (snd (dataListText w payload emit s))"
  using emit_entries_inv [of P emit] by (auto simp: dataListText_def split: prod.split option.split)

lemma numbersMessage_good: "good_sink m s \<Longrightarrow> good_sink m (snd (numbersMessage w lineEmitter i ty payload s))"
  using stringField_inv [of "good_sink m" lineEmitter] dataListText_inv [of "good_sink m" lineEmitter] lineEmitter_good
  by (auto simp: numbersMessage_def)

lemma pagesMessage_good: "good_sink m s \<Longrightarrow> good_sink m (snd (pagesMessage w lineEmitter i ty payload s))"
  using stringField_inv [of "good_sink m" lineEmitter] stringField_inv [of "good_sink m" "trimmed lineEmitter"]
    dataListText_inv [of "good_sink m" lineEmitter] lineEmitter_good emitAll_good
  by (auto simp: pagesMessage_def trimmed_def split: prod.split)

lemma readMessages_inv:
  "(\<And>i ty p s. P s \<Longrightarrow> P (snd (handle i ty p s))) \<Longrightarrow> P s \<Longrightarrow> P (snd (readMessages w sn f handle s))"
  using walkArchive_inv [of P handle] by (auto simp: readMessages_def split: sum.split)

lemma iwork_loop_good:
  assumes "\<And>i ty p s. good_sink m s \<Longrightarrow> good_sink m (snd (handle i ty p s))" "good_sink m (fst x)"
  shows "good_sink m (fst (iwork_loop w sn handle fs x))"
  using assms(2)
proof (induction fs arbitrary: x)
  case (Cons f fs)
  obtain out fe where x: "x = (out, fe)" by fastforce
  obtain e out' where r: "readMessages w sn f handle out = (e, out')" by fastforce
  have "good_sink m (snd (readMessages w sn f handle out))"
    by (rule readMessages_inv [where P = "good_sink m" and handle = handle]) (use assms(1) Cons.prems x in simp_all)
  then have "good_sink m out'" using r by simp
  then show ?case using Cons x r by simp
qed simp

lemma good_new: "good_sink m (sink_new m)"
  by (simp add: good_sink_def sink_new_def)

lemma good_text: "good_sink m out \<Longrightarrow> length (sink_text out) \<le> m \<and> clean_text (sink_text out)"
  using length_sink_text by (auto simp: good_sink_def sink_text_clean)

lemma extractIWork_safe:
  assumes "\<And>i ty p s. good_sink m s \<Longrightarrow> good_sink m (snd (handle i ty p s))"
  shows "case extractIWork unzip w sn app handle r fsize m of Inl e \<Rightarrow> True | Inr t \<Rightarrow> length t \<le> m \<and> clean_text t"
proof (cases "extractIWork unzip w sn app handle r fsize m")
  case (Inr t)
  then obtain fs out fe where l: "iwork_loop w sn handle fs (sink_new m, None) = (out, fe)" "t = sink_text out"
    by (auto simp: extractIWork_def simp del: iwork_loop.simps split: sum.splits option.splits prod.splits if_splits)
  have "good_sink m (fst (iwork_loop w sn handle fs (sink_new m, None)))"
    by (rule iwork_loop_good [where handle = handle]) (use assms good_new in simp_all)
  then have "good_sink m out" using l(1) by simp
  then show ?thesis using good_text Inr l(2) by simp
qed simp

lemma keynote_tables_good: "good_sink m out \<Longrightarrow> good_sink m (keynote_tables w sn fs out)"
proof (induction fs arbitrary: out)
  case (Cons f fs)
  have "good_sink m (snd (readMessages w sn f (numbersMessage w lineEmitter) out))"
    by (rule readMessages_inv [where P = "good_sink m", OF numbersMessage_good Cons.prems])
  then show ?case using Cons by simp
qed simp

lemma slides_good: "good_sink m out \<Longrightarrow> good_sink m (fold emit_slide ss out)"
  by (induction ss arbitrary: out) (simp_all add: emit_slide_def emitAll_good)

text \<open>Whatever a Numbers, Pages or Keynote file holds and whatever the packages make of it, the text
  extracted is valid UTF-8 without control runes and no longer than the cap.\<close>

theorem iwork_text_safe:
  "(case extractNumbers unzip w sn r fsize m of Inl e \<Rightarrow> True | Inr t \<Rightarrow> length t \<le> m \<and> clean_text t) \<and>
   (case extractPages unzip w sn r fsize m of Inl e \<Rightarrow> True | Inr t \<Rightarrow> length t \<le> m \<and> clean_text t) \<and>
   (case extractKeynote unzip w sn r fsize m of Inl e \<Rightarrow> True | Inr t \<Rightarrow> length t \<le> m \<and> clean_text t)"
proof (intro conjI)
  show "case extractNumbers unzip w sn r fsize m of Inl e \<Rightarrow> True | Inr t \<Rightarrow> length t \<le> m \<and> clean_text t"
    unfolding extractNumbers_def by (rule extractIWork_safe) (rule numbersMessage_good)
  show "case extractPages unzip w sn r fsize m of Inl e \<Rightarrow> True | Inr t \<Rightarrow> length t \<le> m \<and> clean_text t"
    unfolding extractPages_def by (rule extractIWork_safe) (rule pagesMessage_good)
  show "case extractKeynote unzip w sn r fsize m of Inl e \<Rightarrow> True | Inr t \<Rightarrow> length t \<le> m \<and> clean_text t"
  proof (cases "extractKeynote unzip w sn r fsize m")
    case (Inr t)
    then obtain es ss where "t = sink_text (keynote_tables w sn (tableParts es) (fold emit_slide ss (sink_new m)))"
      by (auto simp: extractKeynote_def Let_def split: sum.splits option.splits)
    then show ?thesis using good_text [OF keynote_tables_good [OF slides_good [OF good_new]]] Inr by simp
  qed simp
qed

section \<open>Which text is found\<close>

definition enc_entry :: "(nat \<Rightarrow> string) \<Rightarrow> (nat \<Rightarrow> wire_type \<Rightarrow> string) \<Rightarrow> (string \<Rightarrow> string) \<Rightarrow> nat \<times> nat \<times> string \<Rightarrow> string" where
  "enc_entry ev et eb = (\<lambda>(key, refs, text). enc_msg ev et eb [FVar 1 key, FVar 2 refs, FBytes 3 text])"

definition list_flds :: "(nat \<Rightarrow> string) \<Rightarrow> (nat \<Rightarrow> wire_type \<Rightarrow> string) \<Rightarrow> (string \<Rightarrow> string) \<Rightarrow> nat \<Rightarrow> (nat \<times> nat \<times> string) list \<Rightarrow> fld list" where
  "list_flds ev et eb ty es = FVar 1 ty # map (\<lambda>e. FBytes 3 (enc_entry ev et eb e)) es"

definition entry_ok :: "(nat \<Rightarrow> string) \<Rightarrow> (nat \<Rightarrow> wire_type \<Rightarrow> string) \<Rightarrow> (string \<Rightarrow> string) \<Rightarrow> nat \<times> nat \<times> string \<Rightarrow> bool" where
  "entry_ok ev et eb = (\<lambda>(key, refs, text). list_all fld_ok [FVar 1 key, FVar 2 refs, FBytes 3 text] \<and>
     length (enc_entry ev et eb (key, refs, text)) < 2 ^ 63)"

definition used_texts :: "(nat \<times> nat \<times> string) list \<Rightarrow> string list" where
  "used_texts es = map (\<lambda>(key, refs, text). text) (filter (\<lambda>(key, refs, text). 0 < refs) es)"

definition storage_flds :: "nat \<Rightarrow> string list \<Rightarrow> fld list" where
  "storage_flds kind pieces = FVar 1 kind # map (FBytes 3) pieces"

context wire_codec
begin

lemma entry_fields_enc:
  "entry_ok ev et eb (key, refs, text) \<Longrightarrow> entry_fields w (enc_entry ev et eb (key, refs, text)) = (None, (Some text, refs))"
  by (simp add: entry_ok_def entry_fields_def eachField_def enc_entry_def parse_enc_msg fld_of_def)

lemma emit_entries_enc:
  "list_all (entry_ok ev et eb) es \<Longrightarrow> emit_entries w emit (map (enc_entry ev et eb) es) s = (None, fold emit (used_texts es) s)"
proof (induction es arbitrary: s)
  case (Cons e es)
  obtain key refs body where e: "e = (key, refs, body)" by (cases e)
  show ?case using Cons by (simp add: e entry_fields_enc used_texts_def)
qed (simp add: used_texts_def)

lemma list_fields_enc:
  assumes "ty < 2 ^ 64" "list_all (entry_ok ev et eb) es"
  shows "list_fields w (enc_msg ev et eb (list_flds ev et eb ty es)) = (None, (ty, map (enc_entry ev et eb) es))"
proof -
  have ok: "list_all fld_ok (list_flds ev et eb ty es)" using assms
    by (auto simp: list_flds_def fld_ok_def list_all_iff entry_ok_def split: prod.splits)
  have acc: "fold_fields (\<lambda>f (ty, xs). (None, if f_num f = 1 then (f_x f, xs) else if f_num f = 3 then (ty, xs @ [bytes_of f]) else (ty, xs)))
      (map fld_of (map (\<lambda>e. FBytes 3 (enc_entry ev et eb e)) es)) None (ty, xs) = (None, (ty, xs @ map (enc_entry ev et eb) es))" for xs
    by (induction es arbitrary: xs) (simp_all add: fld_of_def bytes_of_def)
  show ?thesis unfolding list_fields_def eachField_def parse_enc_msg [OF ok] using acc [of "[]"]
    by (simp add: list_flds_def) (simp add: fld_of_def)
qed

lemma storage_fields_enc:
  assumes "list_all fld_ok (storage_flds kind pieces)" "list_all (\<lambda>p. p \<noteq> []) pieces"
  shows "storage_fields w (enc_msg ev et eb (storage_flds kind pieces)) = (None, (kind, join nl pieces))"
proof -
  let ?fn = "\<lambda>f (kind, text). (None, if f_num f = 1 then (f_x f, text)
      else if f_num f = 3 then (kind, (if text \<noteq> [] then text @ nl else text) @ bytes_of f) else (kind, text))"
  have acc: "fold_fields ?fn (map fld_of (map (FBytes 3) ps)) None (kind, x) = (None, (kind, x @ concat (map (\<lambda>p. nl @ p) ps)))"
    if "x \<noteq> []" "list_all (\<lambda>p. p \<noteq> []) ps" for x ps
    using that by (induction ps arbitrary: x) (simp_all add: fld_of_def bytes_of_def)
  have j: "join nl (p # ps) = p @ concat (map (\<lambda>p. nl @ p) ps)" for p ps
    by (induction ps arbitrary: p) simp_all
  show ?thesis unfolding storage_fields_def eachField_def parse_enc_msg [OF assms(1)]
  proof (cases pieces)
    case (Cons p ps)
    then show "(case (map fld_of (storage_flds kind pieces), None) of (fs, e) \<Rightarrow> fold_fields ?fn fs e (0, [])) = (None, (kind, join nl pieces))"
      using acc [of p ps] assms(2) j by (simp add: storage_flds_def) (simp add: fld_of_def bytes_of_def)
  qed (simp add: storage_flds_def fld_of_def)
qed

end

text \<open>From the string list of a table exactly the texts some cell still uses are taken, in order, and
  nothing from lists of another kind; from a text storage the non-blank lines, trimmed and without the marks
  of embedded objects, unless it is a header or footer; and nothing from any other type of message.\<close>

theorem iwork_words:
  assumes "wire_codec w ev et eb"
    and "ty < 2 ^ 64" "list_all (entry_ok ev et eb) es"
    and "list_all fld_ok (storage_flds kind pieces)" "list_all (\<lambda>p. p \<noteq> []) pieces" "pieces \<noteq> []" "valid_utf8 (join nl pieces)"
    and "other \<notin> {iwSheet, iwText, iwComment, iwTable, iwDataList}"
  shows "numbersMessage w emit i iwDataList (enc_msg ev et eb (list_flds ev et eb ty es)) s =
      (None, if ty = iwStringLst then fold emit (used_texts es) s else s) \<and>
    pagesMessage w emit i iwText (enc_msg ev et eb (storage_flds kind pieces)) s =
      (None, if kind = iwHeader then s else emitAll emit (text_lines (join nl pieces)) s) \<and>
    numbersMessage w emit i other p s = (None, s) \<and> pagesMessage w emit i other p s = (None, s)"
proof -
  note c = wire_codec.list_fields_enc [OF assms(1-3)] wire_codec.emit_entries_enc [OF assms(1,3), of emit s]
    wire_codec.storage_fields_enc [OF assms(1,4,5)]
  have ne: "join nl pieces \<noteq> []" using assms(5,6) by (cases pieces; cases "tl pieces") auto
  have l: "storageLines w (enc_msg ev et eb (storage_flds kind pieces)) = (kind, text_lines (join nl pieces), None)"
    using ne assms(7) by (simp add: storageLines_def c(3))
  have t: "iwDataList \<noteq> iwSheet" "iwDataList \<noteq> iwTable" by (simp_all add: iwDataList_def iwSheet_def iwTable_def)
  show ?thesis using assms(8) t l c by (simp add: numbersMessage_def pagesMessage_def dataListText_def)
qed

definition gather :: "string list emitter" where
  "gather v ls = ls @ [v]"

theorem iwork_words_witness:
  "let es = [(1, 2, ''Rent''), (2, 0, ''old''), (3, 1, ''Food'')]; pieces = [''Dear all,'', ''  '', '' bye '']
   in numbersMessage leb_wire gather 5 iwDataList (enc_msg leb_enc leb_tag leb_bytes (list_flds leb_enc leb_tag leb_bytes 1 es)) [] =
        (None, [''Rent'', ''Food'']) \<and>
      pagesMessage leb_wire gather 5 iwText (enc_msg leb_enc leb_tag leb_bytes (storage_flds 0 pieces)) [] =
        (None, [''Dear all,'', ''bye'']) \<and>
      numbersMessage leb_wire gather 5 99 [] [] = (None, [])"
proof -
  let ?es = "[(1, 2, ''Rent''), (2, 0, ''old''), (3, 1, ''Food'')]" and ?ps = "[''Dear all,'', ''  '', '' bye '']"
  have e: "list_all (entry_ok leb_enc leb_tag leb_bytes) ?es" by code_simp
  have p: "list_all fld_ok (storage_flds 0 ?ps)" by code_simp
  have v: "valid_utf8 (join nl ?ps)" by code_simp
  have l: "text_lines (join nl ?ps) = [''Dear all,'', ''bye'']" by code_simp
  have o: "(99::nat) \<notin> {iwSheet, iwText, iwComment, iwTable, iwDataList}" by code_simp
  show ?thesis
    using iwork_words [OF leb.wire_codec_axioms _ e p _ _ v o, of 1 gather 5 "[]" "[]"] l
    by (simp add: Let_def used_texts_def gather_def iwStringLst_def iwHeader_def emitAll_def)
qed

end
