(* ===== verification/FileTypes.thy ===== *)
theory FileTypes
  imports PathNames "HOL-Library.List_Lexorder" "HOL-Library.Char_ord"
begin

text \<open>
  The registry of file types (internal/filetype/filetype.go). The table is built as \<open>init\<close> builds it, with
  the two panics of \<open>add\<close> and \<open>setExtractor\<close> as errors. The map of Go is an association list in the order
  of insertion.
\<close>

section \<open>Kinds and extractors\<close>

definition KindPDF :: string where "KindPDF = ''pdf''"
definition KindDoc :: string where "KindDoc = ''doc''"
definition KindXLS :: string where "KindXLS = ''xls''"
definition KindPPT :: string where "KindPPT = ''ppt''"
definition KindImg :: string where "KindImg = ''img''"
definition KindVid :: string where "KindVid = ''vid''"
definition KindAud :: string where "KindAud = ''aud''"
definition KindZip :: string where "KindZip = ''zip''"
definition KindTxt :: string where "KindTxt = ''txt''"
definition KindFile :: string where "KindFile = ''file''"

definition ExtText :: string where "ExtText = ''text''"
definition ExtDocx :: string where "ExtDocx = ''docx''"
definition ExtXlsx :: string where "ExtXlsx = ''xlsx''"
definition ExtPptx :: string where "ExtPptx = ''pptx''"
definition ExtNumbers :: string where "ExtNumbers = ''numbers''"
definition ExtPages :: string where "ExtPages = ''pages''"
definition ExtKeynote :: string where "ExtKeynote = ''key''"
definition ExtPDF :: string where "ExtPDF = ''pdf''"

definition textPlain :: string where "textPlain = ''text/plain; charset=utf-8''"
definition octet :: string where "octet = ''application/octet-stream''"

record ft_info =
  ft_mime :: string
  ft_kind :: string
  ft_inline :: bool
  ft_extractor :: string

type_synonym registry = "(string \<times> ft_info) list"

section \<open>Building the table\<close>

fun add :: "string \<Rightarrow> string \<Rightarrow> bool \<Rightarrow> string list \<Rightarrow> registry \<Rightarrow> string + registry" where
  "add mime kind inl [] reg = Inr reg"
| "add mime kind inl (ext # exts) reg =
     (if map_of reg ext \<noteq> None then Inl (''filetype: duplicate extension '' @ ext)
      else add mime kind inl exts (reg @ [(ext, \<lparr>ft_mime = mime, ft_kind = kind, ft_inline = inl, ft_extractor = []\<rparr>)]))"

fun setExtractor :: "string \<Rightarrow> string list \<Rightarrow> registry \<Rightarrow> string + registry" where
  "setExtractor nm [] reg = Inr reg"
| "setExtractor nm (ext # exts) reg =
     (if map_of reg ext = None then Inl (''filetype: extractor for unknown extension '' @ ext)
      else setExtractor nm exts (map (\<lambda>(e, i). (e, if e = ext then i\<lparr>ft_extractor := nm\<rparr> else i)) reg))"

definition codeExts :: "string list" where
  "codeExts = [
    ''c'', ''h'', ''cc'', ''cpp'', ''cxx'', ''c++'', ''hpp'', ''hh'', ''hxx'', ''m'', ''mm'', ''cs'',
    ''java'', ''kt'', ''kts'', ''scala'', ''groovy'', ''go'', ''rs'', ''zig'', ''py'', ''pyw'', ''rb'',
    ''php'', ''pl'', ''pm'', ''lua'', ''r'', ''jl'', ''swift'', ''dart'', ''hs'', ''ml'', ''mli'', ''erl'',
    ''hrl'', ''ex'', ''exs'', ''clj'', ''cljs'', ''lisp'', ''el'', ''vim'', ''asm'', ''s'', ''js'',
    ''mjs'', ''cjs'', ''jsx'', ''tsx'', ''vue'', ''svelte'', ''css'', ''scss'', ''sass'', ''less'', ''sh'',
    ''bash'', ''zsh'', ''fish'', ''ps1'', ''psm1'', ''bat'', ''cmd'', ''sql'', ''graphql'', ''gql'',
    ''proto'', ''tf'', ''hcl'', ''nix'', ''gradle'', ''mk'', ''cmake'', ''yaml'', ''yml'', ''toml'',
    ''ini'', ''cfg'', ''conf'', ''properties'', ''env'', ''jsonc'', ''json5'', ''tex'', ''bib'', ''diff'',
    ''patch'', ''gitignore'', ''gitattributes'', ''editorconfig'']"

definition add_calls :: "(string \<times> string \<times> bool \<times> string list) list" where
  "add_calls = [
    (''application/pdf'', KindPDF, True, [''pdf'']),
    (''application/msword'', KindDoc, False, [''doc'']),
    (''application/vnd.openxmlformats-officedocument.wordprocessingml.document'', KindDoc, False, [''docx'']),
    (''application/vnd.ms-word.document.macroEnabled.12'', KindDoc, False, [''docm'']),
    (''application/vnd.openxmlformats-officedocument.wordprocessingml.template'', KindDoc, False, [''dotx'']),
    (''application/vnd.apple.pages'', KindDoc, False, [''pages'']),
    (''application/rtf'', KindDoc, False, [''rtf'']),
    (''application/vnd.ms-excel'', KindXLS, False, [''xls'']),
    (''application/vnd.openxmlformats-officedocument.spreadsheetml.sheet'', KindXLS, False, [''xlsx'']),
    (''application/vnd.ms-excel.sheet.macroEnabled.12'', KindXLS, False, [''xlsm'']),
    (''application/vnd.openxmlformats-officedocument.spreadsheetml.template'', KindXLS, False, [''xltx'']),
    (''application/vnd.apple.numbers'', KindXLS, False, [''numbers'']),
    (textPlain, KindXLS, True, [''csv'', ''tsv'']),
    (''application/vnd.ms-powerpoint'', KindPPT, False, [''ppt'']),
    (''application/vnd.openxmlformats-officedocument.presentationml.presentation'', KindPPT, False, [''pptx'']),
    (''application/vnd.ms-powerpoint.presentation.macroEnabled.12'', KindPPT, False, [''pptm'']),
    (''application/vnd.openxmlformats-officedocument.presentationml.slideshow'', KindPPT, False, [''ppsx'']),
    (''application/vnd.openxmlformats-officedocument.presentationml.template'', KindPPT, False, [''potx'']),
    (''application/vnd.apple.keynote'', KindPPT, False, [''key'']),
    (''image/jpeg'', KindImg, True, [''jpg'', ''jpeg'', ''jfif'']),
    (''image/png'', KindImg, True, [''png'']),
    (''image/apng'', KindImg, True, [''apng'']),
    (''image/gif'', KindImg, True, [''gif'']),
    (''image/webp'', KindImg, True, [''webp'']),
    (''image/avif'', KindImg, True, [''avif'']),
    (''image/bmp'', KindImg, True, [''bmp'']),
    (''image/x-icon'', KindImg, True, [''ico'']),
    (''image/svg+xml'', KindImg, False, [''svg'']),
    (''image/heic'', KindImg, False, [''heic'']),
    (''image/heif'', KindImg, False, [''heif'']),
    (''image/tiff'', KindImg, False, [''tif'', ''tiff'']),
    (''image/jxl'', KindImg, False, [''jxl'']),
    (''image/jp2'', KindImg, False, [''jp2'', ''j2k'']),
    (''image/vnd.adobe.photoshop'', KindImg, False, [''psd'']),
    (''application/postscript'', KindImg, False, [''ai'', ''eps'']),
    (''image/icns'', KindImg, False, [''icns'']),
    (''image/x-tga'', KindImg, False, [''tga'']),
    (''image/x-xcf'', KindImg, False, [''xcf'']),
    (''image/x-canon-cr2'', KindImg, False, [''cr2'']),
    (''image/x-canon-cr3'', KindImg, False, [''cr3'']),
    (''image/x-nikon-nef'', KindImg, False, [''nef'']),
    (''image/x-sony-arw'', KindImg, False, [''arw'']),
    (''image/x-adobe-dng'', KindImg, False, [''dng'']),
    (''image/x-olympus-orf'', KindImg, False, [''orf'']),
    (''image/x-panasonic-rw2'', KindImg, False, [''rw2'']),
    (''image/x-fuji-raf'', KindImg, False, [''raf'']),
    (''image/x-pentax-pef'', KindImg, False, [''pef'']),
    (''video/mp4'', KindVid, True, [''mp4'', ''m4v'']),
    (''video/quicktime'', KindVid, True, [''mov'']),
    (''video/webm'', KindVid, True, [''webm'']),
    (''video/x-msvideo'', KindVid, False, [''avi'']),
    (''video/x-matroska'', KindVid, False, [''mkv'']),
    (''video/x-ms-wmv'', KindVid, False, [''wmv'']),
    (''video/x-ms-asf'', KindVid, False, [''asf'']),
    (''video/x-flv'', KindVid, False, [''flv'']),
    (''video/x-f4v'', KindVid, False, [''f4v'']),
    (''video/mpeg'', KindVid, False, [''mpg'', ''mpeg'', ''mpe'', ''m2v'', ''vob'']),
    (''video/mp2t'', KindVid, False, [''m2ts'', ''mts'']),
    (''video/3gpp'', KindVid, False, [''3gp'']),
    (''video/3gpp2'', KindVid, False, [''3g2'']),
    (''video/ogg'', KindVid, False, [''ogv'']),
    (''video/divx'', KindVid, False, [''divx'']),
    (''video/x-dv'', KindVid, False, [''dv'']),
    (''application/mxf'', KindVid, False, [''mxf'']),
    (''application/vnd.rn-realmedia'', KindVid, False, [''rm'']),
    (''application/vnd.rn-realmedia-vbr'', KindVid, False, [''rmvb'']),
    (''audio/mpeg'', KindAud, True, [''mp3'']),
    (''audio/mp4'', KindAud, True, [''m4a'']),
    (''audio/aac'', KindAud, True, [''aac'']),
    (''audio/wav'', KindAud, True, [''wav'']),
    (''audio/flac'', KindAud, True, [''flac'']),
    (''audio/mp4'', KindAud, False, [''m4b'', ''m4p'', ''m4r'']),
    (''audio/aac'', KindAud, False, [''adts'']),
    (''audio/ogg'', KindAud, False, [''ogg'', ''oga'', ''opus'']),
    (''audio/aiff'', KindAud, False, [''aiff'', ''aif'', ''aifc'']),
    (''audio/x-caf'', KindAud, False, [''caf'']),
    (''audio/x-ms-wma'', KindAud, False, [''wma'']),
    (''audio/amr'', KindAud, False, [''amr'']),
    (''audio/basic'', KindAud, False, [''au'', ''snd'']),
    (''audio/ac3'', KindAud, False, [''ac3'']),
    (''audio/eac3'', KindAud, False, [''ec3'']),
    (''audio/midi'', KindAud, False, [''mid'', ''midi'', ''kar'']),
    (''application/zip'', KindZip, False, [''zip'']),
    (''application/x-tar'', KindZip, False, [''tar'']),
    (''application/gzip'', KindZip, False, [''gz'']),
    (''application/x-7z-compressed'', KindZip, False, [''7z'']),
    (textPlain, KindTxt, True, [''txt'', ''md'', ''mdx'', ''rst'', ''adoc'', ''org'', ''log'']),
    (''application/json'', KindTxt, True, [''json'']),
    (''text/xml; charset=utf-8'', KindTxt, True, [''xml'']),
    (textPlain, KindTxt, True, codeExts)]"

definition extractor_calls :: "(string \<times> string list) list" where
  "extractor_calls = [
    (ExtPDF, [''pdf'']),
    (ExtDocx, [''docx'', ''docm'', ''dotx'']),
    (ExtXlsx, [''xlsx'', ''xlsm'', ''xltx'']),
    (ExtPptx, [''pptx'', ''pptm'', ''ppsx'', ''potx'']),
    (ExtNumbers, [''numbers'']),
    (ExtPages, [''pages'']),
    (ExtKeynote, [''key'']),
    (ExtText, [''txt'', ''md'', ''mdx'', ''rst'', ''adoc'', ''org'', ''log'', ''json'', ''xml'', ''csv'', ''tsv''] @ codeExts)]"

fun add_all :: "(string \<times> string \<times> bool \<times> string list) list \<Rightarrow> registry \<Rightarrow> string + registry" where
  "add_all [] reg = Inr reg"
| "add_all ((mime, kind, inl, exts) # rows) reg =
     (case add mime kind inl exts reg of Inl e \<Rightarrow> Inl e | Inr reg' \<Rightarrow> add_all rows reg')"

fun set_all :: "(string \<times> string list) list \<Rightarrow> registry \<Rightarrow> string + registry" where
  "set_all [] reg = Inr reg"
| "set_all ((nm, exts) # rows) reg =
     (case setExtractor nm exts reg of Inl e \<Rightarrow> Inl e | Inr reg' \<Rightarrow> set_all rows reg')"

definition init_types :: "string + registry" where
  "init_types =
     (case add_all add_calls [] of
        Inl e \<Rightarrow> Inl e
      | Inr reg \<Rightarrow>
          (case set_all extractor_calls reg of
             Inl e \<Rightarrow> Inl e
           | Inr reg \<Rightarrow> add ''text/html; charset=utf-8'' KindFile False [''html'', ''htm''] reg))"


definition types :: registry where
  "types = (case init_types of Inl _ \<Rightarrow> [] | Inr reg \<Rightarrow> reg)"

section \<open>Looking a file up\<close>

definition ByExt :: "string \<Rightarrow> ft_info option" where
  "ByExt ext = map_of types ext"

definition unknown_type :: ft_info where
  "unknown_type = \<lparr>ft_mime = octet, ft_kind = KindFile, ft_inline = False, ft_extractor = []\<rparr>"

definition file_ext :: "unicode \<Rightarrow> string \<Rightarrow> string" where
  "file_ext u nm = to_lower u (trim_prefix (path_ext nm) dot)"

definition Lookup :: "unicode \<Rightarrow> string \<Rightarrow> ft_info" where
  "Lookup u nm = (case map_of types (file_ext u nm) of Some i \<Rightarrow> i | None \<Rightarrow> unknown_type)"

definition ExtsWithExtractor :: "string list \<Rightarrow> string list" where
  "ExtsWithExtractor names = sort (map fst (filter (\<lambda>(e, i). ft_extractor i \<in> set names) types))"

definition All :: registry where
  "All = types"

section \<open>The table has no duplicates\<close>

definition row_infos :: "string \<times> string \<times> bool \<times> string list \<Rightarrow> registry" where
  "row_infos = (\<lambda>(mime, kind, inl, exts).
     map (\<lambda>e. (e, \<lparr>ft_mime = mime, ft_kind = kind, ft_inline = inl, ft_extractor = []\<rparr>)) exts)"

definition row_exts :: "string \<times> string \<times> bool \<times> string list \<Rightarrow> string list" where
  "row_exts = (\<lambda>(mime, kind, inl, exts). exts)"

lemma fst_row_infos: "map fst (row_infos r) = row_exts r"
  by (cases r) (simp add: row_infos_def row_exts_def o_def)

lemma add_ok:
  "distinct exts \<Longrightarrow> set exts \<inter> fst ` set reg = {} \<Longrightarrow>
   add mime kind inl exts reg = Inr (reg @ row_infos (mime, kind, inl, exts))"
proof (induction exts arbitrary: reg)
  case (Cons e es)
  then show ?case by (auto simp: row_infos_def map_of_eq_None_iff)
qed (simp add: row_infos_def)

lemma add_all_ok:
  "distinct (map fst reg @ concat (map row_exts rows)) \<Longrightarrow> add_all rows reg = Inr (reg @ concat (map row_infos rows))"
proof (induction rows arbitrary: reg)
  case (Cons r rows)
  obtain m k i es where r: "r = (m, k, i, es)" by (cases r)
  have "add m k i es reg = Inr (reg @ row_infos r)"
    unfolding r by (rule add_ok) (use Cons.prems in \<open>auto simp: r row_exts_def\<close>)
  moreover have "add_all rows (reg @ row_infos r) = Inr ((reg @ row_infos r) @ concat (map row_infos rows))"
    by (rule Cons.IH) (use Cons.prems in \<open>simp add: fst_row_infos\<close>)
  ultimately show ?case by (simp add: r)
qed simp

definition with_extractor :: "(string \<times> string list) list \<Rightarrow> string \<Rightarrow> string \<Rightarrow> string" where
  "with_extractor calls e old = fold (\<lambda>(nm, exts) x. if e \<in> set exts then nm else x) calls old"

lemma setExtractor_ok:
  "set exts \<subseteq> fst ` set reg \<Longrightarrow>
   setExtractor nm exts reg = Inr (map (\<lambda>(e, i). (e, if e \<in> set exts then i\<lparr>ft_extractor := nm\<rparr> else i)) reg)"
proof (induction exts arbitrary: reg)
  case Nil
  then show ?case by (simp add: case_prod_eta)
next
  case (Cons x xs)
  let ?reg = "map (\<lambda>(e, i). (e, if e = x then i\<lparr>ft_extractor := nm\<rparr> else i)) reg"
  have k: "fst ` set ?reg = fst ` set reg" by force
  have "map_of reg x \<noteq> None" using Cons.prems by (simp add: map_of_eq_None_iff)
  then have "setExtractor nm (x # xs) reg = setExtractor nm xs ?reg" by auto
  also have "\<dots> = Inr (map (\<lambda>(e, i). (e, if e \<in> set xs then i\<lparr>ft_extractor := nm\<rparr> else i)) ?reg)"
    by (rule Cons.IH) (use Cons.prems k in simp)
  finally show ?case by (auto intro!: map_cong)
qed

lemma set_all_ok:
  "list_all (\<lambda>(nm, exts). set exts \<subseteq> fst ` set reg) calls \<Longrightarrow>
   set_all calls reg = Inr (map (\<lambda>(e, i). (e, i\<lparr>ft_extractor := with_extractor calls e (ft_extractor i)\<rparr>)) reg)"
proof (induction calls arbitrary: reg)
  case Nil
  then show ?case by (simp add: with_extractor_def case_prod_eta)
next
  case (Cons c cs)
  obtain nm exts where c: "c = (nm, exts)" by (cases c)
  let ?reg = "map (\<lambda>(e, i). (e, if e \<in> set exts then i\<lparr>ft_extractor := nm\<rparr> else i)) reg"
  have k: "fst ` set ?reg = fst ` set reg" by force
  have "set_all (c # cs) reg = set_all cs ?reg" using Cons.prems by (simp add: c setExtractor_ok)
  also have "\<dots> = Inr (map (\<lambda>(e, i). (e, i\<lparr>ft_extractor := with_extractor cs e (ft_extractor i)\<rparr>)) ?reg)"
    by (rule Cons.IH) (use Cons.prems k in \<open>simp add: c\<close>)
  finally show ?case by (auto simp: c with_extractor_def intro!: map_cong)
qed

definition str_num :: "string \<Rightarrow> nat" where
  "str_num s = foldl (\<lambda>n c. 256 * n + of_char c) 0 s"

definition all_exts :: "string list" where
  "all_exts = concat (map row_exts add_calls) @ [''html'', ''htm'']"

lemma all_exts_distinct: "distinct all_exts"
proof -
  have "distinct (map str_num all_exts)"
    by (simp add: all_exts_def add_calls_def row_exts_def codeExts_def str_num_def)
  then show ?thesis by (simp add: distinct_map)
qed

definition base_rows :: registry where
  "base_rows = concat (map row_infos add_calls)"

definition html_row :: "string \<times> string \<times> bool \<times> string list" where
  "html_row = (''text/html; charset=utf-8'', KindFile, False, [''html'', ''htm''])"

definition with_extractors :: "registry \<Rightarrow> registry" where
  "with_extractors = map (\<lambda>(e, i). (e, i\<lparr>ft_extractor := with_extractor extractor_calls e (ft_extractor i)\<rparr>))"

lemma fst_base: "map fst base_rows = concat (map row_exts add_calls)"
  by (simp add: base_rows_def map_concat o_def fst_row_infos)

lemma fst_with: "map fst (with_extractors reg) = map fst reg"
  by (simp add: with_extractors_def o_def case_prod_beta)

lemma code_row: "set codeExts \<subseteq> set (concat (map row_exts add_calls))"
  by (auto simp: add_calls_def row_exts_def)

lemma extractors_known: "list_all (\<lambda>(nm, exts). set exts \<subseteq> fst ` set base_rows) extractor_calls"
proof -
  have s: "fst ` set base_rows = set (concat (map row_exts add_calls))"
    using fst_base by (metis set_map)
  show ?thesis unfolding s using code_row
    by (auto simp: extractor_calls_def add_calls_def row_exts_def)
qed

lemma init_types_eq: "init_types = Inr (with_extractors base_rows @ row_infos html_row)"
proof -
  have d: "distinct (concat (map row_exts add_calls) @ [''html'', ''htm''])"
    using all_exts_distinct by (simp add: all_exts_def)
  then have "add_all add_calls [] = Inr base_rows" by (subst add_all_ok) (simp_all add: base_rows_def)
  moreover have "set_all extractor_calls base_rows = Inr (with_extractors base_rows)"
    unfolding with_extractors_def by (rule set_all_ok [OF extractors_known])
  moreover have "add ''text/html; charset=utf-8'' KindFile False [''html'', ''htm''] (with_extractors base_rows) =
      Inr (with_extractors base_rows @ row_infos html_row)"
    unfolding html_row_def
  proof (rule add_ok)
    have "fst ` set (with_extractors base_rows) = set (concat (map row_exts add_calls))"
      by (metis fst_with fst_base set_map)
    then show "set [''html'', ''htm''] \<inter> fst ` set (with_extractors base_rows) = {}" using d by auto
  qed simp
  ultimately show ?thesis by (simp add: init_types_def)
qed

lemma types_eq: "types = with_extractors base_rows @ row_infos html_row"
  by (simp add: types_def init_types_eq)

lemma types_distinct: "distinct (map fst types)"
proof -
  have "map fst types = all_exts"
    by (simp add: types_eq fst_with fst_base fst_row_infos all_exts_def) (simp add: html_row_def row_exts_def)
  then show ?thesis using all_exts_distinct by simp
qed

lemma types_rows:
  assumes "(e, i) \<in> set types"
  shows "\<exists>m k b es. (m, k, b, es) \<in> set (html_row # add_calls) \<and> e \<in> set es \<and> ft_mime i = m \<and> ft_kind i = k \<and> ft_inline i = b"
proof -
  have row: "(e, i) \<in> set (row_infos r) \<Longrightarrow> \<exists>m k b es. r = (m, k, b, es) \<and> e \<in> set es \<and> ft_mime i = m \<and> ft_kind i = k \<and> ft_inline i = b"
    for e i r by (cases r) (auto simp: row_infos_def)
  consider "(e, i) \<in> set (row_infos html_row)" | j where "(e, j) \<in> set base_rows" "ft_mime i = ft_mime j" "ft_kind i = ft_kind j" "ft_inline i = ft_inline j"
    using assms by (auto simp: types_eq with_extractors_def)
  then show ?thesis
  proof cases
    case 1
    from row [OF this] show ?thesis by (metis list.set_intros(1))
  next
    case 2
    then obtain r where "r \<in> set add_calls" "(e, j) \<in> set (row_infos r)" by (auto simp: base_rows_def)
    with row [OF this(2)] 2(2-) show ?thesis by auto
  qed
qed

section \<open>Nothing inline can run\<close>

definition inline_mimes :: "string list" where
  "inline_mimes = [''application/pdf'', textPlain, ''application/json'', ''text/xml; charset=utf-8'',
     ''image/jpeg'', ''image/png'', ''image/apng'', ''image/gif'', ''image/webp'', ''image/avif'', ''image/bmp'', ''image/x-icon'',
     ''video/mp4'', ''video/quicktime'', ''video/webm'',
     ''audio/mpeg'', ''audio/mp4'', ''audio/aac'', ''audio/wav'', ''audio/flac'']"

lemma inline_rows: "list_all (\<lambda>(m, k, b, es). \<not> b \<or> m \<in> set inline_mimes) (html_row # add_calls)"
  by code_simp

lemma Lookup_cases: "Lookup u nm = unknown_type \<or> (\<exists>e. (e, Lookup u nm) \<in> set types)"
  by (auto simp: Lookup_def split: option.split dest: map_of_SomeD)

lemma Lookup_inline: "\<not> ft_inline (Lookup u nm) \<or> ft_mime (Lookup u nm) \<in> set inline_mimes"
proof (cases "Lookup u nm = unknown_type")
  case False
  then obtain e where "(e, Lookup u nm) \<in> set types" using Lookup_cases by blast
  from types_rows [OF this] obtain k es where "(ft_mime (Lookup u nm), k, ft_inline (Lookup u nm), es) \<in> set (html_row # add_calls)"
    by blast
  with inline_rows have "(\<lambda>(m, k, b, es). \<not> b \<or> m \<in> set inline_mimes) (ft_mime (Lookup u nm), k, ft_inline (Lookup u nm), es)"
    unfolding list_all_iff by (rule bspec)
  then show ?thesis by simp
qed (simp add: unknown_type_def)

end
