(* ===== verification/Extract.thy ===== *)
theory Extract
  imports Pdf Sheets IWork FileTypes
begin

text \<open>
  The choice of an extractor (internal/extract/extract.go): \<open>Extract\<close> and \<open>Supported\<close> over the registry of
  file types. The packages the extractors use, and the context of the one extraction, are collected in a
  record of parameters.
\<close>

record packages =
  pk_unzip :: unzip
  pk_xml :: xml_dec
  pk_wire :: wire
  pk_snappy :: snappy
  pk_pdfium :: pdfium
  pk_acquire :: "string option"
  pk_ctx :: pdf_ctx

type_synonym extractor = "read_at \<Rightarrow> nat \<Rightarrow> nat \<Rightarrow> extract_err + string"

definition extractors :: "packages \<Rightarrow> (string \<times> extractor) list" where
  "extractors pk =
     [(ExtText, extractText),
      (ExtDocx, extractDocx (pk_unzip pk) (pk_xml pk)),
      (ExtXlsx, extractXlsx (pk_unzip pk) (pk_xml pk)),
      (ExtPptx, extractPptx (pk_unzip pk) (pk_xml pk)),
      (ExtNumbers, extractNumbers (pk_unzip pk) (pk_wire pk) (pk_snappy pk)),
      (ExtPages, extractPages (pk_unzip pk) (pk_wire pk) (pk_snappy pk)),
      (ExtKeynote, extractKeynote (pk_unzip pk) (pk_wire pk) (pk_snappy pk)),
      (ExtPDF, extractPDF (pk_pdfium pk) (pk_acquire pk) (pk_ctx pk))]"

text \<open>The names are those of the table, whatever the packages\<close>

definition extractor_names :: "string list" where
  "extractor_names = [ExtText, ExtDocx, ExtXlsx, ExtPptx, ExtNumbers, ExtPages, ExtKeynote, ExtPDF]"

definition Supported :: "string list" where
  "Supported = ExtsWithExtractor extractor_names"

definition Extract :: "packages \<Rightarrow> string \<Rightarrow> extractor" where
  "Extract pk ext r fsize maxText =
     (case ByExt ext of
        None \<Rightarrow> Inl ErrUnsupported
      | Some info \<Rightarrow>
          (if ft_extractor info = [] then Inl ErrUnsupported
           else case map_of (extractors pk) (ft_extractor info) of
                  None \<Rightarrow> Inl ErrUnsupported
                | Some fn \<Rightarrow> fn r fsize maxText))"

lemma names_of_extractors: "map fst (extractors pk) = extractor_names"
  by (simp add: extractors_def extractor_names_def)

section \<open>The dispatch is total\<close>

lemma ext_names_ne: "[] \<notin> set extractor_names"
  by code_simp

lemma Supported_iff: "e \<in> set Supported \<longleftrightarrow> (\<exists>i. ByExt e = Some i \<and> ft_extractor i \<in> set extractor_names)"
proof -
  have "e \<in> set Supported \<longleftrightarrow> (\<exists>i. (e, i) \<in> set types \<and> ft_extractor i \<in> set extractor_names)"
    unfolding Supported_def ExtsWithExtractor_def set_sort by force
  then show ?thesis by (simp add: ByExt_def types_distinct)
qed

lemma Extract_Supported:
  assumes "e \<in> set Supported"
  shows "\<exists>nm fn. (nm, fn) \<in> set (extractors pk) \<and> Extract pk e = fn"
proof -
  obtain i where i: "ByExt e = Some i" "ft_extractor i \<in> set extractor_names" using assms by (auto simp: Supported_iff)
  then have ne: "ft_extractor i \<noteq> []" using ext_names_ne by metis
  have "ft_extractor i \<in> fst ` set (extractors pk)" using i(2) by (simp add: names_of_extractors [symmetric, of pk])
  then obtain fn where m: "map_of (extractors pk) (ft_extractor i) = Some fn"
    by (metis map_of_eq_None_iff not_None_eq)
  then have "Extract pk e = fn" using i(1) ne by (simp add: fun_eq_iff Extract_def)
  then show ?thesis using map_of_SomeD [OF m] by blast
qed

lemma Extract_unsupported:
  assumes "e \<notin> set Supported"
  shows "Extract pk e r n m = Inl ErrUnsupported"
proof (cases "ByExt e")
  case (Some i)
  then have "ft_extractor i \<notin> set extractor_names" using assms by (auto simp: Supported_iff)
  then have "map_of (extractors pk) (ft_extractor i) = None"
    by (simp add: map_of_eq_None_iff) (simp add: names_of_extractors [symmetric, of pk])
  then show ?thesis using Some by (simp add: Extract_def)
qed (simp add: Extract_def)

text \<open>Which extensions those are, and what is called for each\<close>

lemma types_extractor:
  assumes "(e, i) \<in> set types"
  shows "ft_extractor i = with_extractor extractor_calls e []"
proof -
  have base: "ft_extractor j = []" if "(x, j) \<in> set (row_infos r)" for x j r
    using that by (cases r) (auto simp: row_infos_def)
  have html: "list_all (\<lambda>e. with_extractor extractor_calls e [] = []) [''html'', ''htm'']" by code_simp
  consider "(e, i) \<in> set (row_infos html_row)"
    | j where "(e, j) \<in> set base_rows" "ft_extractor i = with_extractor extractor_calls e (ft_extractor j)"
    using assms by (auto simp: types_eq with_extractors_def)
  then show ?thesis
  proof cases
    case 1
    then show ?thesis using base [OF 1] html by (auto simp: row_infos_def html_row_def)
  next
    case 2
    then show ?thesis using base [of e j] by (auto simp: base_rows_def)
  qed
qed

lemma ByExt_known: "e \<in> set all_exts \<Longrightarrow> \<exists>i. ByExt e = Some i \<and> ft_extractor i = with_extractor extractor_calls e []"
proof -
  assume e: "e \<in> set all_exts"
  have "fst ` set types = set all_exts"
    by (simp add: types_eq image_Un fst_with fst_base fst_row_infos all_exts_def flip: set_map)
      (simp add: html_row_def row_exts_def)
  then have "e \<in> fst ` set types" using e by simp
  then obtain i where i: "(e, i) \<in> set types" by force
  then have "ByExt e = Some i" by (simp add: ByExt_def types_distinct)
  then show ?thesis using types_extractor [OF i] by blast
qed

lemma Extract_by_table:
  assumes "e \<in> set all_exts" "with_extractor extractor_calls e [] = nm" "map_of (extractors pk) nm = Some fn" "nm \<noteq> []"
  shows "Extract pk e = fn"
  using ByExt_known [OF assms(1)] assms(2-) by (auto simp: fun_eq_iff Extract_def)

text \<open>No extractor answers that a type is unsupported.\<close>

lemma iwork_not_unsupported: "extractIWork unzip w sn app h r n m \<noteq> Inl ErrUnsupported"
  by (auto simp: extractIWork_def openPackage_def Let_def split: sum.splits option.splits prod.splits if_splits)

lemma parts_not_unsupported: "parts_loop p sep fs out \<noteq> Inl ErrUnsupported"
  by (induction fs arbitrary: out) (auto split: prod.splits option.splits parse_stop.splits if_splits)

lemma sheets_not_unsupported: "sheets_loop dec es shared refs out \<noteq> Inl ErrUnsupported"
  by (induction refs arbitrary: out) (auto split: prod.splits option.splits parse_stop.splits if_splits)

lemma pages_not_unsupported: "pdf_pages ctx d i n out \<noteq> Inl ErrUnsupported"
  by (induction n arbitrary: i out) (auto simp: pdfError_def split: option.splits sum.splits pdf_err.splits if_splits)

lemma open_not_unsupported: "openPackage unzip r n \<noteq> Inl ErrUnsupported"
  by (auto simp: openPackage_def Let_def split: sum.splits prod.splits if_splits)

lemma extractor_not_unsupported: "(nm, fn) \<in> set (extractors pk) \<Longrightarrow> fn r n m \<noteq> Inl ErrUnsupported"
  using open_not_unsupported [of "pk_unzip pk" r n] parts_not_unsupported sheets_not_unsupported pages_not_unsupported
    iwork_not_unsupported
  by (auto simp: extractors_def extractText_def decodeUTF8_def extractDocx_def extractPptx_def extractXlsx_def
      extractNumbers_def extractPages_def extractKeynote_def extractPDF_def pdfError_def Let_def
      split: sum.splits option.splits prod.splits if_splits io_err.splits pdf_err.splits)

section \<open>What every extractor returns\<close>

lemma pdf_pages_good:
  assumes "\<And>i. case pd_page d i of Inl _ \<Rightarrow> True | Inr t \<Rightarrow> valid_utf8 t"
  shows "good_sink m out \<Longrightarrow> pdf_pages ctx d i n out = Inr out' \<Longrightarrow> good_sink m out'"
proof (induction n arbitrary: i out)
  case (Suc n)
  show ?case
  proof (cases "pd_page d i")
    case (Inr t)
    then have "valid_utf8 t" using assms [of i] by simp
    then have "good_sink m (sink_write (sink_write out (page_text t)) (nl @ nl))"
      using Suc.prems(1) page_text_ok nl_valid by (simp add: good_sink_def sink_write_def valid_utf8_append)
    then show ?thesis using Suc Inr by (auto split: if_splits option.splits)
  qed (use Suc.prems in \<open>auto split: if_splits option.splits\<close>)
qed simp

definition pages_valid :: "pdf_doc \<Rightarrow> bool" where
  "pages_valid d \<longleftrightarrow> (\<forall>i. case pd_page d i of Inl _ \<Rightarrow> True | Inr t \<Rightarrow> valid_utf8 t)"

lemma extractPDF_safe:
  assumes "pages_valid (pdfium r n)"
  shows "case extractPDF pdfium acq ctx r n m of Inl e \<Rightarrow> True | Inr t \<Rightarrow> length t \<le> m \<and> clean_text t"
proof (cases "extractPDF pdfium acq ctx r n m")
  case (Inr t)
  then obtain k out where "pdf_pages ctx (pdfium r n) 0 k (sink_new m) = Inr out" "t = sink_text out"
    by (auto simp: extractPDF_def Let_def split: option.splits sum.splits)
  moreover have "good_sink m out"
    by (rule pdf_pages_good [OF _ good_new calculation(1)]) (use assms in \<open>simp add: pages_valid_def\<close>)
  ultimately show ?thesis using good_text Inr by simp
qed simp


definition no_wire :: wire where
  "no_wire = \<lparr>consume_varint = (\<lambda>_. (0, - 1)), consume_tag = (\<lambda>_. (0, OtherType, - 1)), consume_bytes = (\<lambda>_. ([], - 1))\<rparr>"

definition example_packages :: packages where
  "example_packages = \<lparr>pk_unzip = example_zip, pk_xml = example_dec, pk_wire = no_wire, pk_snappy = stored_snappy,
     pk_pdfium = two_pages, pk_acquire = None, pk_ctx = (\<lambda>_. None)\<rparr>"


end
