(* ===== verification/Tables.thy ===== *)
theory Tables
  imports GoText
begin

text \<open>
  A table with a primary key, as the SQL of \<open>internal/index\<close> uses it: read by key, insert
  with \<open>ON CONFLICT (key) DO UPDATE\<close> of every other column, delete by condition. The locale
  \<open>keyed_table\<close> states the contract the index operations rely on; \<open>tbl_get\<close>, \<open>tbl_put\<close>
  and \<open>tbl_del\<close> provide it on lists of rows, and are interpreted for each table of the schema
  where that table is declared.
\<close>

section \<open>The contract\<close>

lemma find_app:
  "find P (xs @ ys) = (case find P xs of Some x \<Rightarrow> Some x | None \<Rightarrow> find P ys)"
  by (induction xs) auto

locale keyed_table =
  fixes get :: "'k \<Rightarrow> 't \<Rightarrow> 'r option"
    and put :: "'r \<Rightarrow> 't \<Rightarrow> 't"
    and del :: "('r \<Rightarrow> bool) \<Rightarrow> 't \<Rightarrow> 't"
    and key :: "'r \<Rightarrow> 'k"
    and wf :: "'t \<Rightarrow> bool"
  assumes get_key: "wf t \<Longrightarrow> get k t = Some r \<Longrightarrow> key r = k"
    and get_put: "wf t \<Longrightarrow> get k (put r t) = (if k = key r then Some r else get k t)"
    and get_del: "wf t \<Longrightarrow> get k (del P t) =
          (case get k t of Some r \<Rightarrow> if P r then None else Some r | None \<Rightarrow> None)"
    and wf_put: "wf t \<Longrightarrow> wf (put r t)"
    and wf_del: "wf t \<Longrightarrow> wf (del P t)"
begin

lemma wf_puts: "wf t \<Longrightarrow> wf (fold put rs t)"
  by (induction rs arbitrary: t) (simp_all add: wf_put)

text \<open>A multi-row upsert writes the last row given for each key.\<close>

lemma get_puts:
  "wf t \<Longrightarrow> get k (fold put rs t) =
     (case find (\<lambda>r. key r = k) (rev rs) of Some r \<Rightarrow> Some r | None \<Rightarrow> get k t)"
proof (induction rs arbitrary: t)
  case (Cons r rs)
  have "find (\<lambda>r. key r = k) (rev rs @ [r]) =
      (case find (\<lambda>r. key r = k) (rev rs) of Some x \<Rightarrow> Some x | None \<Rightarrow> if key r = k then Some r else None)"
    by (auto simp: find_app split: option.splits)
  then show ?case using Cons.IH [OF wf_put [OF Cons.prems]] Cons.prems
    by (simp add: get_put split: option.splits)
qed simp

text \<open>
  Mark and sweep: write the rows of a scope, then delete every row of the scope that is not
  marked. If no old row of the scope carries the mark, the scope holds exactly the rows written.
\<close>

lemma mark_and_sweep:
  assumes "wf t"
    and fresh: "\<And>k r. get k t = Some r \<Longrightarrow> scope r \<Longrightarrow> \<not> marked r"
    and written: "\<And>r. r \<in> set rs \<Longrightarrow> scope r \<and> marked r"
    and same: "\<And>r r'. key r = key r' \<Longrightarrow> scope r = scope r'"
  shows "get k (del (\<lambda>r. scope r \<and> \<not> marked r) (fold put rs t)) =
    (case find (\<lambda>r. key r = k) (rev rs) of
       Some r \<Rightarrow> Some r
     | None \<Rightarrow> (case get k t of Some r \<Rightarrow> if scope r then None else Some r | None \<Rightarrow> None))"
proof (cases "find (\<lambda>r. key r = k) (rev rs)")
  case None
  then show ?thesis
    using fresh by (auto simp: get_del [OF wf_puts [OF assms(1)]] get_puts [OF assms(1)] split: option.splits)
next
  case (Some r)
  then have "r \<in> set rs" by (metis find_Some_iff nth_mem set_rev)
  then show ?thesis
    using Some written by (simp add: get_del [OF wf_puts [OF assms(1)]] get_puts [OF assms(1)])
qed

end

section \<open>Tables as lists of rows\<close>

definition tbl_get :: "('r \<Rightarrow> 'k) \<Rightarrow> 'k \<Rightarrow> 'r list \<Rightarrow> 'r option" where
  "tbl_get key k t = find (\<lambda>r. key r = k) t"

definition tbl_put :: "('r \<Rightarrow> 'k) \<Rightarrow> 'r \<Rightarrow> 'r list \<Rightarrow> 'r list" where
  "tbl_put key r t =
     (if key r \<in> set (map key t) then map (\<lambda>x. if key x = key r then r else x) t else t @ [r])"

definition tbl_del :: "('r \<Rightarrow> bool) \<Rightarrow> 'r list \<Rightarrow> 'r list" where
  "tbl_del P t = filter (\<lambda>r. \<not> P r) t"

definition tbl_wf :: "('r \<Rightarrow> 'k) \<Rightarrow> 'r list \<Rightarrow> bool" where
  "tbl_wf key t = distinct (map key t)"

lemma tbl_get_eq: "tbl_wf key t \<Longrightarrow> tbl_get key k t = Some r \<longleftrightarrow> r \<in> set t \<and> key r = k"
  unfolding tbl_wf_def tbl_get_def
proof (induction t)
  case (Cons x t)
  then show ?case by auto
qed simp

lemma tbl_get_None: "tbl_get key k t = None \<longleftrightarrow> k \<notin> key ` set t"
  by (auto simp: tbl_get_def find_None_iff)

lemma tbl_get_find_map:
  "find (\<lambda>x. key x = k) (map (\<lambda>x. if key x = key r then r else x) t) =
     (if k = key r \<and> k \<in> set (map key t) then Some r else find (\<lambda>x. key x = k) t)"
  by (induction t) auto

lemma tbl_get_put: "tbl_get key k (tbl_put key r t) = (if k = key r then Some r else tbl_get key k t)"
proof (cases "key r \<in> key ` set t")
  case True
  then show ?thesis by (auto simp: tbl_get_def tbl_put_def tbl_get_find_map)
next
  case False
  then have none: "find (\<lambda>x. key x = key r) t = None" unfolding find_None_iff by (metis imageI)
  have put: "tbl_put key r t = t @ [r]" using False by (simp add: tbl_put_def)
  show ?thesis
  proof (cases "k = key r")
    case True
    then show ?thesis using none by (simp add: tbl_get_def put find_app)
  next
    case False
    then show ?thesis by (auto simp: tbl_get_def put find_app split: option.splits)
  qed
qed

lemma tbl_wf_put: "tbl_wf key t \<Longrightarrow> tbl_wf key (tbl_put key r t)"
proof -
  have "map key (map (\<lambda>x. if key x = key r then r else x) t) = map key t" by (induction t) auto
  then show "tbl_wf key t \<Longrightarrow> ?thesis" by (auto simp: tbl_wf_def tbl_put_def simp del: map_map)
qed

lemma set_tbl_del [simp]: "set (tbl_del P t) = {r \<in> set t. \<not> P r}"
  by (auto simp: tbl_del_def)

lemma tbl_get_del:
  assumes "tbl_wf key t"
  shows "tbl_get key k (tbl_del P t) =
     (case tbl_get key k t of Some r \<Rightarrow> if P r then None else Some r | None \<Rightarrow> None)"
proof -
  have wf: "tbl_wf key (tbl_del P t)" using assms by (auto simp: tbl_wf_def tbl_del_def distinct_map inj_on_def)
  show ?thesis
  proof (cases "tbl_get key k t")
    case None
    then have "tbl_get key k (tbl_del P t) = None" by (auto simp: tbl_get_None)
    then show ?thesis using None by simp
  next
    case (Some r)
    then have r: "r \<in> set t" "key r = k" using tbl_get_eq [OF assms] by auto
    show ?thesis
    proof (cases "P r")
      case True
      have "r' = r" if "r' \<in> set t" "key r' = k" for r'
        using that tbl_get_eq [OF assms, of k r'] Some by simp
      then have "tbl_get key k (tbl_del P t) = None" using True by (auto simp: tbl_get_None)
      then show ?thesis using Some True by simp
    next
      case False
      then have "tbl_get key k (tbl_del P t) = Some r" using tbl_get_eq [OF wf] r by simp
      then show ?thesis using Some False by simp
    qed
  qed
qed

lemma tbl_wf_del: "tbl_wf key t \<Longrightarrow> tbl_wf key (tbl_del P t)"
  by (auto simp: tbl_wf_def tbl_del_def distinct_map inj_on_def)

lemma keys_tbl_put: "key ` set (tbl_put key r t) = insert (key r) (key ` set t)"
proof (cases "key r \<in> key ` set t")
  case True
  have "map key (map (\<lambda>x. if key x = key r then r else x) t) = map key t" by (induction t) auto
  then have "key ` set (map (\<lambda>x. if key x = key r then r else x) t) = key ` set t"
    by (metis list.set_map)
  then show ?thesis using True by (auto simp: tbl_put_def simp del: set_map)
qed (auto simp: tbl_put_def)

lemma keyed_table_tbl: "keyed_table (tbl_get key) (tbl_put key) tbl_del key (tbl_wf key)"
  by unfold_locales (auto simp: tbl_get_eq tbl_get_put tbl_get_del tbl_wf_put tbl_wf_del)

end
