(* ===== verification/Database.thy ===== *)
theory Database
  imports Tables
begin

text \<open>
  The database of \<open>internal/index\<close>: the tables of \<open>migrations/\<close> as lists of records, with the
  keys, the unique index and the cascading foreign keys of the schema. The SQL statements of the
  package become updates of the record \<open>db\<close>; a statement or transaction that Postgres rejects
  leaves the state as it was. A failure of the database itself (connection, disk) is an input of
  every operation, of type \<open>fault\<close>. Times are integers.
\<close>

section \<open>Rows\<close>

record File =
  fVolume :: int
  fPath :: string
  fName :: string
  fDir :: string
  fExt :: string
  fIsDir :: bool
  fSize :: int
  fModTime :: int

record file_row = File +
  last_seen_run :: int

record crawl_run =
  cr_id :: int
  cr_volume :: int
  cr_trigger :: string
  cr_started :: int
  cr_finished :: "int option"
  cr_duration :: "int option"
  cr_error :: "string option"
  cr_files_seen :: int
  cr_files_removed :: int
  cr_bytes :: int

record volume_row =
  v_id :: int
  v_name :: string
  v_host :: string
  v_share :: string
  v_username :: string
  v_password_enc :: string
  v_enabled :: bool
  v_created :: int
  v_updated :: int
  v_test_ok :: "bool option"
  v_test_at :: "int option"
  v_test_error :: "string option"
  v_content_index :: bool

record content_row =
  cs_volume :: int
  cs_path :: string
  cs_size :: int
  cs_mod_time :: int
  cs_status :: string
  cs_reason :: "string option"
  cs_chunk_count :: nat
  cs_indexed_at :: int

record chunk_row =
  ch_volume :: int
  ch_path :: string
  ch_seq :: nat
  ch_body :: string

record setting_row =
  s_key :: string
  s_value :: string
  s_updated :: int

record db =
  volumes :: "volume_row list"
  files :: "file_row list"
  crawl_runs :: "crawl_run list"
  settings :: "setting_row list"
  content_state :: "content_row list"
  chunks :: "chunk_row list"
  next_volume :: int
  next_run :: int

type_synonym file_key = "int \<times> string"

definition file_key :: "'a File_scheme \<Rightarrow> file_key" where
  "file_key f = (fVolume f, fPath f)"

definition cs_key :: "content_row \<Rightarrow> file_key" where
  "cs_key c = (cs_volume c, cs_path c)"

definition ch_file :: "chunk_row \<Rightarrow> file_key" where
  "ch_file c = (ch_volume c, ch_path c)"

definition ch_key :: "chunk_row \<Rightarrow> file_key \<times> nat" where
  "ch_key c = (ch_file c, ch_seq c)"

definition row_file :: "file_row \<Rightarrow> File" where
  "row_file r = \<lparr>fVolume = fVolume r, fPath = fPath r, fName = fName r, fDir = fDir r,
     fExt = fExt r, fIsDir = fIsDir r, fSize = fSize r, fModTime = fModTime r\<rparr>"

definition mk_row :: "int \<Rightarrow> File \<Rightarrow> file_row" where
  "mk_row run f = \<lparr>fVolume = fVolume f, fPath = fPath f, fName = fName f, fDir = fDir f,
     fExt = fExt f, fIsDir = fIsDir f, fSize = fSize f, fModTime = fModTime f, last_seen_run = run\<rparr>"

lemma mk_row_simps [simp]:
  "row_file (mk_row run f) = f" "last_seen_run (mk_row run f) = run"
  "file_key (mk_row run f) = file_key f" "fVolume (mk_row run f) = fVolume f"
  by (simp_all add: row_file_def mk_row_def file_key_def)

section \<open>Errors\<close>

datatype db_err =
    Unavailable
  | CardinalityViolation
  | UniqueViolation
  | ForeignKeyViolation

datatype index_err =
    DbErr db_err
  | ErrVolumeNameTaken
  | ErrFileGone
  | ErrNotFound string
  | ErrInvalidSettings string
  | ErrMsg string

type_synonym fault = "db_err option"

section \<open>Statements\<close>

text \<open>
  \<open>INSERT \<dots> ON CONFLICT (key) DO UPDATE\<close> of every other column. Postgres refuses a statement
  that would update one row twice (error 21000).
\<close>

definition sql_upsert :: "('r \<Rightarrow> 'k) \<Rightarrow> 'r list \<Rightarrow> 'r list \<Rightarrow> db_err + 'r list" where
  "sql_upsert key rows t =
     (if distinct (map key rows) then Inr (fold (tbl_put key) rows t) else Inl CardinalityViolation)"

text \<open>\<open>DELETE FROM files WHERE \<dots>\<close>, with the \<open>ON DELETE CASCADE\<close> of both child tables\<close>

definition gone_keys :: "(file_row \<Rightarrow> bool) \<Rightarrow> db \<Rightarrow> file_key list" where
  "gone_keys P d = map file_key (filter P (files d))"

definition sql_delete_files :: "(file_row \<Rightarrow> bool) \<Rightarrow> db \<Rightarrow> db" where
  "sql_delete_files P d =
     d\<lparr>files := tbl_del P (files d),
       content_state := tbl_del (\<lambda>c. cs_key c \<in> set (gone_keys P d)) (content_state d),
       chunks := tbl_del (\<lambda>c. ch_file c \<in> set (gone_keys P d)) (chunks d)\<rparr>"

definition sql_upsert_content :: "content_row \<Rightarrow> db \<Rightarrow> db_err + db" where
  "sql_upsert_content c d =
     (if cs_key c \<in> file_key ` set (files d)
      then Inr (d\<lparr>content_state := tbl_put cs_key c (content_state d)\<rparr>)
      else Inl ForeignKeyViolation)"

definition sql_insert_chunks :: "chunk_row list \<Rightarrow> db \<Rightarrow> db_err + db" where
  "sql_insert_chunks cs d =
     (if \<not> list_all (\<lambda>c. ch_file c \<in> file_key ` set (files d)) cs then Inl ForeignKeyViolation
      else if \<not> distinct (map ch_key (chunks d @ cs)) then Inl UniqueViolation
      else Inr (d\<lparr>chunks := chunks d @ cs\<rparr>))"

section \<open>Lookup\<close>

definition file_at :: "db \<Rightarrow> file_key \<Rightarrow> file_row option" where
  "file_at d k = tbl_get file_key k (files d)"

definition content_at :: "db \<Rightarrow> file_key \<Rightarrow> content_row option" where
  "content_at d k = tbl_get cs_key k (content_state d)"

definition chunks_at :: "db \<Rightarrow> file_key \<Rightarrow> chunk_row list" where
  "chunks_at d k = filter (\<lambda>c. ch_file c = k) (chunks d)"

section \<open>The schema invariant\<close>

text \<open>
  Keys are unique, content rows and chunks belong to a file row, generated identities are above
  every stored one.
\<close>

definition db_ok :: "db \<Rightarrow> bool" where
  "db_ok d \<longleftrightarrow>
     tbl_wf v_id (volumes d) \<and> tbl_wf file_key (files d) \<and> tbl_wf cr_id (crawl_runs d) \<and>
     tbl_wf s_key (settings d) \<and> tbl_wf cs_key (content_state d) \<and> tbl_wf ch_key (chunks d) \<and>
     cs_key ` set (content_state d) \<subseteq> file_key ` set (files d) \<and>
     ch_file ` set (chunks d) \<subseteq> file_key ` set (files d) \<and>
     list_all (\<lambda>v. v_id v < next_volume d) (volumes d) \<and>
     list_all (\<lambda>r. cr_id r < next_run d) (crawl_runs d)"

definition empty_db :: db where
  "empty_db = \<lparr>volumes = [], files = [], crawl_runs = [], settings = [], content_state = [],
     chunks = [], next_volume = 1, next_run = 1\<rparr>"

lemma db_ok_empty: "db_ok empty_db"
  by (simp add: db_ok_def empty_db_def tbl_wf_def)

lemma db_ok_wf:
  assumes "db_ok d"
  shows "tbl_wf v_id (volumes d)" "tbl_wf file_key (files d)" "tbl_wf cr_id (crawl_runs d)"
    "tbl_wf s_key (settings d)" "tbl_wf cs_key (content_state d)" "tbl_wf ch_key (chunks d)"
    "\<And>c. c \<in> set (content_state d) \<Longrightarrow> cs_key c \<in> file_key ` set (files d)"
    "\<And>c. c \<in> set (chunks d) \<Longrightarrow> ch_file c \<in> file_key ` set (files d)"
  using assms by (auto simp: db_ok_def)

interpretation files_tbl: keyed_table "tbl_get file_key" "tbl_put file_key" tbl_del file_key "tbl_wf file_key"
  by (rule keyed_table_tbl)

interpretation content_tbl: keyed_table "tbl_get cs_key" "tbl_put cs_key" tbl_del cs_key "tbl_wf cs_key"
  by (rule keyed_table_tbl)

interpretation settings_tbl: keyed_table "tbl_get s_key" "tbl_put s_key" tbl_del s_key "tbl_wf s_key"
  by (rule keyed_table_tbl)

interpretation volumes_tbl: keyed_table "tbl_get v_id" "tbl_put v_id" tbl_del v_id "tbl_wf v_id"
  by (rule keyed_table_tbl)

section \<open>The statements keep the schema\<close>

lemma set_fold_put_keys: "key ` set (fold (tbl_put key) rs t) = key ` set rs \<union> key ` set t"
  by (induction rs arbitrary: t) (auto simp: keys_tbl_put)

lemma sql_upsert_files_ok:
  assumes "db_ok d" "sql_upsert file_key rows (files d) = Inr t"
  shows "db_ok (d\<lparr>files := t\<rparr>)"
proof -
  have t: "t = fold (tbl_put file_key) rows (files d)"
    using assms(2) by (simp add: sql_upsert_def split: if_splits)
  have "tbl_wf file_key t" unfolding t using assms(1) by (intro files_tbl.wf_puts) (simp add: db_ok_def)
  moreover have "file_key ` set (files d) \<subseteq> file_key ` set t" by (simp add: t set_fold_put_keys)
  ultimately show ?thesis using assms(1) by (simp add: db_ok_def) (meson subset_trans)
qed

lemma remaining_keys: "k \<in> file_key ` set (files d) \<Longrightarrow> k \<notin> set (gone_keys P d) \<Longrightarrow>
    k \<in> file_key ` {r \<in> set (files d). \<not> P r}"
  by (auto simp: gone_keys_def)

lemma sql_delete_files_ok:
  assumes "db_ok d"
  shows "db_ok (sql_delete_files P d)"
  using assms db_ok_wf [OF assms]
  by (simp add: db_ok_def sql_delete_files_def tbl_wf_del image_subset_iff remaining_keys)

lemma sql_upsert_content_ok:
  assumes "db_ok d" "sql_upsert_content c d = Inr d'"
  shows "db_ok d'"
proof -
  have c: "cs_key c \<in> file_key ` set (files d)"
    and d': "d' = d\<lparr>content_state := tbl_put cs_key c (content_state d)\<rparr>"
    using assms(2) by (auto simp: sql_upsert_content_def split: if_splits)
  show ?thesis using assms(1) c by (simp add: d' db_ok_def tbl_wf_put keys_tbl_put)
qed

lemma sql_insert_chunks_ok:
  assumes "db_ok d" "sql_insert_chunks cs d = Inr d'"
  shows "db_ok d'"
proof -
  have c: "list_all (\<lambda>c. ch_file c \<in> file_key ` set (files d)) cs" "distinct (map ch_key (chunks d @ cs))"
    and d': "d' = d\<lparr>chunks := chunks d @ cs\<rparr>"
    using assms(2) by (auto simp: sql_insert_chunks_def split: if_splits)
  have "ch_file ` set cs \<subseteq> file_key ` set (files d)" using c(1) by (simp add: list_all_iff image_subset_iff)
  then show ?thesis using assms(1) c(2) by (simp add: d' db_ok_def tbl_wf_def image_Un)
qed

lemma delete_content_ok: "db_ok d \<Longrightarrow> db_ok (d\<lparr>content_state := tbl_del P (content_state d)\<rparr>)"
  by (auto simp: db_ok_def tbl_wf_del)

lemma delete_chunks_ok: "db_ok d \<Longrightarrow> db_ok (d\<lparr>chunks := tbl_del P (chunks d)\<rparr>)"
  by (auto simp: db_ok_def tbl_wf_del)

lemma file_at_delete:
  assumes "db_ok d"
  shows "file_at (sql_delete_files P d) k =
    (case file_at d k of Some r \<Rightarrow> if P r then None else Some r | None \<Rightarrow> None)"
  using assms by (simp add: file_at_def sql_delete_files_def files_tbl.get_del db_ok_def)

lemma gone_keys_iff:
  assumes "db_ok d"
  shows "k \<in> set (gone_keys P d) \<longleftrightarrow> (\<exists>r. file_at d k = Some r \<and> P r)"
  using db_ok_wf(2) [OF assms] by (auto simp: gone_keys_def file_at_def tbl_get_eq)

lemma content_at_delete:
  assumes "db_ok d"
  shows "content_at (sql_delete_files P d) k = (if k \<in> set (gone_keys P d) then None else content_at d k)"
proof -
  have wf: "tbl_wf cs_key (content_state d)" using assms by (rule db_ok_wf)
  then have "content_at d k = Some c \<Longrightarrow> cs_key c = k" for c by (simp add: content_at_def tbl_get_eq)
  then show ?thesis
    using content_tbl.get_del [OF wf] by (auto simp: content_at_def sql_delete_files_def split: option.splits)
qed

lemma chunks_at_delete:
  "chunks_at (sql_delete_files P d) k = (if k \<in> set (gone_keys P d) then [] else chunks_at d k)"
  by (auto simp: chunks_at_def sql_delete_files_def tbl_del_def filter_empty_conv intro!: filter_cong)

lemma content_at_file:
  assumes "db_ok d" "content_at d k = Some c"
  shows "\<exists>r. file_at d k = Some r"
proof -
  have "c \<in> set (content_state d)" "cs_key c = k"
    using assms db_ok_wf(5) [OF assms(1)] by (simp_all add: content_at_def tbl_get_eq)
  then have "k \<in> file_key ` set (files d)" using db_ok_wf(7) [OF assms(1)] by blast
  then show ?thesis by (metis file_at_def not_None_eq tbl_get_None)
qed

end
