(* ===== verification/IndexWrite.thy ===== *)
theory IndexWrite
  imports Database
begin

text \<open>
  The writing half of \<open>internal/index/index.go\<close>: \<open>UpsertBatch\<close>, \<open>StreamUpsert\<close>, \<open>Sweep\<close>,
  \<open>Delete\<close>, \<open>Reconcile\<close> and the crawl-run records. An operation takes the fault of its
  statement (\<^term>\<open>None\<close>: it succeeds) and returns Go's results with the new state. The text that
  \<open>fmt.Errorf\<close> wraps around a database error is dropped.
\<close>

section \<open>\<open>UpsertBatch\<close>\<close>

text \<open>The map \<open>last\<close>: the index of the last entry for each key, and the entries it selects\<close>

definition last_map :: "File list \<Rightarrow> file_key \<Rightarrow> nat option" where
  "last_map fs = fold (\<lambda>(i, f) m. m(file_key f \<mapsto> i)) (enumerate 0 fs) Map.empty"

definition keep_last :: "File list \<Rightarrow> File list" where
  "keep_last fs = map snd (filter (\<lambda>(i, f). last_map fs (file_key f) = Some i) (enumerate 0 fs))"

definition UpsertBatch :: "fault \<Rightarrow> File list \<Rightarrow> int \<Rightarrow> db \<Rightarrow> (index_err + unit) \<times> db" where
  "UpsertBatch flt fs run d =
     (if fs = [] then (Inr (), d)
      else case flt of
        Some e \<Rightarrow> (Inl (DbErr e), d)
      | None \<Rightarrow>
          (case sql_upsert file_key (map (mk_row run) (keep_last fs)) (files d) of
             Inl e \<Rightarrow> (Inl (DbErr e), d)
           | Inr t \<Rightarrow> (Inr (), d\<lparr>files := t\<rparr>)))"

definition Upsert :: "fault \<Rightarrow> File \<Rightarrow> int \<Rightarrow> db \<Rightarrow> (index_err + unit) \<times> db" where
  "Upsert flt f run d = UpsertBatch flt [f] run d"

definition Sweep :: "fault \<Rightarrow> int \<Rightarrow> int \<Rightarrow> db \<Rightarrow> (index_err + int) \<times> db" where
  "Sweep flt vol run d =
     (case flt of
        Some e \<Rightarrow> (Inl (DbErr e), d)
      | None \<Rightarrow>
          (let P = (\<lambda>r. fVolume r = vol \<and> last_seen_run r \<noteq> run)
           in (Inr (int (length (filter P (files d)))), sql_delete_files P d)))"

definition slash :: string where
  "slash = [CHR 0x2F]"

definition Delete :: "fault \<Rightarrow> int \<Rightarrow> string \<Rightarrow> db \<Rightarrow> (index_err + unit) \<times> db" where
  "Delete flt vol p d =
     (case flt of
        Some e \<Rightarrow> (Inl (DbErr e), d)
      | None \<Rightarrow> (Inr (), sql_delete_files (\<lambda>r. fVolume r = vol \<and> fPath r = trim_bytes p slash) d))"

definition Reconcile :: "fault \<Rightarrow> fault \<Rightarrow> int \<Rightarrow> File list \<Rightarrow> int \<Rightarrow> db \<Rightarrow> (index_err + unit) \<times> db" where
  "Reconcile flt1 flt2 vol fs run d =
     (case UpsertBatch flt1 fs run d of
        (Inl e, d') \<Rightarrow> (Inl e, d')
      | (Inr _, d') \<Rightarrow>
          (case Sweep flt2 vol run d' of
             (Inl e, d'') \<Rightarrow> (Inl e, d'')
           | (Inr _, d'') \<Rightarrow> (Inr (), d'')))"

section \<open>\<open>StreamUpsert\<close>\<close>

text \<open>
  The loop over the channel: its state is the batch being filled, what was written, the first
  error, the number of statements sent so far (which picks the fault) and the database.
\<close>

record stream =
  st_batch :: "File list"
  st_written :: nat
  st_err :: "index_err option"
  st_calls :: nat
  st_db :: db

definition stream_flush :: "(nat \<Rightarrow> fault) \<Rightarrow> int \<Rightarrow> stream \<Rightarrow> stream" where
  "stream_flush flts run st =
     (if st_batch st = [] then st
      else
        (let (res, d) = UpsertBatch (flts (st_calls st)) (st_batch st) run (st_db st);
             st = st\<lparr>st_calls := Suc (st_calls st), st_db := d\<rparr>;
             st = (case res of
                     Inl e \<Rightarrow> if st_err st = None then st\<lparr>st_err := Some e\<rparr> else st
                   | Inr _ \<Rightarrow> st\<lparr>st_written := st_written st + length (st_batch st)\<rparr>)
         in st\<lparr>st_batch := []\<rparr>))"

definition stream_entry :: "(nat \<Rightarrow> fault) \<Rightarrow> int \<Rightarrow> nat \<Rightarrow> File \<Rightarrow> stream \<Rightarrow> stream" where
  "stream_entry flts run batchSize f st =
     (let st = st\<lparr>st_batch := st_batch st @ [f]\<rparr>
      in if batchSize \<le> length (st_batch st) then stream_flush flts run st else st)"

definition stream_init :: "db \<Rightarrow> stream" where
  "stream_init d = \<lparr>st_batch = [], st_written = 0, st_err = None, st_calls = 0, st_db = d\<rparr>"

definition StreamUpsert ::
  "(nat \<Rightarrow> fault) \<Rightarrow> File list \<Rightarrow> int \<Rightarrow> nat \<Rightarrow> db \<Rightarrow> nat \<times> index_err option \<times> db" where
  "StreamUpsert flts entries run batchSize d =
     (let st = stream_flush flts run (fold (stream_entry flts run batchSize) entries (stream_init d))
      in (st_written st, st_err st, st_db st))"

section \<open>Crawl runs\<close>

definition null_if_empty :: "string \<Rightarrow> string option" where
  "null_if_empty s = (if s = [] then None else Some s)"

definition StartCrawlRun :: "fault \<Rightarrow> int \<Rightarrow> int \<Rightarrow> string \<Rightarrow> db \<Rightarrow> (index_err + int) \<times> db" where
  "StartCrawlRun flt now vol trigger d =
     (case flt of
        Some e \<Rightarrow> (Inl (DbErr e), d)
      | None \<Rightarrow>
          (let r = \<lparr>cr_id = next_run d, cr_volume = vol, cr_trigger = trigger, cr_started = now,
                 cr_finished = None, cr_duration = None, cr_error = None, cr_files_seen = 0,
                 cr_files_removed = 0, cr_bytes = 0\<rparr>
           in (Inr (next_run d), d\<lparr>crawl_runs := crawl_runs d @ [r], next_run := next_run d + 1\<rparr>)))"

record crawl_result =
  res_error :: "string option"
  res_files_seen :: int
  res_files_removed :: int
  res_bytes :: int
  res_duration :: int

definition FinishCrawlRun :: "fault \<Rightarrow> int \<Rightarrow> int \<Rightarrow> crawl_result \<Rightarrow> db \<Rightarrow> (index_err + unit) \<times> db" where
  "FinishCrawlRun flt now i res d =
     (let errMsg = (case res_error res of None \<Rightarrow> [] | Some m \<Rightarrow> m)
      in case flt of
        Some e \<Rightarrow> (Inl (DbErr e), d)
      | None \<Rightarrow>
          (Inr (), d\<lparr>crawl_runs := map (\<lambda>r. if cr_id r = i
             then r\<lparr>cr_finished := Some now, cr_duration := Some (res_duration res),
                    cr_error := null_if_empty errMsg, cr_files_seen := res_files_seen res,
                    cr_files_removed := res_files_removed res, cr_bytes := res_bytes res\<rparr>
             else r) (crawl_runs d)\<rparr>))"

definition runs_desc :: "int \<Rightarrow> db \<Rightarrow> crawl_run list" where
  "runs_desc vol d = rev (sort_key cr_id (filter (\<lambda>r. cr_volume r = vol) (crawl_runs d)))"

definition LatestCrawlRun :: "fault \<Rightarrow> int \<Rightarrow> db \<Rightarrow> index_err + crawl_run option" where
  "LatestCrawlRun flt vol d =
     (case flt of
        Some e \<Rightarrow> Inl (DbErr e)
      | None \<Rightarrow> Inr (case runs_desc vol d of [] \<Rightarrow> None | r # _ \<Rightarrow> Some r))"

definition CrawlRuns :: "fault \<Rightarrow> int \<Rightarrow> int \<Rightarrow> db \<Rightarrow> index_err + crawl_run list" where
  "CrawlRuns flt vol lim d =
     (let lim = (if lim \<le> 0 \<or> 200 < lim then 50 else lim)
      in case flt of Some e \<Rightarrow> Inl (DbErr e) | None \<Rightarrow> Inr (take (nat lim) (runs_desc vol d)))"

section \<open>De-duplication\<close>

definition last_for :: "file_key \<Rightarrow> File list \<Rightarrow> File option" where
  "last_for k fs = find (\<lambda>f. file_key f = k) (rev fs)"

lemma last_for_append:
  "last_for k (a @ b) = (case last_for k b of Some f \<Rightarrow> Some f | None \<Rightarrow> last_for k a)"
  by (simp add: last_for_def find_app split: option.split)

lemma last_for_Nil [simp]: "last_for k [] = None"
  by (simp add: last_for_def)

lemma last_for_None: "last_for k fs = None \<longleftrightarrow> k \<notin> file_key ` set fs"
  by (auto simp: last_for_def find_None_iff)

lemma last_for_Some: "last_for k fs = Some f \<Longrightarrow> f \<in> set fs \<and> file_key f = k"
  by (auto simp: last_for_def find_Some_iff) (metis nth_mem set_rev length_rev)

lemma last_map_snoc: "last_map (fs @ [f]) = (last_map fs)(file_key f \<mapsto> length fs)"
  by (simp add: last_map_def enumerate_append_eq)

lemma keep_last_snoc: "keep_last (fs @ [f]) = filter (\<lambda>g. file_key g \<noteq> file_key f) (keep_last fs) @ [f]"
proof -
  have "filter (\<lambda>(i, g). last_map (fs @ [f]) (file_key g) = Some i) (enumerate 0 fs) =
      filter (\<lambda>(i, g). file_key g \<noteq> file_key f \<and> last_map fs (file_key g) = Some i) (enumerate 0 fs)"
    by (rule filter_cong) (auto simp: last_map_snoc in_set_enumerate_eq)
  then show ?thesis
    by (simp add: keep_last_def enumerate_append_eq last_map_snoc filter_map o_def case_prod_beta' conj_commute
        cong: if_cong)
qed

lemma keep_last_distinct: "distinct (map file_key (keep_last fs))"
proof (induction fs rule: rev_induct)
  case (snoc f fs)
  then show ?case by (auto simp: keep_last_snoc distinct_map inj_on_def)
qed (simp add: keep_last_def)

lemma find_filter_other: "(\<And>x. P x \<Longrightarrow> Q x) \<Longrightarrow> find P (filter Q xs) = find P xs"
  by (induction xs) auto

lemma last_for_keep_last: "last_for k (keep_last fs) = last_for k fs"
proof (induction fs rule: rev_induct)
  case (snoc f fs)
  have "k \<noteq> file_key f \<Longrightarrow> last_for k (filter (\<lambda>g. file_key g \<noteq> file_key f) (keep_last fs)) = last_for k (keep_last fs)"
    unfolding last_for_def rev_filter by (rule find_filter_other) auto
  then show ?case using snoc by (auto simp: keep_last_snoc last_for_append last_for_def)
qed (simp add: keep_last_def)

lemma find_map_row: "find (\<lambda>r. file_key r = k) (rev (map (mk_row run) fs)) = map_option (mk_row run) (last_for k fs)"
proof -
  have "find (\<lambda>r. file_key r = k) (map (mk_row run) xs) = map_option (mk_row run) (find (\<lambda>f. file_key f = k) xs)" for xs
    by (induction xs) auto
  then show ?thesis by (simp add: last_for_def rev_map)
qed

section \<open>What a batch does\<close>

lemma UpsertBatch_eq:
  "UpsertBatch None fs run d = (Inr (), d\<lparr>files := fold (tbl_put file_key) (map (mk_row run) (keep_last fs)) (files d)\<rparr>)"
  using keep_last_distinct [of fs]
  by (auto simp: UpsertBatch_def sql_upsert_def o_def keep_last_def)

lemma UpsertBatch_file_at:
  assumes "db_ok d"
  shows "file_at (snd (UpsertBatch None fs run d)) k =
    (case last_for k fs of Some f \<Rightarrow> Some (mk_row run f) | None \<Rightarrow> file_at d k)"
  unfolding UpsertBatch_eq file_at_def
  using files_tbl.get_puts [OF db_ok_wf(2) [OF assms], of k "map (mk_row run) (keep_last fs)"]
  by (simp add: find_map_row last_for_keep_last split: option.splits)

lemma UpsertBatch_ok: "db_ok d \<Longrightarrow> db_ok (snd (UpsertBatch flt fs run d))"
  by (auto simp: UpsertBatch_def sql_upsert_files_ok split: option.splits sum.splits)

lemma UpsertBatch_fault: "fs \<noteq> [] \<Longrightarrow> UpsertBatch (Some e) fs run d = (Inl (DbErr e), d)"
  by (simp add: UpsertBatch_def)

lemma UpsertBatch_next [simp]:
  "next_run (snd (UpsertBatch flt fs run d)) = next_run d"
  "crawl_runs (snd (UpsertBatch flt fs run d)) = crawl_runs d"
  "content_state (snd (UpsertBatch flt fs run d)) = content_state d"
  "chunks (snd (UpsertBatch flt fs run d)) = chunks d"
  by (auto simp: UpsertBatch_def split: option.splits sum.splits)

lemma UpsertBatch_fst: "fst (UpsertBatch None fs run d) = Inr ()"
  by (simp add: UpsertBatch_eq)

section \<open>The stream as a sequence of batches\<close>

function batches :: "nat \<Rightarrow> 'a list \<Rightarrow> 'a list list" where
  "batches n [] = []"
| "batches n (x # xs) = take (max 1 n) (x # xs) # batches n (drop (max 1 n) (x # xs))"
  by pat_completeness auto
termination
  by (relation "measure (length \<circ> snd)") auto

declare batches.simps(2) [simp del]

lemma batches_unfold: "xs \<noteq> [] \<Longrightarrow> batches n xs = take (max 1 n) xs # batches n (drop (max 1 n) xs)"
  by (cases xs) (simp_all add: batches.simps(2))

lemma concat_batches [simp]: "concat (batches n xs) = xs"
  by (induction n xs rule: batches.induct) (simp_all add: batches.simps(2) del: drop_Cons' take_Cons')

lemma batches_ne: "list_all (\<lambda>b. b \<noteq> [] \<and> length b \<le> max 1 n) (batches n xs)"
  by (induction n xs rule: batches.induct) (auto simp: batches.simps(2))

fun write_batches ::
  "(nat \<Rightarrow> fault) \<Rightarrow> nat \<Rightarrow> File list list \<Rightarrow> int \<Rightarrow> db \<Rightarrow> nat \<times> index_err option \<times> db" where
  "write_batches flts i [] run d = (0, None, d)"
| "write_batches flts i (b # bs) run d =
     (let (res, d1) = UpsertBatch (flts i) b run d;
          (w, e, d2) = write_batches flts (Suc i) bs run d1
      in case res of Inr _ \<Rightarrow> (length b + w, e, d2) | Inl x \<Rightarrow> (w, Some x, d2))"

definition flush_batch :: "(nat \<Rightarrow> fault) \<Rightarrow> int \<Rightarrow> File list \<Rightarrow> stream \<Rightarrow> stream" where
  "flush_batch flts run b st = stream_flush flts run (st\<lparr>st_batch := b\<rparr>)"

lemma flush_batch_empty: "st_batch (stream_flush flts run st) = []"
  by (auto simp: stream_flush_def Let_def case_prod_beta split: sum.split)

lemma flush_batch_reset [simp]: "stream_flush flts run st\<lparr>st_batch := []\<rparr> = stream_flush flts run st"
  using flush_batch_empty [of flts run st] by (metis stream.surjective stream.update_convs(1) stream.select_convs(1))

lemma stream_fold_batches:
  assumes "length (st_batch st) < max 1 n"
  shows "stream_flush flts run (fold (stream_entry flts run n) fs st) =
    fold (flush_batch flts run) (batches n (st_batch st @ fs)) (st\<lparr>st_batch := []\<rparr>)"
  using assms
proof (induction fs arbitrary: st)
  case Nil
  show ?case
  proof (cases "st_batch st = []")
    case True
    then have "st\<lparr>st_batch := []\<rparr> = st" by simp
    then show ?thesis using True by (simp add: stream_flush_def)
  next
    case False
    then have "batches n (st_batch st) = [st_batch st]" using Nil by (simp add: batches_unfold)
    then show ?thesis by (simp add: flush_batch_def)
  qed
next
  case (Cons f fs)
  let ?b = "st_batch st @ [f]"
  show ?case
  proof (cases "n \<le> length ?b")
    case True
    let ?st = "stream_flush flts run (st\<lparr>st_batch := ?b\<rparr>)"
    have len: "length ?b = max 1 n" using True Cons.prems by auto
    have "batches n (?b @ fs) = ?b # batches n fs"
      using batches_unfold [of "?b @ fs" n, unfolded len [symmetric]] by simp
    moreover have "stream_entry flts run n f st = ?st" using True by (simp add: stream_entry_def)
    ultimately show ?thesis
      using Cons.IH [of ?st] by (simp add: flush_batch_empty flush_batch_def)
  next
    case False
    then show ?thesis using Cons.IH [of "st\<lparr>st_batch := ?b\<rparr>"] Cons.prems by (simp add: stream_entry_def)
  qed
qed

lemma fold_flush_batches:
  assumes "list_all (\<lambda>b. b \<noteq> []) bs" "write_batches flts (st_calls st) bs run (st_db st) = (w, e, d)"
  shows "st_written (fold (flush_batch flts run) bs st) = st_written st + w \<and>
    st_err (fold (flush_batch flts run) bs st) = (case st_err st of None \<Rightarrow> e | Some x \<Rightarrow> Some x) \<and>
    st_db (fold (flush_batch flts run) bs st) = d"
  using assms
proof (induction bs arbitrary: st w e d)
  case (Cons b bs)
  obtain res d1 where u: "UpsertBatch (flts (st_calls st)) b run (st_db st) = (res, d1)" by fastforce
  obtain w1 e1 d2 where r: "write_batches flts (Suc (st_calls st)) bs run d1 = (w1, e1, d2)" by (metis prod_cases3)
  let ?st = "flush_batch flts run b st"
  have st: "st_calls ?st = Suc (st_calls st)" "st_db ?st = d1"
    "st_written ?st = (case res of Inl _ \<Rightarrow> st_written st | Inr _ \<Rightarrow> st_written st + length b)"
    "st_err ?st = (case res of Inl x \<Rightarrow> (case st_err st of None \<Rightarrow> Some x | Some y \<Rightarrow> Some y) | Inr _ \<Rightarrow> st_err st)"
    using Cons.prems(1) u by (auto simp: flush_batch_def stream_flush_def Let_def split: sum.split option.split)
  have "(w, e, d) = (case res of Inr _ \<Rightarrow> (length b + w1, e1, d2) | Inl x \<Rightarrow> (w1, Some x, d2))"
    using Cons.prems(2) u r by simp
  then show ?case
    using Cons.IH [of ?st w1 e1] Cons.prems(1) r st by (cases res) (auto split: option.splits)
qed (simp split: option.split)

lemma StreamUpsert_batches:
  "StreamUpsert flts entries run n d = write_batches flts 0 (batches n entries) run d"
proof -
  obtain w e d' where r: "write_batches flts 0 (batches n entries) run d = (w, e, d')" by (metis prod_cases3)
  have "list_all (\<lambda>b. b \<noteq> []) (batches n entries)" using batches_ne [of n entries] by (simp add: list_all_iff)
  then show ?thesis
    using fold_flush_batches [of "batches n entries" flts "stream_init d" run w e d'] r
      stream_fold_batches [of "stream_init d" n flts run entries]
    by (simp add: StreamUpsert_def Let_def) (simp add: stream_init_def)
qed

lemma write_batches_file_at:
  assumes "db_ok d" "write_batches (\<lambda>_. None) i bs run d = (w, e, d')"
  shows "w = length (concat bs) \<and> e = None \<and> db_ok d' \<and>
    file_at d' k = (case last_for k (concat bs) of Some f \<Rightarrow> Some (mk_row run f) | None \<Rightarrow> file_at d k)"
  using assms
proof (induction bs arbitrary: i d w e d')
  case (Cons b bs)
  obtain res d1 where u: "UpsertBatch None b run d = (res, d1)" by fastforce
  obtain w1 e1 d2 where r: "write_batches (\<lambda>_. None) (Suc i) bs run d1 = (w1, e1, d2)" by (metis prod_cases3)
  have res: "res = Inr ()" using UpsertBatch_fst [of b run d] u by simp
  have d1: "db_ok d1" using UpsertBatch_ok [OF Cons.prems(1), of None b run] u by simp
  have f: "file_at d1 k = (case last_for k b of Some f \<Rightarrow> Some (mk_row run f) | None \<Rightarrow> file_at d k)"
    using UpsertBatch_file_at [OF Cons.prems(1), of b run k] u by simp
  have "w = length b + w1" "e = e1" "d' = d2" using Cons.prems(2) u r res by auto
  then show ?case using Cons.IH [OF d1 r] f by (auto simp: last_for_append split: option.splits)
qed simp

lemma write_batches_keeps:
  assumes "write_batches flts i bs run d = (w, e, d')"
  shows "(db_ok d \<longrightarrow> db_ok d') \<and> next_run d' = next_run d \<and> crawl_runs d' = crawl_runs d \<and>
    content_state d' = content_state d \<and> chunks d' = chunks d"
  using assms
proof (induction bs arbitrary: i d w e d')
  case (Cons b bs)
  obtain res d1 where u: "UpsertBatch (flts i) b run d = (res, d1)" by fastforce
  obtain w1 e1 d2 where r: "write_batches flts (Suc i) bs run d1 = (w1, e1, d2)" by (metis prod_cases3)
  have "d' = d2" using Cons.prems u r by (auto split: sum.splits)
  then show ?case
    using Cons.IH [OF r] UpsertBatch_ok [of d "flts i" b run] UpsertBatch_next [of "flts i" b run d] u by simp
qed simp

text \<open>With faults: the result counts exactly the entries of the batches that were stored, and an
  error is reported exactly when one was not.\<close>

lemma write_batches_faults:
  assumes "list_all (\<lambda>b. b \<noteq> []) bs" "write_batches flts i bs run d = (w, e, d')"
  shows "w = sum_list (map (\<lambda>(j, b). if flts j = None then length b else 0) (enumerate i bs)) \<and>
    (e = None \<longleftrightarrow> list_all (\<lambda>j. flts j = None) [i..<i + length bs])"
  using assms
proof (induction bs arbitrary: i d w e d')
  case (Cons b bs)
  obtain res d1 where u: "UpsertBatch (flts i) b run d = (res, d1)" by fastforce
  obtain w1 e1 d2 where r: "write_batches flts (Suc i) bs run d1 = (w1, e1, d2)" by (metis prod_cases3)
  have res: "(\<exists>x. res = Inl x) \<longleftrightarrow> flts i \<noteq> None"
    using u Cons.prems(1) UpsertBatch_fst [of b run d] UpsertBatch_fault [of b _ run d] by (cases "flts i") auto
  have up: "[i..<i + length (b # bs)] = i # [Suc i..<Suc i + length bs]" by (simp add: upt_rec)
  show ?case
    using Cons.IH [of "Suc i" d1 w1 e1] r Cons.prems u res unfolding up by (cases res) auto
qed simp

section \<open>Sweeping\<close>

definition seen_ok :: "db \<Rightarrow> bool" where
  "seen_ok d \<longleftrightarrow> list_all (\<lambda>r. last_seen_run r < next_run d) (files d)"

lemma Sweep_file_at:
  assumes "db_ok d"
  shows "file_at (snd (Sweep None vol run d)) k =
    (case file_at d k of
       Some r \<Rightarrow> if fVolume r = vol \<and> last_seen_run r \<noteq> run then None else Some r
     | None \<Rightarrow> None)"
  using assms by (simp add: Sweep_def Let_def file_at_delete)

lemma Sweep_ok: "db_ok d \<Longrightarrow> db_ok (snd (Sweep flt vol run d))"
  by (auto simp: Sweep_def Let_def sql_delete_files_ok split: option.splits)

lemma Delete_ok: "db_ok d \<Longrightarrow> db_ok (snd (Delete flt vol p d))"
  by (auto simp: Delete_def sql_delete_files_ok split: option.splits)

lemma StartCrawlRun_ok: "db_ok d \<Longrightarrow> db_ok (snd (StartCrawlRun flt now vol trig d))"
  by (auto simp: StartCrawlRun_def db_ok_def tbl_wf_def list_all_iff split: option.splits)

lemma FinishCrawlRun_ok: "db_ok d \<Longrightarrow> db_ok (snd (FinishCrawlRun flt now i res d))"
  by (auto simp: FinishCrawlRun_def db_ok_def tbl_wf_def list_all_iff Let_def o_def if_distrib
      split: option.splits cong: if_cong)

lemma file_at_stored: "db_ok d \<Longrightarrow> file_at d k = Some r \<Longrightarrow> r \<in> set (files d) \<and> file_key r = k"
  by (simp add: file_at_def tbl_get_eq db_ok_wf)

text \<open>
  A whole run over one volume, nothing else writing: start, stream every entry, sweep. The run
  identity is fresh, so the sweep removes exactly the rows of the volume that were not streamed.
\<close>

lemma mirror:
  assumes ok: "db_ok d" and seen: "seen_ok d" and run: "next_run d \<le> run"
    and vol: "list_all (\<lambda>f. fVolume f = vol) fs"
    and st: "StreamUpsert (\<lambda>_. None) fs run n d = (w, e, d')"
  shows "file_at (snd (Sweep None vol run d')) k =
    (case last_for k fs of
       Some f \<Rightarrow> Some (mk_row run f)
     | None \<Rightarrow> if fst k = vol then None else file_at d k)"
proof -
  have d': "db_ok d'" and f: "file_at d' k = (case last_for k fs of Some f \<Rightarrow> Some (mk_row run f) | None \<Rightarrow> file_at d k)"
    using write_batches_file_at [OF ok, of 0 "batches n fs" run w e d' k] st by (simp_all add: StreamUpsert_batches)
  have old: "last_seen_run r \<noteq> run \<and> (fVolume r = vol \<longleftrightarrow> fst k = vol)" if "file_at d k = Some r" for r
  proof -
    have "r \<in> set (files d)" "file_key r = k" using file_at_stored [OF ok that] by auto
    then show ?thesis using seen run by (auto simp: seen_ok_def list_all_iff file_key_def)
  qed
  have new: "fVolume f = vol" if "last_for k fs = Some f" for f
    using last_for_Some [OF that] vol by (simp add: list_all_iff)
  show ?thesis
    using old new by (auto simp: Sweep_file_at [OF d'] f split: option.splits)
qed

section \<open>Properties\<close>

text \<open>A batch stores, for every key it contains, the last entry given for it stamped with the run,
  leaves every other row and all extracted content alone, and is never refused for touching a row
  twice.\<close>

theorem UpsertBatch_correct:
  assumes "db_ok d"
  shows "case UpsertBatch None fs run d of (res, d') \<Rightarrow>
    res = Inr () \<and> db_ok d' \<and> content_state d' = content_state d \<and> chunks d' = chunks d \<and>
    (\<forall>k. file_at d' k = (case last_for k fs of Some f \<Rightarrow> Some (mk_row run f) | None \<Rightarrow> file_at d k))"
  using UpsertBatch_fst [of fs run d] UpsertBatch_ok [OF assms, of None fs run]
    UpsertBatch_next [of None fs run d] UpsertBatch_file_at [OF assms, of fs run]
  by (simp add: case_prod_beta)

definition example_file :: "string \<Rightarrow> int \<Rightarrow> File" where
  "example_file p n = \<lparr>fVolume = 1, fPath = p, fName = p, fDir = [], fExt = [], fIsDir = False,
     fSize = n, fModTime = 5\<rparr>"

theorem UpsertBatch_correct_witness:
  "file_at (snd (UpsertBatch None [example_file ''a'' 1, example_file ''b'' 2, example_file ''a'' 3] 4 empty_db)) (1, ''a'')
     = Some (mk_row 4 (example_file ''a'' 3))"
  using UpsertBatch_correct [OF db_ok_empty,
      where fs = "[example_file ''a'' 1, example_file ''b'' 2, example_file ''a'' 3]" and run = 4]
  by (simp add: case_prod_beta last_for_def example_file_def file_key_def)

text \<open>Streaming entries in batches is the same as sending the batches of the given size one by one;
  a failed batch never stops the stream: the count returned is that of the entries in the batches
  that were stored, and an error is returned exactly when some batch was not.\<close>

theorem StreamUpsert_correct:
  "StreamUpsert flts es run n d = write_batches flts 0 (batches n es) run d \<and>
   concat (batches n es) = es \<and>
   fst (StreamUpsert flts es run n d) =
     sum_list (map (\<lambda>(j, b). if flts j = None then length b else 0) (enumerate 0 (batches n es))) \<and>
   (fst (snd (StreamUpsert flts es run n d)) = None \<longleftrightarrow>
     list_all (\<lambda>j. flts j = None) [0..<length (batches n es)])"
proof -
  obtain w e d' where r: "write_batches flts 0 (batches n es) run d = (w, e, d')" by (metis prod_cases3)
  have "list_all (\<lambda>b. b \<noteq> []) (batches n es)" using batches_ne [of n es] by (simp add: list_all_iff)
  from write_batches_faults [OF this r] r show ?thesis by (simp add: StreamUpsert_batches)
qed

text \<open>Reconciling a volume with a complete list of its files, under a run no stored row of the
  volume carries, leaves exactly those files in the volume and every other volume untouched.\<close>

theorem Reconcile_correct:
  assumes "db_ok d" "list_all (\<lambda>f. fVolume f = vol) fs"
    and "list_all (\<lambda>r. fVolume r \<noteq> vol \<or> last_seen_run r \<noteq> run) (files d)"
  shows "case Reconcile None None vol fs run d of (res, d') \<Rightarrow>
    res = Inr () \<and>
    (\<forall>k. file_at d' k = (case last_for k fs of
       Some f \<Rightarrow> Some (mk_row run f)
     | None \<Rightarrow> if fst k = vol then None else file_at d k))"
proof -
  let ?d = "snd (UpsertBatch None fs run d)"
  have rec: "Reconcile None None vol fs run d = (Inr (), snd (Sweep None vol run ?d))"
    using UpsertBatch_fst [of fs run d] by (simp add: Reconcile_def Sweep_def Let_def case_prod_beta)
  have old: "last_seen_run r \<noteq> run \<or> fst k \<noteq> vol" "fVolume r = fst k" if "file_at d k = Some r" for k r
    using file_at_stored [OF assms(1) that] assms(3) by (auto simp: list_all_iff file_key_def)
  have new: "fVolume f = vol" if "last_for k fs = Some f" for k f
    using last_for_Some [OF that] assms(2) by (simp add: list_all_iff)
  have "file_at (snd (Sweep None vol run ?d)) k = (case last_for k fs of
       Some f \<Rightarrow> Some (mk_row run f) | None \<Rightarrow> if fst k = vol then None else file_at d k)" for k
    using old [of k] new [of k]
    by (auto simp: Sweep_file_at [OF UpsertBatch_ok [OF assms(1)]] UpsertBatch_file_at [OF assms(1)] split: option.splits)
  then show ?thesis by (simp add: rec)
qed

theorem Reconcile_correct_witness:
  "file_at (snd (Reconcile None None 1 [example_file ''b'' 2] 7
     (empty_db\<lparr>files := [mk_row 6 (example_file ''a'' 1)]\<rparr>))) (1, ''a'') = None"
proof -
  have "db_ok (empty_db\<lparr>files := [mk_row 6 (example_file ''a'' 1)]\<rparr>)"
    by (simp add: db_ok_def empty_db_def tbl_wf_def)
  from Reconcile_correct [OF this, where vol = 1 and fs = "[example_file ''b'' 2]" and run = 7]
  show ?thesis by (simp add: case_prod_beta last_for_def example_file_def file_key_def)
qed

end
