(* ===== verification/IndexQuery.thy ===== *)
theory IndexQuery
  imports Database PathNames "HOL-Library.List_Lexorder" "HOL-Library.Char_ord" "HOL-Library.Product_Lexorder"
begin

text \<open>
  The reading half of \<open>internal/index/index.go\<close>: \<open>List\<close>, \<open>Search\<close>, \<open>Stat\<close>, the counts and
  the rankings. \<open>LIKE\<close> is Postgres's pattern language with backslash as escape; \<open>ILIKE\<close>
  lowers both sides with the tables of the database's locale, a parameter of type \<open>unicode\<close>.
  \<open>ORDER BY \<dots> COLLATE "C"\<close> compares bytes, which is the lexicographic order on strings.
  Where the order of the SQL leaves ties, the model keeps the order of the table.
\<close>

section \<open>\<open>LIKE\<close> patterns\<close>

definition pct :: char where "pct = CHR 0x25"
definition under :: char where "under = CHR 0x5F"
definition bsl :: char where "bsl = CHR 0x5C"

function like_match :: "string \<Rightarrow> string \<Rightarrow> bool" where
  "like_match [] t = (t = [])"
| "like_match (p # ps) t =
     (if p = pct then like_match ps t \<or> (case t of [] \<Rightarrow> False | _ # t' \<Rightarrow> like_match (p # ps) t')
      else if p = under then t \<noteq> [] \<and> like_match ps (drop (snd (decode_rune t)) t)
      else if p = bsl then
        (case (ps, t) of (q # ps', c # t') \<Rightarrow> c = q \<and> like_match ps' t' | _ \<Rightarrow> False)
      else (case t of [] \<Rightarrow> False | c # t' \<Rightarrow> c = p \<and> like_match ps t'))"
  by pat_completeness auto
termination
  by (relation "measure (\<lambda>(p, t). length p + length t)") auto

declare like_match.simps(2) [simp del]

definition escape_char :: "char \<Rightarrow> string" where
  "escape_char c = (if c = bsl \<or> c = pct \<or> c = under then [bsl, c] else [c])"

definition likeEscape :: "string \<Rightarrow> string" where
  "likeEscape s = concat (map escape_char s)"

definition ilike :: "unicode \<Rightarrow> string \<Rightarrow> string \<Rightarrow> bool" where
  "ilike pg s pat = like_match (to_lower pg pat) (to_lower pg s)"

definition dot_pattern :: string where
  "dot_pattern = [CHR 0x2E, pct]"

definition slash_dot_pattern :: string where
  "slash_dot_pattern = [pct, sl, CHR 0x2E, pct]"

definition visible_path :: "string \<Rightarrow> bool" where
  "visible_path p \<longleftrightarrow> \<not> like_match dot_pattern p \<and> \<not> like_match slash_dot_pattern p"

section \<open>Queries\<close>

record time_range =
  tr_from :: int
  tr_to :: int

definition list_keep :: "int \<Rightarrow> string \<Rightarrow> bool \<Rightarrow> file_row \<Rightarrow> bool" where
  "list_keep vol dir includeHidden r \<longleftrightarrow> fVolume r = vol \<and> fDir r = dir \<and>
     (includeHidden \<or> \<not> like_match dot_pattern (fName r))"

definition List_files :: "fault \<Rightarrow> int \<Rightarrow> string \<Rightarrow> bool \<Rightarrow> db \<Rightarrow> index_err + File list" where
  "List_files flt vol dir includeHidden d =
     (let dir = normalizeDir dir in
      case flt of
        Some e \<Rightarrow> Inl (DbErr e)
      | None \<Rightarrow> Inr (map row_file
          (sort_key (\<lambda>r. (\<not> fIsDir r, fName r)) (filter (list_keep vol dir includeHidden) (files d)))))"

definition search_keep :: "unicode \<Rightarrow> int \<Rightarrow> string \<Rightarrow> bool \<Rightarrow> time_range \<Rightarrow> file_row \<Rightarrow> bool" where
  "search_keep pg vol q includeHidden modified r \<longleftrightarrow>
     (vol = 0 \<or> fVolume r = vol) \<and>
     ilike pg (fName r) (pct # likeEscape q @ [pct]) \<and>
     (tr_from modified = 0 \<or> tr_from modified \<le> fModTime r) \<and>
     (tr_to modified = 0 \<or> fModTime r < tr_to modified) \<and>
     (includeHidden \<or> visible_path (fPath r))"

definition search_order :: "time_range \<Rightarrow> file_row list \<Rightarrow> file_row list" where
  "search_order modified rs =
     (if tr_from modified \<noteq> 0 \<or> tr_to modified \<noteq> 0
      then sort_key (\<lambda>r. (- fModTime r, fName r)) rs
      else sort_key fName rs)"

definition Search ::
  "unicode \<Rightarrow> fault \<Rightarrow> int \<Rightarrow> string \<Rightarrow> int \<Rightarrow> bool \<Rightarrow> time_range \<Rightarrow> db \<Rightarrow> index_err + File list" where
  "Search pg flt vol q lim includeHidden modified d =
     (let lim = (if lim \<le> 0 \<or> 500 < lim then 100 else lim) in
      case flt of
        Some e \<Rightarrow> Inl (DbErr e)
      | None \<Rightarrow> Inr (map row_file (take (nat lim)
          (search_order modified (filter (search_keep pg vol q includeHidden modified) (files d))))))"

definition Stat :: "fault \<Rightarrow> int \<Rightarrow> string \<Rightarrow> db \<Rightarrow> index_err + File option" where
  "Stat flt vol p d =
     (case flt of
        Some e \<Rightarrow> Inl (DbErr e)
      | None \<Rightarrow> Inr (map_option row_file (file_at d (vol, trim_bytes p [sl]))))"

record stats =
  FileCount :: nat
  DirCount :: nat

definition Stats :: "fault \<Rightarrow> fault \<Rightarrow> db \<Rightarrow> index_err + stats" where
  "Stats flt1 flt2 d =
     (case flt1 of
        Some e \<Rightarrow> Inl (DbErr e)
      | None \<Rightarrow>
          (case flt2 of
             Some e \<Rightarrow> Inl (DbErr e)
           | None \<Rightarrow> Inr \<lparr>FileCount = length (filter (\<lambda>r. \<not> fIsDir r) (files d)),
                        DirCount = length (filter fIsDir (files d))\<rparr>))"

definition VolumeStats :: "fault \<Rightarrow> fault \<Rightarrow> int \<Rightarrow> db \<Rightarrow> index_err + stats" where
  "VolumeStats flt1 flt2 vol d =
     (case flt1 of
        Some e \<Rightarrow> Inl (DbErr e)
      | None \<Rightarrow>
          (case flt2 of
             Some e \<Rightarrow> Inl (DbErr e)
           | None \<Rightarrow> Inr \<lparr>FileCount = length (filter (\<lambda>r. fVolume r = vol \<and> \<not> fIsDir r) (files d)),
                        DirCount = length (filter (\<lambda>r. fVolume r = vol \<and> fIsDir r) (files d))\<rparr>))"

record ext_stat =
  es_ext :: string
  es_count :: nat
  es_total :: int

text \<open>\<open>coll\<close> is the database's collation, as a sort key.\<close>

definition ext_groups :: "int \<Rightarrow> db \<Rightarrow> (string \<times> file_row list) list" where
  "ext_groups vol d =
     (let rs = filter (\<lambda>r. fVolume r = vol \<and> \<not> fIsDir r) (files d)
      in map (\<lambda>e. (e, filter (\<lambda>r. fExt r = e) rs)) (remdups (map fExt rs)))"

definition group_stat :: "string \<times> file_row list \<Rightarrow> ext_stat" where
  "group_stat g = \<lparr>es_ext = (if fst g = [] then ''(none)'' else fst g), es_count = length (snd g),
     es_total = sum_list (map fSize (snd g))\<rparr>"

definition ExtensionBreakdown ::
  "(string \<Rightarrow> string) \<Rightarrow> fault \<Rightarrow> int \<Rightarrow> int \<Rightarrow> db \<Rightarrow> index_err + ext_stat list" where
  "ExtensionBreakdown coll flt vol lim d =
     (let lim = (if lim \<le> 0 \<or> 100 < lim then 8 else lim) in
      case flt of
        Some e \<Rightarrow> Inl (DbErr e)
      | None \<Rightarrow> Inr (map group_stat (take (nat lim)
          (sort_key (\<lambda>g. (- sum_list (map fSize (snd g)), coll (fst g))) (ext_groups vol d)))))"

definition LargestFiles :: "fault \<Rightarrow> int \<Rightarrow> int \<Rightarrow> db \<Rightarrow> index_err + File list" where
  "LargestFiles flt vol lim d =
     (let lim = (if lim \<le> 0 \<or> 100 < lim then 8 else lim) in
      case flt of
        Some e \<Rightarrow> Inl (DbErr e)
      | None \<Rightarrow> Inr (map row_file (take (nat lim)
          (sort_key (\<lambda>r. (- fSize r, fPath r)) (filter (\<lambda>r. fVolume r = vol \<and> \<not> fIsDir r) (files d))))))"

section \<open>What the patterns mean\<close>

lemma like_pct: "like_match (pct # p) t \<longleftrightarrow> (\<exists>a b. t = a @ b \<and> like_match p b)"
proof (induction t)
  case Nil
  then show ?case by (simp add: like_match.simps(2))
next
  case (Cons c t)
  have "like_match (pct # p) (c # t) \<longleftrightarrow> like_match p (c # t) \<or> (\<exists>a b. t = a @ b \<and> like_match p b)"
    using Cons by (subst like_match.simps(2)) simp
  also have "\<dots> \<longleftrightarrow> (\<exists>a b. c # t = a @ b \<and> like_match p b)"
    by (auto simp: Cons_eq_append_conv)
  finally show ?case .
qed

lemma like_pct_end: "like_match [pct] t"
  by (auto simp: like_pct)

lemma escape_match:
  "like_match (escape_char c @ p) t \<longleftrightarrow> t \<noteq> [] \<and> hd t = c \<and> like_match p (tl t)"
  by (cases t) (auto simp: escape_char_def like_match.simps(2) pct_def under_def bsl_def)

lemma likeEscape_match: "like_match (likeEscape q @ p) t \<longleftrightarrow> (\<exists>b. t = q @ b \<and> like_match p b)"
proof (induction q arbitrary: t)
  case (Cons c q)
  have "like_match (likeEscape (c # q) @ p) t \<longleftrightarrow> t \<noteq> [] \<and> hd t = c \<and> like_match (likeEscape q @ p) (tl t)"
    by (simp add: likeEscape_def escape_match)
  then show ?case using Cons by (cases t) auto
qed (simp add: likeEscape_def)

lemma like_contains: "like_match (pct # likeEscape q @ [pct]) t \<longleftrightarrow> contains t q"
  by (auto simp: like_pct likeEscape_match like_pct_end contains_iff)

lemma like_literal:
  "c \<noteq> pct \<Longrightarrow> c \<noteq> under \<Longrightarrow> c \<noteq> bsl \<Longrightarrow> like_match (c # p) t \<longleftrightarrow> t \<noteq> [] \<and> hd t = c \<and> like_match p (tl t)"
  by (cases t) (auto simp: like_match.simps(2))

lemma like_dot: "like_match (CHR 0x2E # p) t \<longleftrightarrow> t \<noteq> [] \<and> hd t = CHR 0x2E \<and> like_match p (tl t)"
  by (rule like_literal) (simp_all add: pct_def under_def bsl_def)

lemma like_slash: "like_match (sl # p) t \<longleftrightarrow> t \<noteq> [] \<and> hd t = sl \<and> like_match p (tl t)"
  by (rule like_literal) (simp_all add: sl_def pct_def under_def bsl_def)

lemma dot_pattern_iff: "like_match dot_pattern t \<longleftrightarrow> prefix dot t"
  by (cases t) (auto simp: dot_pattern_def dot_def like_dot like_pct_end)

lemma slash_dot_pattern_iff: "like_match slash_dot_pattern t \<longleftrightarrow> contains t (sl # dot)"
proof -
  have "like_match (sl # CHR 0x2E # [pct]) b \<longleftrightarrow> prefix (sl # dot) b" for b
    by (cases b; cases "tl b") (auto simp: dot_def like_dot like_slash like_pct_end)
  then show ?thesis by (auto simp: slash_dot_pattern_def like_pct contains_iff prefix_def)
qed

lemma prefix_dot_component: "prefix dot (x @ sl # r) \<longleftrightarrow> prefix dot x"
  by (cases x) (auto simp: dot_def sl_def)

lemma split_first: "sl \<in> set p \<Longrightarrow> \<exists>x r. p = x @ sl # r \<and> sl \<notin> set x"
  by (metis split_list_first)

lemma contains_after:
  assumes "sl \<notin> set x"
  shows "contains (x @ sl # r) (sl # dot) \<longleftrightarrow> prefix dot r \<or> contains r (sl # dot)"
proof -
  have "contains (x @ s) (sl # dot) = contains s (sl # dot)" for s
    using assms by (induction x) (auto simp: contains_def)
  then show ?thesis by (auto simp: contains_def)
qed

lemma visible_split:
  "sl \<notin> set x \<Longrightarrow> visible_path (x @ sl # r) \<longleftrightarrow> \<not> prefix dot x \<and> visible_path r"
  by (auto simp: visible_path_def dot_pattern_iff slash_dot_pattern_iff contains_after prefix_dot_component)

lemma visible_one: "sl \<notin> set x \<Longrightarrow> visible_path x \<longleftrightarrow> \<not> prefix dot x"
  by (auto simp: visible_path_def dot_pattern_iff slash_dot_pattern_iff contains_iff)

text \<open>A path is visible if none of its components starts with a dot.\<close>

lemma visible_path_iff: "visible_path p \<longleftrightarrow> list_all (\<lambda>c. \<not> prefix dot c) (split_on [sl] p)"
proof (induction "length p" arbitrary: p rule: less_induct)
  case less
  show ?case
  proof (cases "sl \<in> set p")
    case True
    then obtain x r where p: "p = x @ sl # r" "sl \<notin> set x" using split_first by blast
    then show ?thesis using less [of r] by (simp add: visible_split split_on_cons)
  qed (simp add: visible_one split_on_one)
qed

section \<open>Case-insensitive search for what was typed\<close>

definition special :: "nat \<Rightarrow> bool" where
  "special r \<longleftrightarrow> r = 0x25 \<or> r = 0x5F \<or> r = 0x5C"

text \<open>Lowering never produces a pattern character from another rune.\<close>

definition plain_lower :: "unicode \<Rightarrow> bool" where
  "plain_lower u \<longleftrightarrow> (\<forall>r\<ge>0x80. \<not> special (uc_lower u r))"

lemma escape_char_byte: "escape_char c = (if special (bval c) then [bsl, c] else [c])"
proof -
  have "bval c = bval c' \<longleftrightarrow> c = c'" for c c' using of_char_eq_iff by blast
  from this [of "CHR 0x25"] this [of "CHR 0x5F"] this [of "CHR 0x5C"] show ?thesis
    by (auto simp: escape_char_def special_def pct_def under_def bsl_def)
qed

lemma likeEscape_append: "likeEscape (s @ t) = likeEscape s @ likeEscape t"
  by (simp add: likeEscape_def)

lemma likeEscape_plain: "list_all (\<lambda>c. \<not> special (bval c)) s \<Longrightarrow> likeEscape s = s"
  by (induction s) (simp_all add: likeEscape_def escape_char_byte)

lemma likeEscape_rune:
  assumes "valid_rune r"
  shows "likeEscape (encode_rune r) = (if special r then bsl # encode_rune r else encode_rune r)"
proof (cases "r < 0x80")
  case True
  then show ?thesis by (simp add: encode_rune_1 likeEscape_def escape_char_byte)
next
  case False
  have "\<not> special (bval c)" if "c \<in> set (encode_rune r)" for c
    using encode_rune_bytes [OF that] False by (auto simp: special_def)
  moreover have "\<not> special r" using False by (auto simp: special_def)
  ultimately show ?thesis using likeEscape_plain [of "encode_rune r"] by (simp add: list_all_iff)
qed

lemma lower_special:
  assumes "plain_lower u" "valid_rune (lower_rune u r)"
  shows "special (lower_rune u r) = special r"
  using assms by (auto simp: plain_lower_def special_def lower_rune_def)

text \<open>The lowered tables send valid runes to valid runes.\<close>

definition lower_valid :: "unicode \<Rightarrow> bool" where
  "lower_valid u \<longleftrightarrow> (\<forall>r\<ge>0x80. valid_rune (uc_lower u r))"

lemma lower_rune_valid: "lower_valid u \<Longrightarrow> valid_rune (lower_rune u r)"
  by (auto simp: lower_valid_def lower_rune_def valid_rune_def)

lemma to_lower_likeEscape:
  assumes u: "plain_lower u" "lower_valid u" and q: "valid_utf8 q"
  shows "to_lower u (likeEscape q) = likeEscape (to_lower u q) \<and> valid_utf8 (likeEscape q)"
  using q
proof (induction q rule: valid_utf8_induct)
  case Nil
  then show ?case by (simp add: likeEscape_def)
next
  case (step s r w)
  let ?b = "take w s" and ?l = "lower_rune u r"
  have b: "encode_rune r = ?b" using decode_good_encode step(2-4) by blast
  have r: "valid_rune r" using decode_valid_rune [OF step(2)] step(3) by simp
  have bs: "bval bsl = 0x5C" "bsl = CHR 0x5C" by (simp_all add: bsl_def)
  have lb: "encode_rune (lower_rune u (bval bsl)) = [bsl]"
    by (simp add: bs(1) lower_rune_def encode_rune_1) (simp add: bsl_def char_of_eq_iff)
  have e: "likeEscape ?b = (if special r then bsl # ?b else ?b)" using likeEscape_rune [OF r] b by simp
  have vb: "valid_utf8 ?b" using valid_encode [of r] b by simp
  have ve: "valid_utf8 (likeEscape ?b)"
    using vb valid_utf8_appendI [of "[bsl]" ?b] ascii_valid [of "[bsl]"] by (simp add: e bs(1))
  have low: "to_lower u ?b = encode_rune ?l" using to_lower_rune [OF r, of u] b by simp
  have "to_lower u (likeEscape ?b) = likeEscape (to_lower u ?b)"
    using likeEscape_rune [OF lower_rune_valid [OF u(2)], of r] lower_special [OF u(1) lower_rune_valid [OF u(2)]]
    by (simp add: e low to_lower_ascii bs(1) lb [unfolded bs(1)])
  moreover have "likeEscape s = likeEscape ?b @ likeEscape (drop w s)"
    by (metis append_take_drop_id likeEscape_append)
  moreover have "to_lower u s = to_lower u ?b @ to_lower u (drop w s)"
    using to_lower_append [OF vb, of u "drop w s"] by simp
  ultimately show ?case
    using step.IH ve by (simp add: to_lower_append likeEscape_append valid_utf8_appendI)
qed

lemma ilike_contains:
  assumes "plain_lower pg" "lower_valid pg" "valid_utf8 q"
  shows "ilike pg s (pct # likeEscape q @ [pct]) \<longleftrightarrow> contains (to_lower pg s) (to_lower pg q)"
proof -
  have p: "bval pct = 0x25" by (simp add: pct_def)
  have lp: "encode_rune (lower_rune pg 0x25) = [pct]" by (simp add: lower_rune_def encode_rune_1) (simp add: pct_def char_of_eq_iff)
  have "to_lower pg (pct # likeEscape q @ [pct]) = pct # likeEscape (to_lower pg q) @ [pct]"
    using to_lower_likeEscape [OF assms] by (simp add: to_lower_ascii to_lower_append p lp)
  then show ?thesis by (simp add: ilike_def like_contains)
qed

section \<open>Search\<close>

definition search_match :: "unicode \<Rightarrow> int \<Rightarrow> string \<Rightarrow> bool \<Rightarrow> time_range \<Rightarrow> File \<Rightarrow> bool" where
  "search_match pg vol q includeHidden modified f \<longleftrightarrow>
     (vol = 0 \<or> fVolume f = vol) \<and>
     contains (to_lower pg (fName f)) (to_lower pg q) \<and>
     (tr_from modified = 0 \<or> tr_from modified \<le> fModTime f) \<and>
     (tr_to modified = 0 \<or> fModTime f < tr_to modified) \<and>
     (includeHidden \<or> list_all (\<lambda>c. \<not> prefix dot c) (split_on [sl] (fPath f)))"

definition search_sorted :: "time_range \<Rightarrow> File list \<Rightarrow> bool" where
  "search_sorted modified fs =
     (if tr_from modified = 0 \<and> tr_to modified = 0 then sorted (map fName fs)
      else sorted (map (\<lambda>f. (- fModTime f, fName f)) fs))"

lemma row_file_simps [simp]:
  "fVolume (row_file r) = fVolume r" "fPath (row_file r) = fPath r" "fName (row_file r) = fName r"
  "fDir (row_file r) = fDir r" "fIsDir (row_file r) = fIsDir r" "fSize (row_file r) = fSize r"
  "fModTime (row_file r) = fModTime r" "fExt (row_file r) = fExt r"
  by (simp_all add: row_file_def)

lemma search_keep_match:
  assumes "plain_lower pg" "lower_valid pg" "valid_utf8 q"
  shows "search_keep pg vol q h m r = search_match pg vol q h m (row_file r)"
  by (simp add: search_keep_def search_match_def ilike_contains [OF assms] visible_path_iff)

lemma search_order_props:
  "mset (search_order m rs) = mset rs \<and> search_sorted m (map row_file (search_order m rs))"
  by (simp add: search_order_def search_sorted_def o_def)

text \<open>C19: a successful search returns the first rows, up to the limit, of all files that match:
  in the volume asked for (every volume for 0), with a name that contains the query as typed
  (pattern characters included) up to letter case, modified within the range, and unless hidden
  files were asked for with no path component that starts with a dot; ordered by name, or newest
  first when a time bound is given.\<close>

theorem Search_correct:
  assumes "plain_lower pg" "lower_valid pg" "valid_utf8 q"
    and "Search pg None vol q lim h m d = Inr rs"
  shows "length rs \<le> 500 \<and>
    (\<exists>all. mset all = mset (filter (search_match pg vol q h m) (map row_file (files d))) \<and>
       search_sorted m all \<and>
       rs = take (if lim \<le> 0 \<or> 500 < lim then 100 else nat lim) all)"
proof -
  let ?all = "map row_file (search_order m (filter (search_keep pg vol q h m) (files d)))"
  have "mset ?all = mset (filter (search_match pg vol q h m) (map row_file (files d)))"
    using search_order_props [of m] by (simp add: search_keep_match [OF assms(1-3)] filter_map o_def)
  moreover have "search_sorted m ?all" using search_order_props by blast
  moreover have "rs = take (if lim \<le> 0 \<or> 500 < lim then 100 else nat lim) ?all"
    using assms(4) by (auto simp: Search_def Let_def take_map)
  moreover have "length rs \<le> 500" using assms(4) by (auto simp: Search_def Let_def)
  ultimately show ?thesis by blast
qed

definition ascii_tables :: unicode where
  "ascii_tables = \<lparr>uc_lower = (\<lambda>r. if valid_rune r then r else rune_error), uc_letter = (\<lambda>r. False), uc_digit = (\<lambda>r. False),
     uc_fold = (\<lambda>a b. a = b)\<rparr>"

lemma ascii_tables_ok: "plain_lower ascii_tables" "lower_valid ascii_tables"
  by (auto simp: plain_lower_def lower_valid_def ascii_tables_def special_def rune_error_def valid_rune_def)

definition example_rows :: db where
  "example_rows = empty_db\<lparr>files :=
     [mk_row 1 \<lparr>fVolume = 1, fPath = ''docs/50%_Off.txt'', fName = ''50%_Off.txt'', fDir = ''docs'', fExt = ''txt'',
        fIsDir = False, fSize = 7, fModTime = 100\<rparr>,
      mk_row 1 \<lparr>fVolume = 1, fPath = ''docs/500 off'', fName = ''500 off'', fDir = ''docs'', fExt = [],
        fIsDir = True, fSize = 0, fModTime = 200\<rparr>,
      mk_row 1 \<lparr>fVolume = 1, fPath = ''.config/app.toml'', fName = ''app.toml'', fDir = ''config'',
        fExt = ''toml'', fIsDir = False, fSize = 3, fModTime = 300\<rparr>]\<rparr>"

theorem Search_correct_witness:
  "\<exists>rs. Search ascii_tables None 1 ''0%_o'' 10 False \<lparr>tr_from = 0, tr_to = 0\<rparr> example_rows = Inr rs \<and>
     map fName rs = [''50%_Off.txt''] \<and> length rs \<le> 500"
proof -
  let ?s = "Search ascii_tables None 1 ''0%_o'' 10 False \<lparr>tr_from = 0, tr_to = 0\<rparr> example_rows"
  have e: "case ?s of Inl _ \<Rightarrow> False | Inr rs \<Rightarrow> map fName rs = [''50%_Off.txt'']" by code_simp
  then obtain rs where rs: "?s = Inr rs" "map fName rs = [''50%_Off.txt'']" by (auto split: sum.splits)
  have "valid_utf8 ''0%_o''" by code_simp
  from Search_correct [OF ascii_tables_ok this rs(1)] rs show ?thesis by (intro exI [of _ rs]) simp
qed

section \<open>Listing a directory\<close>

text \<open>A row filed the way the crawler files it, under a directory that is not a dot-directory.\<close>

definition no_dot_edge :: "string list \<Rightarrow> bool" where
  "no_dot_edge ds \<longleftrightarrow> ds = [] \<or> hd (hd ds) \<noteq> CHR 0x2E \<and> last (last ds) \<noteq> CHR 0x2E"

definition filed :: "'a File_scheme \<Rightarrow> bool" where
  "filed r \<longleftrightarrow> (let cs = split_on [sl] (fPath r) in
     list_all plain cs \<and> no_dot_edge (butlast cs) \<and> fDir r = fst (SplitPath (fPath r)))"

lemma join_split: "join [sl] (split_on [sl] p) = p"
proof (induction "length p" arbitrary: p rule: less_induct)
  case less
  show ?case
  proof (cases "sl \<in> set p")
    case True
    then obtain x r where p: "p = x @ sl # r" "sl \<notin> set x" using split_first by blast
    have "split_on [sl] r = hd (split_on [sl] r) # tl (split_on [sl] r)" by simp
    then have "join [sl] (x # split_on [sl] r) = x @ [sl] @ join [sl] (split_on [sl] r)"
      by (metis join.simps(3))
    then show ?thesis using less [of r] p by (simp add: split_on_cons)
  qed (simp add: split_on_one)
qed

lemma filed_dir:
  assumes "filed r"
  shows "fDir r = join [sl] (butlast (split_on [sl] (fPath r)))"
proof -
  let ?cs = "split_on [sl] (fPath r)"
  have "?cs = butlast ?cs @ [last ?cs]" by simp
  then have p: "join [sl] (butlast ?cs @ [last ?cs]) = fPath r" by (simp add: join_split)
  have a: "list_all plain ?cs" "no_dot_edge (butlast ?cs)" "fDir r = fst (SplitPath (fPath r))"
    using assms by (auto simp: filed_def Let_def)
  have "list_all plain (butlast ?cs)" "plain (last ?cs)"
    using a(1) by (auto simp: list_all_iff dest: in_set_butlastD)
  from SplitPath_dir [OF this] a(2,3) p show ?thesis by (simp add: no_dot_edge_def)
qed

lemma plain_no_slash: "list_all plain cs \<Longrightarrow> list_all (\<lambda>x. sl \<notin> set x) cs"
  by (auto simp: list_all_iff plain_def)

lemma join_inj:
  assumes "list_all plain xs" "list_all plain ys" "join [sl] xs = join [sl] ys"
  shows "xs = ys"
proof (cases "xs = [] \<or> ys = []")
  case True
  then show ?thesis using assms join_head by (metis join.simps(1))
next
  case False
  then show ?thesis
    using split_on_join [OF _ plain_no_slash [OF assms(1)]] split_on_join [OF _ plain_no_slash [OF assms(2)]] assms(3)
    by metis
qed

lemma normalizeDir_join: "list_all plain ds \<Longrightarrow> normalizeDir (join [sl] ds) = join [sl] ds"
  unfolding normalizeDir_def
proof (rule trim_bytes_id)
  assume p: "list_all plain ds"
  show "join [sl] ds = [] \<or> hd (join [sl] ds) \<notin> set [sl] \<and> last (join [sl] ds) \<notin> set [sl]"
  proof (cases "ds = []")
    case False
    then have "plain (last ds)" using p by (simp add: list_all_iff)
    then have "last (last ds) \<noteq> sl" by (metis plain_def last_in_set)
    then show ?thesis using join_head [OF False p] join_last [OF False p] by simp
  qed simp
qed

text \<open>A listing is the sorted rows of the volume with that parent, for a volume filed that way.\<close>

lemma List_children_of:
  assumes "list_all (\<lambda>r. fVolume r = vol \<longrightarrow> filed r) (files d)" "list_all plain ds"
  shows "List_files None vol (join [sl] ds) hidden d = Inr (map row_file (sort_key (\<lambda>r. (\<not> fIsDir r, fName r))
    (filter (\<lambda>r. fVolume r = vol \<and> butlast (split_on [sl] (fPath r)) = ds \<and> (hidden \<or> \<not> like_match dot_pattern (fName r))) (files d))))"
proof -
  have k: "list_keep vol (join [sl] ds) hidden r \<longleftrightarrow>
      fVolume r = vol \<and> butlast (split_on [sl] (fPath r)) = ds \<and> (hidden \<or> \<not> like_match dot_pattern (fName r))"
    if "r \<in> set (files d)" for r
  proof (cases "fVolume r = vol")
    case True
    then have "filed r" using that assms(1) by (simp add: list_all_iff)
    moreover from this have "list_all plain (butlast (split_on [sl] (fPath r)))"
      by (auto simp: filed_def Let_def list_all_iff dest: in_set_butlastD)
    ultimately show ?thesis
      using join_inj [OF _ assms(2)] by (auto simp: list_keep_def filed_dir)
  qed (simp add: list_keep_def)
  show ?thesis
    using k by (simp add: List_files_def Let_def normalizeDir_join [OF assms(2)] cong: filter_cong)
qed

text \<open>Listing a directory with hidden files included returns exactly the volume's rows whose path
  is the directory plus one name, directories first and then by name, for an index whose rows are
  filed by \<open>SplitPath\<close> outside dot-directories.\<close>

theorem List_children:
  assumes "list_all filed (files d)" "list_all plain ds"
    and "List_files None vol (join [sl] ds) True d = Inr fs"
  shows "mset fs = mset (map row_file (filter (\<lambda>r. fVolume r = vol \<and>
      butlast (split_on [sl] (fPath r)) = ds) (files d))) \<and>
    sorted (map (\<lambda>f. (\<not> fIsDir f, fName f)) fs)"
proof -
  have "list_all (\<lambda>r. fVolume r = vol \<longrightarrow> filed r) (files d)" using assms(1) by (simp add: list_all_iff)
  from List_children_of [OF this assms(2), of True] assms(3) show ?thesis by (auto simp: o_def)
qed

theorem List_children_witness:
  "\<exists>fs. List_files None 1 (join [sl] [''docs'']) True (example_rows\<lparr>files := take 2 (files example_rows)\<rparr>) = Inr fs \<and>
     map fName fs = [''500 off'', ''50%_Off.txt''] \<and> sorted (map (\<lambda>f. (\<not> fIsDir f, fName f)) fs)"
proof -
  let ?d = "example_rows\<lparr>files := take 2 (files example_rows)\<rparr>"
  let ?s = "List_files None 1 (join [sl] [''docs'']) True ?d"
  have e: "case ?s of Inl _ \<Rightarrow> False | Inr fs \<Rightarrow> map fName fs = [''500 off'', ''50%_Off.txt'']" by code_simp
  then obtain fs where fs: "?s = Inr fs" "map fName fs = [''500 off'', ''50%_Off.txt'']" by (auto split: sum.splits)
  have "list_all filed (files ?d)" "list_all plain [''docs'']" by code_simp+
  from List_children [OF this fs(1)] fs show ?thesis by (intro exI [of _ fs]) simp
qed

text \<open>The children of a dot-directory are filed under the name without its dot, so listing the
  directory shows nothing and listing a directory that does not exist shows them.\<close>

theorem List_misses_dot_directory:
  "List_files None 1 ''.config'' True example_rows = Inr [] \<and>
   map_sum id (map fPath) (List_files None 1 ''config'' True example_rows) = Inr [''.config/app.toml'']"
  by code_simp

end
