(* ===== verification/ContentStore.thy ===== *)
theory ContentStore
  imports IndexWrite IndexQuery
begin

text \<open>
  \<open>internal/index/content.go\<close> and the volume rows of \<open>internal/index/volumes.go\<close>: the
  extraction queue (a query), the record of each extraction, progress counts, and the operations
  on volumes. A transaction is one update: its fault, or a constraint that fails inside it, leaves
  the state unchanged. \<open>pg\<close> is the lower-casing of the database's locale.
\<close>

section \<open>The extraction queue\<close>

definition ContentDone :: string where "ContentDone = ''done''"
definition ContentSkipped :: string where "ContentSkipped = ''skipped''"
definition ContentFailed :: string where "ContentFailed = ''failed''"

definition too_large :: string where "too_large = ''too_large''"

record pending_file =
  pf_volume :: int
  pf_path :: string
  pf_ext :: string
  pf_size :: int
  pf_mod_time :: int

definition eligible :: "unicode \<Rightarrow> string list \<Rightarrow> file_row \<Rightarrow> bool" where
  "eligible pg exts r \<longleftrightarrow> \<not> fIsDir r \<and> to_lower pg (fExt r) \<in> set exts \<and> visible_path (fPath r)"

definition current :: "content_row \<Rightarrow> file_row \<Rightarrow> bool" where
  "current c r \<longleftrightarrow> cs_size c = fSize r \<and> cs_mod_time c = fModTime r"

definition fits_now :: "int \<Rightarrow> content_row \<Rightarrow> file_row \<Rightarrow> bool" where
  "fits_now maxFileBytes c r \<longleftrightarrow> cs_reason c = Some too_large \<and> fSize r \<le> maxFileBytes"

definition is_pending :: "unicode \<Rightarrow> string list \<Rightarrow> int \<Rightarrow> db \<Rightarrow> file_row \<Rightarrow> bool" where
  "is_pending pg exts maxFileBytes d r \<longleftrightarrow> eligible pg exts r \<and>
     (case content_at d (file_key r) of
        None \<Rightarrow> True
      | Some c \<Rightarrow> cs_size c \<noteq> fSize r \<or> cs_mod_time c \<noteq> fModTime r \<or>
          cs_status c = ContentSkipped \<and> fits_now maxFileBytes c r)"

definition pending_of :: "file_row \<Rightarrow> pending_file" where
  "pending_of r = \<lparr>pf_volume = fVolume r, pf_path = fPath r, pf_ext = fExt r, pf_size = fSize r,
     pf_mod_time = fModTime r\<rparr>"

definition PendingContent ::
  "unicode \<Rightarrow> fault \<Rightarrow> int list \<Rightarrow> string list \<Rightarrow> int \<Rightarrow> nat \<Rightarrow> db \<Rightarrow> index_err + pending_file list" where
  "PendingContent pg flt volumeIDs exts maxFileBytes lim d =
     (if volumeIDs = [] \<or> exts = [] then Inr []
      else case flt of
        Some e \<Rightarrow> Inl (DbErr e)
      | None \<Rightarrow> Inr (map pending_of (take lim (sort_key (\<lambda>r. (fVolume r, fPath r))
          (filter (\<lambda>r. fVolume r \<in> set volumeIDs \<and> is_pending pg exts maxFileBytes d r) (files d))))))"

section \<open>Recording an extraction\<close>

text \<open>\<open>wrapFileGone\<close>: error 23503 means the file row is gone.\<close>

definition wrapFileGone :: "db_err \<Rightarrow> index_err" where
  "wrapFileGone e = (if e = ForeignKeyViolation then ErrFileGone else DbErr e)"

definition delete_file_chunks :: "file_key \<Rightarrow> db \<Rightarrow> db" where
  "delete_file_chunks k d = d\<lparr>chunks := tbl_del (\<lambda>c. ch_file c = k) (chunks d)\<rparr>"

definition upsertContentState ::
  "int \<Rightarrow> int \<Rightarrow> string \<Rightarrow> int \<Rightarrow> int \<Rightarrow> string \<Rightarrow> string \<Rightarrow> nat \<Rightarrow> db \<Rightarrow> index_err + db" where
  "upsertContentState now vol p sz mt status reason n d =
     (case sql_upsert_content \<lparr>cs_volume = vol, cs_path = p, cs_size = sz, cs_mod_time = mt,
             cs_status = status, cs_reason = null_if_empty reason, cs_chunk_count = n, cs_indexed_at = now\<rparr> d of
        Inl e \<Rightarrow> Inl (wrapFileGone e)
      | Inr d' \<Rightarrow> Inr d')"

definition chunk_rows :: "int \<Rightarrow> string \<Rightarrow> string list \<Rightarrow> chunk_row list" where
  "chunk_rows vol p cs = map (\<lambda>(i, b). \<lparr>ch_volume = vol, ch_path = p, ch_seq = i, ch_body = b\<rparr>) (enumerate 0 cs)"

definition SaveContent ::
  "fault \<Rightarrow> int \<Rightarrow> int \<Rightarrow> string \<Rightarrow> int \<Rightarrow> int \<Rightarrow> string list \<Rightarrow> db \<Rightarrow> (index_err + unit) \<times> db" where
  "SaveContent flt now vol p sz mt cs d =
     (case flt of
        Some e \<Rightarrow> (Inl (DbErr e), d)
      | None \<Rightarrow>
          (let d1 = delete_file_chunks (vol, p) d in
           case (if cs = [] then Inr d1
                 else case sql_insert_chunks (chunk_rows vol p cs) d1 of
                        Inl e \<Rightarrow> Inl (wrapFileGone e) | Inr d2 \<Rightarrow> Inr d2) of
             Inl e \<Rightarrow> (Inl e, d)
           | Inr d2 \<Rightarrow>
               (case upsertContentState now vol p sz mt ContentDone [] (length cs) d2 of
                  Inl e \<Rightarrow> (Inl e, d)
                | Inr d3 \<Rightarrow> (Inr (), d3))))"

definition SaveContentSkip ::
  "fault \<Rightarrow> int \<Rightarrow> int \<Rightarrow> string \<Rightarrow> int \<Rightarrow> int \<Rightarrow> string \<Rightarrow> string \<Rightarrow> db \<Rightarrow> (index_err + unit) \<times> db" where
  "SaveContentSkip flt now vol p sz mt status reason d =
     (if status \<noteq> ContentSkipped \<and> status \<noteq> ContentFailed
      then (Inl (ErrMsg (''SaveContentSkip: status must be '' @ [CHR 0x22] @ ContentSkipped @ [CHR 0x22] @ '' or '' @ [CHR 0x22] @ ContentFailed @ [CHR 0x22])), d)
      else case flt of
        Some e \<Rightarrow> (Inl (DbErr e), d)
      | None \<Rightarrow>
          (case upsertContentState now vol p sz mt status reason 0 (delete_file_chunks (vol, p) d) of
             Inl e \<Rightarrow> (Inl e, d)
           | Inr d' \<Rightarrow> (Inr (), d')))"

definition RetryFailedContent :: "fault \<Rightarrow> int \<Rightarrow> db \<Rightarrow> (index_err + int) \<times> db" where
  "RetryFailedContent flt vol d =
     (case flt of
        Some e \<Rightarrow> (Inl (DbErr e), d)
      | None \<Rightarrow>
          (let P = (\<lambda>c. cs_volume c = vol \<and> cs_status c = ContentFailed)
           in (Inr (int (length (filter P (content_state d)))),
               d\<lparr>content_state := tbl_del P (content_state d)\<rparr>)))"

record content_info =
  ci_status :: string
  ci_reason :: string
  ci_chunks :: "string list"

definition or_empty :: "string option \<Rightarrow> string" where
  "or_empty s = (case s of None \<Rightarrow> [] | Some t \<Rightarrow> t)"

definition ContentFor :: "fault \<Rightarrow> fault \<Rightarrow> int \<Rightarrow> string \<Rightarrow> db \<Rightarrow> index_err + content_info option" where
  "ContentFor flt1 flt2 vol p d =
     (case flt1 of
        Some e \<Rightarrow> Inl (DbErr e)
      | None \<Rightarrow>
          (case content_at d (vol, p) of
             None \<Rightarrow> Inr None
           | Some c \<Rightarrow>
               (case flt2 of
                  Some e \<Rightarrow> Inl (DbErr e)
                | None \<Rightarrow> Inr (Some \<lparr>ci_status = cs_status c, ci_reason = or_empty (cs_reason c),
                    ci_chunks = map ch_body (sort_key ch_seq (chunks_at d (vol, p)))\<rparr>))))"

section \<open>Progress\<close>

record content_reason =
  cr_status :: string
  cr_reason :: string
  cr_count :: nat

record content_progress =
  cp_volume :: int
  cp_eligible :: nat
  cp_done :: nat
  cp_skipped :: nat
  cp_failed :: nat
  cp_pending :: int
  cp_reasons :: "content_reason list"

definition maxReasonsPerVolume :: nat where "maxReasonsPerVolume = 5"

definition has_state :: "db \<Rightarrow> (content_row \<Rightarrow> file_row \<Rightarrow> bool) \<Rightarrow> file_row \<Rightarrow> bool" where
  "has_state d P r = (case content_at d (file_key r) of None \<Rightarrow> False | Some c \<Rightarrow> current c r \<and> P c r)"

definition volume_progress :: "unicode \<Rightarrow> string list \<Rightarrow> int \<Rightarrow> db \<Rightarrow> int \<Rightarrow> content_progress" where
  "volume_progress pg exts maxFileBytes d vol =
     (let fs = filter (\<lambda>r. fVolume r = vol \<and> eligible pg exts r) (files d);
          dn = length (filter (has_state d (\<lambda>c r. cs_status c = ContentDone)) fs);
          sk = length (filter (has_state d (\<lambda>c r. cs_status c = ContentSkipped \<and> \<not> fits_now maxFileBytes c r)) fs);
          fl = length (filter (has_state d (\<lambda>c r. cs_status c = ContentFailed)) fs)
      in \<lparr>cp_volume = vol, cp_eligible = length fs, cp_done = dn, cp_skipped = sk, cp_failed = fl,
          cp_pending = int (length fs) - int dn - int sk - int fl, cp_reasons = []\<rparr>)"

definition opted_in :: "db \<Rightarrow> int list" where
  "opted_in d = sort (map v_id (filter v_content_index (volumes d)))"

definition reason_rows :: "int \<Rightarrow> db \<Rightarrow> content_row list" where
  "reason_rows maxFileBytes d =
     filter (\<lambda>c. case file_at d (cs_key c) of
         None \<Rightarrow> False
       | Some r \<Rightarrow> cs_volume c \<in> set (opted_in d) \<and>
           (cs_status c = ContentSkipped \<or> cs_status c = ContentFailed) \<and> current c r \<and>
           \<not> (cs_status c = ContentSkipped \<and> fits_now maxFileBytes c r))
       (content_state d)"

definition reason_group :: "content_row \<Rightarrow> int \<times> string \<times> string option" where
  "reason_group c = (cs_volume c, cs_status c, cs_reason c)"

text \<open>\<open>coll\<close> is the database's collation as a sort key; NULL sorts last.\<close>

definition reason_counts ::
  "(string \<Rightarrow> string) \<Rightarrow> int \<Rightarrow> db \<Rightarrow> ((int \<times> string \<times> string option) \<times> nat) list" where
  "reason_counts coll maxFileBytes d =
     (let rs = map reason_group (reason_rows maxFileBytes d);
          gs = map (\<lambda>g. (g, length (filter (\<lambda>x. x = g) rs))) (remdups rs)
      in take 500 (sort_key (\<lambda>((v, st, rn), n). (- int n, coll st, rn = None, coll (or_empty rn))) gs))"

definition add_reasons ::
  "((int \<times> string \<times> string option) \<times> nat) list \<Rightarrow> content_progress \<Rightarrow> content_progress" where
  "add_reasons gs p =
     p\<lparr>cp_reasons := take maxReasonsPerVolume
        (map (\<lambda>((v, st, rn), n). \<lparr>cr_status = st, cr_reason = or_empty rn, cr_count = n\<rparr>)
           (filter (\<lambda>((v, st, rn), n). v = cp_volume p) gs))\<rparr>"

definition empty_progress :: "int \<Rightarrow> content_progress" where
  "empty_progress vol = \<lparr>cp_volume = vol, cp_eligible = 0, cp_done = 0, cp_skipped = 0, cp_failed = 0,
     cp_pending = 0, cp_reasons = []\<rparr>"

definition ContentProgress ::
  "unicode \<Rightarrow> (string \<Rightarrow> string) \<Rightarrow> fault \<Rightarrow> fault \<Rightarrow> fault \<Rightarrow> string list \<Rightarrow> int \<Rightarrow> db
    \<Rightarrow> index_err + content_progress list" where
  "ContentProgress pg coll flt1 flt2 flt3 exts maxFileBytes d =
     (case flt1 of
        Some e \<Rightarrow> Inl (DbErr e)
      | None \<Rightarrow>
          (let vols = sort (remdups (map fVolume
                 (filter (\<lambda>r. fVolume r \<in> set (opted_in d) \<and> eligible pg exts r) (files d))));
               out = map (volume_progress pg exts maxFileBytes d) vols
           in case flt2 of
                Some e \<Rightarrow> Inl (DbErr e)
              | None \<Rightarrow>
                  (let out = out @ map empty_progress (filter (\<lambda>v. v \<notin> set vols) (opted_in d));
                       out = sort_key cp_volume out
                   in case flt3 of
                        Some e \<Rightarrow> Inl (DbErr e)
                      | None \<Rightarrow> Inr (map (add_reasons (reason_counts coll maxFileBytes d)) out))))"

section \<open>Volumes\<close>

text \<open>The API's view of a volume, which has no password field; times stay instants.\<close>

record volume =
  vID :: int
  vName :: string
  vHost :: string
  vShare :: string
  vUsername :: string
  vEnabled :: bool
  vContentIndex :: bool
  vCreatedAt :: int
  vUpdatedAt :: int
  vLastTestOK :: "bool option"
  vLastTestAt :: "int option"
  vLastTestError :: string

definition scanVolume :: "volume_row \<Rightarrow> volume" where
  "scanVolume v = \<lparr>vID = v_id v, vName = v_name v, vHost = v_host v, vShare = v_share v,
     vUsername = v_username v, vEnabled = v_enabled v, vContentIndex = v_content_index v,
     vCreatedAt = v_created v, vUpdatedAt = v_updated v, vLastTestOK = v_test_ok v,
     vLastTestAt = v_test_at v, vLastTestError = or_empty (v_test_error v)\<rparr>"

definition CreateVolume ::
  "unicode \<Rightarrow> fault \<Rightarrow> int \<Rightarrow> string \<Rightarrow> string \<Rightarrow> string \<Rightarrow> string \<Rightarrow> string \<Rightarrow> db
    \<Rightarrow> (index_err + volume) \<times> db" where
  "CreateVolume pg flt now nm host share user pw d =
     (case flt of
        Some e \<Rightarrow> (Inl (DbErr e), d)
      | None \<Rightarrow>
          if to_lower pg nm \<in> set (map (to_lower pg \<circ> v_name) (volumes d))
          then (Inl ErrVolumeNameTaken, d\<lparr>next_volume := next_volume d + 1\<rparr>)
          else
            (let v = \<lparr>v_id = next_volume d, v_name = nm, v_host = host, v_share = share, v_username = user,
                   v_password_enc = pw, v_enabled = True, v_created = now, v_updated = now, v_test_ok = None,
                   v_test_at = None, v_test_error = None, v_content_index = False\<rparr>
             in (Inr (scanVolume v), d\<lparr>volumes := volumes d @ [v], next_volume := next_volume d + 1\<rparr>)))"

record volume_update =
  u_name :: string
  u_host :: string
  u_share :: string
  u_username :: string
  u_password_enc :: "string option"
  u_enabled :: bool

definition apply_update :: "int \<Rightarrow> volume_update \<Rightarrow> volume_row \<Rightarrow> volume_row" where
  "apply_update now u v =
     (let v = v\<lparr>v_name := u_name u, v_host := u_host u, v_share := u_share u, v_username := u_username u,
            v_enabled := u_enabled u, v_updated := now\<rparr>
      in case u_password_enc u of None \<Rightarrow> v | Some pw \<Rightarrow> v\<lparr>v_password_enc := pw\<rparr>)"

definition UpdateVolume ::
  "unicode \<Rightarrow> fault \<Rightarrow> int \<Rightarrow> int \<Rightarrow> volume_update \<Rightarrow> db \<Rightarrow> (index_err + volume) \<times> db" where
  "UpdateVolume pg flt now i u d =
     (case flt of
        Some e \<Rightarrow> (Inl (DbErr e), d)
      | None \<Rightarrow>
          (case tbl_get v_id i (volumes d) of
             None \<Rightarrow> (Inl (ErrNotFound ''volume not found''), d)
           | Some v \<Rightarrow>
               if to_lower pg (u_name u) \<in>
                    set (map (to_lower pg \<circ> v_name) (filter (\<lambda>w. v_id w \<noteq> i) (volumes d)))
               then (Inl ErrVolumeNameTaken, d)
               else (Inr (scanVolume (apply_update now u v)),
                     d\<lparr>volumes := tbl_put v_id (apply_update now u v) (volumes d)\<rparr>)))"

definition SetVolumeContentIndex :: "fault \<Rightarrow> int \<Rightarrow> bool \<Rightarrow> db \<Rightarrow> (index_err + volume) \<times> db" where
  "SetVolumeContentIndex flt i on d =
     (case flt of
        Some e \<Rightarrow> (Inl (DbErr e), d)
      | None \<Rightarrow>
          (case tbl_get v_id i (volumes d) of
             None \<Rightarrow> (Inl (ErrNotFound ''volume not found''), d)
           | Some v \<Rightarrow>
               (let v = v\<lparr>v_content_index := on\<rparr>;
                    d = d\<lparr>volumes := tbl_put v_id v (volumes d)\<rparr>;
                    d = (if on then d
                         else d\<lparr>chunks := tbl_del (\<lambda>c. ch_volume c = i) (chunks d),
                                content_state := tbl_del (\<lambda>c. cs_volume c = i) (content_state d)\<rparr>)
                in (Inr (scanVolume v), d))))"

definition DeleteVolume :: "fault \<Rightarrow> int \<Rightarrow> db \<Rightarrow> (index_err + unit) \<times> db" where
  "DeleteVolume flt i d =
     (case flt of
        Some e \<Rightarrow> (Inl (DbErr e), d)
      | None \<Rightarrow>
          (let d = sql_delete_files (\<lambda>r. fVolume r = i) d
           in (Inr (), d\<lparr>crawl_runs := tbl_del (\<lambda>r. cr_volume r = i) (crawl_runs d),
                         volumes := tbl_del (\<lambda>v. v_id v = i) (volumes d)\<rparr>)))"

definition GetVolume :: "fault \<Rightarrow> int \<Rightarrow> db \<Rightarrow> index_err + volume option" where
  "GetVolume flt i d =
     (case flt of Some e \<Rightarrow> Inl (DbErr e) | None \<Rightarrow> Inr (map_option scanVolume (tbl_get v_id i (volumes d))))"

definition ListVolumes :: "fault \<Rightarrow> db \<Rightarrow> index_err + volume list" where
  "ListVolumes flt d =
     (case flt of Some e \<Rightarrow> Inl (DbErr e) | None \<Rightarrow> Inr (map scanVolume (sort_key v_id (volumes d))))"

record volume_secret =
  vs_host :: string
  vs_share :: string
  vs_username :: string
  vs_password_enc :: string

definition GetVolumeSecret :: "fault \<Rightarrow> int \<Rightarrow> db \<Rightarrow> index_err + volume_secret" where
  "GetVolumeSecret flt i d =
     (case flt of
        Some e \<Rightarrow> Inl (DbErr e)
      | None \<Rightarrow>
          (case tbl_get v_id i (volumes d) of
             None \<Rightarrow> Inl (ErrNotFound ''sql: no rows in result set'')
           | Some v \<Rightarrow> Inr \<lparr>vs_host = v_host v, vs_share = v_share v, vs_username = v_username v,
                vs_password_enc = v_password_enc v\<rparr>))"

definition SetVolumeTestResult :: "fault \<Rightarrow> int \<Rightarrow> int \<Rightarrow> bool \<Rightarrow> string \<Rightarrow> db \<Rightarrow> (index_err + unit) \<times> db" where
  "SetVolumeTestResult flt now i ok errMsg d =
     (case flt of
        Some e \<Rightarrow> (Inl (DbErr e), d)
      | None \<Rightarrow>
          (Inr (), d\<lparr>volumes := map (\<lambda>v. if v_id v = i
             then v\<lparr>v_test_ok := Some ok, v_test_at := Some now, v_test_error := null_if_empty errMsg\<rparr>
             else v) (volumes d)\<rparr>))"

end
