(* ===== verification/Crypto.thy ===== *)
theory Crypto
  imports GoStrings
begin

text \<open>
  Secrets at rest (internal/crypto/crypto.go). The block cipher mode is not source code: sealing and
  opening under AES-256-GCM are the parameters seal and opn, of which the code relies on
  one documented fact, that opening what was sealed under the same key and nonce gives it back. The
  random source is a byte string that is read from the front; base64 decoding is defined.
\<close>

definition KeySize :: nat where
  "KeySize = 32"

definition NonceSize :: nat where
  "NonceSize = 12"

datatype crypto_err = BadBase64 | BadKeySize nat | NoNonce | ShortCiphertext | AuthFailed

type_synonym sealer = "string \<Rightarrow> string \<Rightarrow> string \<Rightarrow> string"
type_synonym opener = "string \<Rightarrow> string \<Rightarrow> string \<Rightarrow> string option"

section \<open>Base64\<close>

definition b64_val :: "char \<Rightarrow> nat option" where
  "b64_val c =
     (let b = bval c
      in if 65 \<le> b \<and> b \<le> 90 then Some (b - 65)
         else if 97 \<le> b \<and> b \<le> 122 then Some (b - 71)
         else if 48 \<le> b \<and> b \<le> 57 then Some (b + 4)
         else if b = 43 then Some 62
         else if b = 47 then Some 63
         else None)"

definition b64_char :: "nat \<Rightarrow> char" where
  "b64_char v = char_of (if v < 26 then v + 65 else if v < 52 then v + 71 else if v < 62 then v - 4
     else if v = 62 then 43 else 47)"

definition pad :: char where
  "pad = CHR ''=''"

text \<open>The last group may end in one or two padding characters; anything else of another length is refused\<close>

fun b64_groups :: "string \<Rightarrow> string option" where
  "b64_groups [] = Some []"
| "b64_groups (a # b # c # d # rest) =
     (case (b64_val a, b64_val b) of
        (Some x, Some y) \<Rightarrow>
          (if rest = [] \<and> c = pad \<and> d = pad then Some [char_of (x * 4 + y div 16)]
           else case b64_val c of
             None \<Rightarrow> None
           | Some z \<Rightarrow>
               (if rest = [] \<and> d = pad then Some [char_of (x * 4 + y div 16), char_of (y mod 16 * 16 + z div 4)]
                else case b64_val d of
                  None \<Rightarrow> None
                | Some w \<Rightarrow> map_option (\<lambda>bs. [char_of (x * 4 + y div 16), char_of (y mod 16 * 16 + z div 4),
                      char_of (z mod 4 * 64 + w)] @ bs) (b64_groups rest)))
      | _ \<Rightarrow> None)"
| "b64_groups _ = None"

definition DecodeString :: "string \<Rightarrow> string option" where
  "DecodeString s = b64_groups (filter (\<lambda>c. c \<noteq> CHR 0x0A \<and> c \<noteq> CHR 0x0D) s)"

fun EncodeToString :: "string \<Rightarrow> string" where
  "EncodeToString [] = []"
| "EncodeToString [a] = [b64_char (bval a div 4), b64_char (bval a mod 4 * 16), pad, pad]"
| "EncodeToString [a, b] =
     [b64_char (bval a div 4), b64_char (bval a mod 4 * 16 + bval b div 16), b64_char (bval b mod 16 * 4), pad]"
| "EncodeToString (a # b # c # rest) =
     [b64_char (bval a div 4), b64_char (bval a mod 4 * 16 + bval b div 16),
      b64_char (bval b mod 16 * 4 + bval c div 64), b64_char (bval c mod 64)] @ EncodeToString rest"

section \<open>Keys, sealing and opening\<close>

definition ParseKey :: "string \<Rightarrow> crypto_err + string" where
  "ParseKey b64 =
     (case DecodeString b64 of
        None \<Rightarrow> Inl BadBase64
      | Some key \<Rightarrow> if length key \<noteq> KeySize then Inl (BadKeySize (length key)) else Inr key)"

definition newGCM :: "string \<Rightarrow> crypto_err + unit" where
  "newGCM key = (if length key \<noteq> KeySize then Inl (BadKeySize (length key)) else Inr ())"

definition Encrypt :: "sealer \<Rightarrow> string \<Rightarrow> string \<Rightarrow> string \<Rightarrow> crypto_err + string" where
  "Encrypt seal rand key plaintext =
     (case newGCM key of
        Inl e \<Rightarrow> Inl e
      | Inr _ \<Rightarrow>
          (if length rand < NonceSize then Inl NoNonce
           else let nonce = take NonceSize rand in Inr (nonce @ seal key nonce plaintext)))"

definition Decrypt :: "opener \<Rightarrow> string \<Rightarrow> string \<Rightarrow> crypto_err + string" where
  "Decrypt opn key data =
     (case newGCM key of
        Inl e \<Rightarrow> Inl e
      | Inr _ \<Rightarrow>
          (if length data < NonceSize then Inl ShortCiphertext
           else case opn key (take NonceSize data) (drop NonceSize data) of
             None \<Rightarrow> Inl AuthFailed
           | Some p \<Rightarrow> Inr p))"

section \<open>Round trips\<close>

lemma b64_val_char: "v < 64 \<Longrightarrow> b64_val (b64_char v) = Some v"
  by (auto simp: b64_val_def b64_char_def Let_def)

lemma b64_val_pad: "b64_val pad = None"
  by (simp add: b64_val_def pad_def)

lemma b64_char_not_pad: "v < 64 \<Longrightarrow> b64_char v \<noteq> pad"
  using b64_val_char [of v] b64_val_pad by auto

lemma byte_digits [simp]: "bval c div 16 div 16 = 0" "bval c div 16 mod 16 = bval c div 16" "bval c div 64 div 4 = 0"
    "bval c div 64 mod 4 = bval c div 64"
proof -
  have "bval c div 16 < 16" "bval c div 64 < 4" by (rule less_mult_imp_div_less, simp)+
  then show "bval c div 16 div 16 = 0" "bval c div 16 mod 16 = bval c div 16" "bval c div 64 div 4 = 0"
    "bval c div 64 mod 4 = bval c div 64" by simp_all
qed

lemma quad_vals:
  "b64_val (b64_char (bval a div 4)) = Some (bval a div 4)"
  "b64_val (b64_char (bval a mod 4 * 16)) = Some (bval a mod 4 * 16)"
  "b64_val (b64_char (bval a mod 16 * 4)) = Some (bval a mod 16 * 4)"
  "b64_val (b64_char (bval a mod 64)) = Some (bval a mod 64)"
  "b64_val (b64_char (bval a mod 4 * 16 + bval b div 16)) = Some (bval a mod 4 * 16 + bval b div 16)"
  "b64_val (b64_char (bval a mod 16 * 4 + bval b div 64)) = Some (bval a mod 16 * 4 + bval b div 64)"
proof -
  have l: "bval a < 256" "bval b < 256" by simp_all
  have m: "bval a mod 4 < 4" "bval a mod 16 < 16" "bval a mod 64 < 64" by simp_all
  show "b64_val (b64_char (bval a div 4)) = Some (bval a div 4)" by (rule b64_val_char) (use l in linarith)
  show "b64_val (b64_char (bval a mod 4 * 16)) = Some (bval a mod 4 * 16)" by (rule b64_val_char) (use m in linarith)
  show "b64_val (b64_char (bval a mod 16 * 4)) = Some (bval a mod 16 * 4)" by (rule b64_val_char) (use m in linarith)
  show "b64_val (b64_char (bval a mod 64)) = Some (bval a mod 64)" by (rule b64_val_char) (use m in linarith)
  show "b64_val (b64_char (bval a mod 4 * 16 + bval b div 16)) = Some (bval a mod 4 * 16 + bval b div 16)"
    by (rule b64_val_char) (use l m in linarith)
  show "b64_val (b64_char (bval a mod 16 * 4 + bval b div 64)) = Some (bval a mod 16 * 4 + bval b div 64)"
    by (rule b64_val_char) (use l m in linarith)
qed

lemma quad_not_pad:
  "b64_char (bval a mod 16 * 4) \<noteq> pad" "b64_char (bval a mod 64) \<noteq> pad"
  "b64_char (bval a mod 16 * 4 + bval b div 64) \<noteq> pad"
  using quad_vals(3) [of a] quad_vals(4) [of a] quad_vals(6) [of a b] b64_val_pad by auto

lemma b64_char_bval: "v < 64 \<Longrightarrow> 43 \<le> bval (b64_char v)"
  by (auto simp: b64_char_def)

lemma b64_char_range: "43 \<le> bval (b64_char v)"
  by (cases "v < 64") (simp_all add: b64_char_bval, simp add: b64_char_def)

lemma b64_char_clean: "b64_char v \<noteq> CHR 0x0A" "b64_char v \<noteq> CHR 0x0D"
    "CHR 0x0A \<noteq> b64_char v" "CHR 0x0D \<noteq> b64_char v"
  using b64_char_range [of v] by (auto dest!: arg_cong [where f = bval])

lemma EncodeToString_clean: "c \<in> set (EncodeToString s) \<Longrightarrow> c \<noteq> CHR 0x0A \<and> c \<noteq> CHR 0x0D"
  by (induction s rule: EncodeToString.induct) (auto simp: b64_char_clean pad_def)

lemma b64_groups_Encode: "b64_groups (EncodeToString s) = Some s"
  by (induction s rule: EncodeToString.induct) (simp_all add: quad_vals quad_not_pad)

lemma Decode_Encode: "DecodeString (EncodeToString s) = Some s"
proof -
  have "filter (\<lambda>c. c \<noteq> CHR 0x0A \<and> c \<noteq> CHR 0x0D) (EncodeToString s) = EncodeToString s"
    using EncodeToString_clean by (simp add: filter_id_conv)
  then show ?thesis by (simp add: DecodeString_def b64_groups_Encode)
qed

lemma Encrypt_ok_iff:
  "(\<exists>c. Encrypt seal rand key p = Inr c) \<longleftrightarrow> length key = KeySize \<and> NonceSize \<le> length rand"
  by (auto simp: Encrypt_def newGCM_def Let_def)

lemma Decrypt_Encrypt_raw:
  assumes "\<And>k n p. opn k n (seal k n p) = Some p" "Encrypt seal rand key p = Inr c"
  shows "Decrypt opn key c = Inr p"
  using assms(2) by (auto simp: Encrypt_def Decrypt_def newGCM_def assms(1) Let_def split: if_splits)

text \<open>C21: a key printed in base64 is parsed back and only 32-byte keys are accepted; under such a key
  whatever is encrypted with a full nonce decrypts to itself, and a ciphertext shorter than a nonce or
  a key of another size is refused.\<close>

theorem secrets_roundtrip:
  assumes "\<And>k n p. opn k n (seal k n p) = Some p"
  shows "(length key = KeySize \<longrightarrow> ParseKey (EncodeToString key) = Inr key) \<and>
    (\<forall>s k. ParseKey s = Inr k \<longrightarrow> length k = KeySize) \<and>
    (length key = KeySize \<and> NonceSize \<le> length rand \<longrightarrow>
       (\<exists>c. Encrypt seal rand key p = Inr c \<and> Decrypt opn key c = Inr p)) \<and>
    (length data < NonceSize \<or> length key \<noteq> KeySize \<longrightarrow> is_err (Decrypt opn key data))"
proof (intro conjI)
  show "\<forall>s k. ParseKey s = Inr k \<longrightarrow> length k = KeySize"
    by (auto simp: ParseKey_def split: option.splits if_splits)
  show "length key = KeySize \<and> NonceSize \<le> length rand \<longrightarrow>
       (\<exists>c. Encrypt seal rand key p = Inr c \<and> Decrypt opn key c = Inr p)"
    using Encrypt_ok_iff Decrypt_Encrypt_raw [where opn = opn and seal = seal, OF assms] by blast
qed (auto simp: ParseKey_def Decode_Encode Decrypt_def newGCM_def is_err_def)

definition example_seal :: sealer where
  "example_seal k n p = k @ n @ rev p"

definition example_open :: opener where
  "example_open k n c = (if take (length k + length n) c = k @ n then Some (rev (drop (length k + length n) c)) else None)"

lemma example_open_seal: "example_open k n (example_seal k n p) = Some p"
  by (simp add: example_open_def example_seal_def)

theorem secrets_roundtrip_witness:
  "ParseKey (EncodeToString (replicate 32 CHR ''k'')) = Inr (replicate 32 CHR ''k'') \<and>
   (\<exists>c. Encrypt example_seal (replicate 12 CHR ''n'') (replicate 32 CHR ''k'') ''secret'' = Inr c \<and>
     Decrypt example_open (replicate 32 CHR ''k'') c = Inr ''secret'') \<and>
   is_err (Decrypt example_open (replicate 32 CHR ''k'') ''short'')"
  using secrets_roundtrip [of example_open example_seal "replicate 32 CHR ''k''" "replicate 12 CHR ''n''" "''secret''" "''short''"]
  by (simp add: example_open_seal KeySize_def NonceSize_def)

end
