(* ===== verification/Settings.thy ===== *)
theory Settings
  imports Database GoNumbers
begin

text \<open>
  \<open>internal/index/settings.go\<close>: the content settings, a struct stored as one row per field of the
  key/value table. \<open>Validate\<close>, the load with defaults for missing rows, and the save of all five
  keys in one transaction (the Go map is walked in any order; the keys are distinct).
\<close>

record content_settings =
  Paused :: bool
  MaxFileBytes :: int
  MaxTextBytes :: int
  Workers :: int
  DelayMS :: int

definition minMaxFileBytes :: int where "minMaxFileBytes = 2 ^ 20"
definition maxMaxFileBytes :: int where "maxMaxFileBytes = 10 * 2 ^ 30"
definition minMaxTextBytes :: int where "minMaxTextBytes = 2 ^ 10"
definition maxMaxTextBytes :: int where "maxMaxTextBytes = 32 * 2 ^ 20"
definition maxWorkers :: int where "maxWorkers = 4"
definition maxDelayMS :: int where "maxDelayMS = 60000"

definition DefaultContentSettings :: content_settings where
  "DefaultContentSettings = \<lparr>Paused = False, MaxFileBytes = 100 * 2 ^ 20, MaxTextBytes = 2 ^ 20,
     Workers = 1, DelayMS = 0\<rparr>"

definition Validate :: "content_settings \<Rightarrow> index_err option" where
  "Validate c =
     (if MaxFileBytes c < minMaxFileBytes \<or> maxMaxFileBytes < MaxFileBytes c
      then Some (ErrInvalidSettings ''maxFileBytes'')
      else if MaxTextBytes c < minMaxTextBytes \<or> maxMaxTextBytes < MaxTextBytes c
      then Some (ErrInvalidSettings ''maxTextBytes'')
      else if Workers c < 1 \<or> maxWorkers < Workers c then Some (ErrInvalidSettings ''workers'')
      else if DelayMS c < 0 \<or> maxDelayMS < DelayMS c then Some (ErrInvalidSettings ''delayMs'')
      else None)"

definition contentKeyPrefix :: string where
  "contentKeyPrefix = ''content.''"

definition set_num :: "(int \<Rightarrow> content_settings \<Rightarrow> content_settings) \<Rightarrow> string \<Rightarrow> content_settings
    \<Rightarrow> num_err + content_settings" where
  "set_num upd val cs = (case ParseInt val of Inl e \<Rightarrow> Inl e | Inr v \<Rightarrow> Inr (upd v cs))"

definition load_field :: "string \<Rightarrow> string \<Rightarrow> content_settings \<Rightarrow> num_err + content_settings" where
  "load_field field val cs =
     (if field = ''paused'' then (case ParseBool val of Inl e \<Rightarrow> Inl e | Inr b \<Rightarrow> Inr (cs\<lparr>Paused := b\<rparr>))
      else if field = ''max_file_bytes'' then set_num (\<lambda>v. MaxFileBytes_update (\<lambda>_. v)) val cs
      else if field = ''max_text_bytes'' then set_num (\<lambda>v. MaxTextBytes_update (\<lambda>_. v)) val cs
      else if field = ''workers'' then set_num (\<lambda>v. Workers_update (\<lambda>_. v)) val cs
      else if field = ''delay_ms'' then set_num (\<lambda>v. DelayMS_update (\<lambda>_. v)) val cs
      else Inr cs)"

fun load_rows :: "setting_row list \<Rightarrow> content_settings \<Rightarrow> index_err + content_settings" where
  "load_rows [] cs = Inr cs"
| "load_rows (r # rs) cs =
     (case load_field (trim_prefix (s_key r) contentKeyPrefix) (s_value r) cs of
        Inl e \<Rightarrow> Inl (ErrMsg (''setting '' @ s_key r))
      | Inr cs' \<Rightarrow> load_rows rs cs')"

definition ContentSettings :: "fault \<Rightarrow> db \<Rightarrow> index_err + content_settings" where
  "ContentSettings flt d =
     (case flt of
        Some e \<Rightarrow> Inl (DbErr e)
      | None \<Rightarrow> load_rows (filter (\<lambda>r. prefix contentKeyPrefix (s_key r)) (settings d)) DefaultContentSettings)"

definition settings_values :: "content_settings \<Rightarrow> (string \<times> string) list" where
  "settings_values cs =
     [(''paused'', FormatBool (Paused cs)),
      (''max_file_bytes'', FormatInt (MaxFileBytes cs)),
      (''max_text_bytes'', FormatInt (MaxTextBytes cs)),
      (''workers'', FormatInt (Workers cs)),
      (''delay_ms'', FormatInt (DelayMS cs))]"

definition setting_rows :: "int \<Rightarrow> content_settings \<Rightarrow> setting_row list" where
  "setting_rows now cs = map (\<lambda>(k, v). \<lparr>s_key = contentKeyPrefix @ k, s_value = v, s_updated = now\<rparr>) (settings_values cs)"

definition SetContentSettings :: "fault \<Rightarrow> int \<Rightarrow> content_settings \<Rightarrow> db \<Rightarrow> (index_err + unit) \<times> db" where
  "SetContentSettings flt now cs d =
     (case Validate cs of
        Some e \<Rightarrow> (Inl e, d)
      | None \<Rightarrow>
          (case flt of
             Some e \<Rightarrow> (Inl (DbErr e), d)
           | None \<Rightarrow> (Inr (), d\<lparr>settings := fold (tbl_put s_key) (setting_rows now cs) (settings d)\<rparr>)))"

section \<open>What a load finds\<close>

lemma valid_fields:
  assumes "Validate cs = None"
  shows "ParseInt (FormatInt (MaxFileBytes cs)) = Inr (MaxFileBytes cs)"
    "ParseInt (FormatInt (MaxTextBytes cs)) = Inr (MaxTextBytes cs)"
    "ParseInt (FormatInt (Workers cs)) = Inr (Workers cs)"
    "ParseInt (FormatInt (DelayMS cs)) = Inr (DelayMS cs)"
  using assms
  by (auto intro!: ParseInt_FormatInt simp: Validate_def min_int64_def max_int64_def minMaxFileBytes_def
      maxMaxFileBytes_def minMaxTextBytes_def maxMaxTextBytes_def maxWorkers_def maxDelayMS_def split: if_splits)

text \<open>The value of one known key: its row, or the default.\<close>

definition stored :: "db \<Rightarrow> string \<Rightarrow> string option" where
  "stored d field = map_option s_value (tbl_get s_key (contentKeyPrefix @ field) (settings d))"

definition field_names :: "string list" where
  "field_names = [''paused'', ''max_file_bytes'', ''max_text_bytes'', ''workers'', ''delay_ms'']"

text \<open>A table whose content rows hold the values of \<open>cs\<close> for the fields it mentions\<close>

definition holds :: "content_settings \<Rightarrow> setting_row \<Rightarrow> bool" where
  "holds cs r \<longleftrightarrow> (case map_of (settings_values cs) (trim_prefix (s_key r) contentKeyPrefix) of
      None \<Rightarrow> True | Some v \<Rightarrow> s_value r = v)"

lemma load_field_value:
  assumes "Validate cs = None"
  shows "load_field ''paused'' (FormatBool (Paused cs)) acc = Inr (acc\<lparr>Paused := Paused cs\<rparr>)"
    "load_field ''max_file_bytes'' (FormatInt (MaxFileBytes cs)) acc = Inr (acc\<lparr>MaxFileBytes := MaxFileBytes cs\<rparr>)"
    "load_field ''max_text_bytes'' (FormatInt (MaxTextBytes cs)) acc = Inr (acc\<lparr>MaxTextBytes := MaxTextBytes cs\<rparr>)"
    "load_field ''workers'' (FormatInt (Workers cs)) acc = Inr (acc\<lparr>Workers := Workers cs\<rparr>)"
    "load_field ''delay_ms'' (FormatInt (DelayMS cs)) acc = Inr (acc\<lparr>DelayMS := DelayMS cs\<rparr>)"
  by (simp_all add: load_field_def set_num_def valid_fields [OF assms])

text \<open>\<open>upto fs cs acc\<close>: the fields named in \<open>fs\<close> from \<open>cs\<close>, the others from \<open>acc\<close>\<close>

definition merged :: "string set \<Rightarrow> content_settings \<Rightarrow> content_settings \<Rightarrow> content_settings" where
  "merged fs cs acc =
     \<lparr>Paused = (if ''paused'' \<in> fs then Paused cs else Paused acc),
      MaxFileBytes = (if ''max_file_bytes'' \<in> fs then MaxFileBytes cs else MaxFileBytes acc),
      MaxTextBytes = (if ''max_text_bytes'' \<in> fs then MaxTextBytes cs else MaxTextBytes acc),
      Workers = (if ''workers'' \<in> fs then Workers cs else Workers acc),
      DelayMS = (if ''delay_ms'' \<in> fs then DelayMS cs else DelayMS acc)\<rparr>"

lemma load_field_holds:
  assumes "Validate cs = None" "holds cs r" "f = trim_prefix (s_key r) contentKeyPrefix"
  shows "load_field f (s_value r) acc = Inr (merged {f} cs acc)"
proof -
  consider "f = ''paused''" | "f = ''max_file_bytes''" | "f = ''max_text_bytes''" | "f = ''workers''"
    | "f = ''delay_ms''" | "f \<notin> set field_names" by (auto simp: field_names_def)
  then show ?thesis
  proof cases
    case 6
    then show ?thesis by (auto simp: field_names_def load_field_def merged_def)
  qed (use assms(2,3) load_field_value [OF assms(1)] in \<open>auto simp: holds_def settings_values_def merged_def\<close>)
qed

lemma load_rows_holds:
  assumes "Validate cs = None" "list_all (holds cs) rs"
  shows "load_rows rs acc = Inr (merged ((\<lambda>r. trim_prefix (s_key r) contentKeyPrefix) ` set rs) cs acc)"
  using assms(2)
proof (induction rs arbitrary: acc)
  case (Cons r rs)
  let ?f = "trim_prefix (s_key r) contentKeyPrefix"
  have "merged F cs (merged {?f} cs acc) = merged (insert ?f F) cs acc" for F
    by (simp add: merged_def)
  then show ?case using Cons load_field_holds [OF assms(1), of r ?f acc] by simp
qed (simp add: merged_def)

lemma merged_all: "set field_names \<subseteq> F \<Longrightarrow> merged F cs acc = cs"
  by (simp add: merged_def field_names_def)

lemma trim_content: "trim_prefix (contentKeyPrefix @ f) contentKeyPrefix = f"
  by (simp add: trim_prefix_def)

lemma prefix_trim: "prefix contentKeyPrefix k \<Longrightarrow> k = contentKeyPrefix @ trim_prefix k contentKeyPrefix"
  by (auto simp: trim_prefix_def prefix_def)

lemma stored_after_save:
  assumes "tbl_wf s_key (settings d)" "r \<in> set (fold (tbl_put s_key) (setting_rows now cs) (settings d))"
    "prefix contentKeyPrefix (s_key r)"
  shows "holds cs r"
proof -
  let ?t = "fold (tbl_put s_key) (setting_rows now cs) (settings d)"
  let ?f = "trim_prefix (s_key r) contentKeyPrefix"
  have k: "s_key r = contentKeyPrefix @ ?f" using prefix_trim [OF assms(3)] .
  have get: "tbl_get s_key (s_key r) ?t = Some r"
    using settings_tbl.wf_puts [OF assms(1)] assms(2) by (simp add: tbl_get_eq)
  show ?thesis
  proof (cases "?f \<in> set field_names")
    case False
    then show ?thesis by (auto simp: holds_def field_names_def settings_values_def)
  next
    case True
    have "tbl_get s_key (contentKeyPrefix @ ?f) ?t =
        (case find (\<lambda>r. s_key r = contentKeyPrefix @ ?f) (rev (setting_rows now cs)) of
           Some r \<Rightarrow> Some r | None \<Rightarrow> tbl_get s_key (contentKeyPrefix @ ?f) (settings d))"
      by (rule settings_tbl.get_puts [OF assms(1)])
    then show ?thesis using True get k
      by (auto simp: field_names_def setting_rows_def settings_values_def holds_def)
  qed
qed

text \<open>Valid settings that were saved are loaded back exactly, whatever the table held before.\<close>

theorem settings_roundtrip:
  assumes "db_ok d" "Validate cs = None"
  shows "case SetContentSettings None now cs d of (res, d') \<Rightarrow>
    res = Inr () \<and> ContentSettings None d' = Inr cs"
proof -
  have wf: "tbl_wf s_key (settings d)" using assms(1) by (rule db_ok_wf)
  let ?t = "fold (tbl_put s_key) (setting_rows now cs) (settings d)"
  let ?rs = "filter (\<lambda>r. prefix contentKeyPrefix (s_key r)) ?t"
  have h: "list_all (holds cs) ?rs" using stored_after_save [OF wf] by (auto simp: list_all_iff)
  have "f \<in> (\<lambda>r. trim_prefix (s_key r) contentKeyPrefix) ` set ?rs" if "f \<in> set field_names" for f
  proof -
    have "contentKeyPrefix @ f \<in> s_key ` set (setting_rows now cs)"
      using that by (auto simp: setting_rows_def settings_values_def field_names_def)
    then have "contentKeyPrefix @ f \<in> s_key ` set ?t" by (simp add: set_fold_put_keys)
    then obtain r where "r \<in> set ?t" "s_key r = contentKeyPrefix @ f" by force
    then have "r \<in> set ?rs" "trim_prefix (s_key r) contentKeyPrefix = f" by (auto simp: trim_content)
    then show ?thesis by blast
  qed
  then have "set field_names \<subseteq> (\<lambda>r. trim_prefix (s_key r) contentKeyPrefix) ` set ?rs" by blast
  then have "load_rows ?rs DefaultContentSettings = Inr cs"
    using load_rows_holds [OF assms(2) h] by (simp add: merged_all del: set_filter)
  then show ?thesis by (simp add: SetContentSettings_def ContentSettings_def assms(2))
qed

theorem settings_roundtrip_witness:
  "ContentSettings None (snd (SetContentSettings None 9 (DefaultContentSettings\<lparr>Paused := True, Workers := 4\<rparr>) empty_db))
     = Inr (DefaultContentSettings\<lparr>Paused := True, Workers := 4\<rparr>)"
proof -
  have "Validate (DefaultContentSettings\<lparr>Paused := True, Workers := 4\<rparr>) = None" by code_simp
  from settings_roundtrip [OF db_ok_empty this, of 9] show ?thesis by (simp add: case_prod_beta)
qed

lemma SetContentSettings_ok: "db_ok d \<Longrightarrow> db_ok (snd (SetContentSettings flt now cs d))"
  by (auto simp: SetContentSettings_def db_ok_def settings_tbl.wf_puts split: option.splits)

end
