(* ===== verification/IndexSafety.thy ===== *)
theory IndexSafety
  imports ContentStore Settings
begin

text \<open>
  What holds of every database the operations of \<open>internal/index\<close> can produce, stated over the
  step relation \<open>index_step\<close> (one rule per operation, any arguments, any database fault), and
  the properties of the single operations on content and volumes.
\<close>

section \<open>Invariants\<close>

text \<open>
  Extracted content is consistent: a file without a content row has no chunks, a row has one of
  the three statuses, its chunks are numbered from 0 up to its count, and only \<open>done\<close> rows have any.
\<close>

definition status_ok :: "db \<Rightarrow> file_key \<Rightarrow> bool" where
  "status_ok d k = (case content_at d k of
     None \<Rightarrow> chunks_at d k = []
   | Some c \<Rightarrow> cs_status c \<in> {ContentDone, ContentSkipped, ContentFailed} \<and>
       map ch_seq (chunks_at d k) = [0..<cs_chunk_count c] \<and>
       (cs_status c \<noteq> ContentDone \<longrightarrow> cs_chunk_count c = 0))"

definition content_ok :: "db \<Rightarrow> bool" where
  "content_ok d \<longleftrightarrow> (\<forall>k. status_ok d k)"

definition names_ok :: "unicode \<Rightarrow> db \<Rightarrow> bool" where
  "names_ok pg d \<longleftrightarrow> distinct (map (to_lower pg \<circ> v_name) (volumes d))"

definition index_ok :: "unicode \<Rightarrow> db \<Rightarrow> bool" where
  "index_ok pg d \<longleftrightarrow> db_ok d \<and> content_ok d \<and> seen_ok d \<and> names_ok pg d \<and> 1 \<le> next_run d"

inductive index_step :: "unicode \<Rightarrow> db \<Rightarrow> db \<Rightarrow> bool" for pg where
  upsert: "run < next_run d \<Longrightarrow> index_step pg d (snd (UpsertBatch flt fs run d))"
| sweep: "index_step pg d (snd (Sweep flt vol run d))"
| delete: "index_step pg d (snd (Delete flt vol p d))"
| start: "index_step pg d (snd (StartCrawlRun flt now vol trig d))"
| finish: "index_step pg d (snd (FinishCrawlRun flt now i res d))"
| save: "index_step pg d (snd (SaveContent flt now vol p sz mt cs d))"
| skip: "index_step pg d (snd (SaveContentSkip flt now vol p sz mt status reason d))"
| retry: "index_step pg d (snd (RetryFailedContent flt vol d))"
| create: "index_step pg d (snd (CreateVolume pg flt now nm host share user pw d))"
| update: "index_step pg d (snd (UpdateVolume pg flt now i u d))"
| set_index: "index_step pg d (snd (SetVolumeContentIndex flt i on d))"
| delete_volume: "index_step pg d (snd (DeleteVolume flt i d))"
| test_result: "index_step pg d (snd (SetVolumeTestResult flt now i ok msg d))"
| set_settings: "index_step pg d (snd (SetContentSettings flt now cs d))"

section \<open>Preservation\<close>

lemma status_ok_eq:
  "content_at d' k = content_at d k \<Longrightarrow> chunks_at d' k = chunks_at d k \<Longrightarrow> status_ok d' k = status_ok d k"
  by (simp add: status_ok_def cong: option.case_cong)

lemma status_ok_none: "content_at d k = None \<Longrightarrow> chunks_at d k = [] \<Longrightarrow> status_ok d k"
  by (simp add: status_ok_def)

lemma content_okD: "content_ok d \<Longrightarrow> status_ok d k"
  unfolding content_ok_def by blast

lemma content_ok_cong:
  assumes "content_state d' = content_state d" "chunks d' = chunks d"
  shows "content_ok d' = content_ok d"
proof -
  have "status_ok d' k = status_ok d k" for k
    by (rule status_ok_eq) (simp_all add: content_at_def chunks_at_def assms)
  then show ?thesis unfolding content_ok_def by simp
qed

lemma content_ok_delete_files:
  assumes "db_ok d" "content_ok d"
  shows "content_ok (sql_delete_files P d)"
  unfolding content_ok_def
proof
  fix k
  show "status_ok (sql_delete_files P d) k"
  proof (cases "k \<in> set (gone_keys P d)")
    case True
    then show ?thesis by (intro status_ok_none) (simp_all add: content_at_delete [OF assms(1)] chunks_at_delete)
  next
    case False
    then have "status_ok (sql_delete_files P d) k = status_ok d k"
      by (intro status_ok_eq) (simp_all add: content_at_delete [OF assms(1)] chunks_at_delete)
    then show ?thesis using content_okD [OF assms(2)] by simp
  qed
qed

lemma chunks_at_delete_other:
  "chunks_at (delete_file_chunks k d) k' = (if k' = k then [] else chunks_at d k')"
  by (auto simp: chunks_at_def delete_file_chunks_def tbl_del_def filter_empty_conv intro!: filter_cong)

lemma content_at_put:
  "db_ok d \<Longrightarrow> content_at (d\<lparr>content_state := tbl_put cs_key c (content_state d)\<rparr>) k =
     (if k = cs_key c then Some c else content_at d k)"
  by (simp add: content_at_def content_tbl.get_put db_ok_wf)

lemma chunk_rows_facts:
  "map ch_seq (chunk_rows vol p cs) = [0..<length cs]" "map ch_body (chunk_rows vol p cs) = cs"
  "list_all (\<lambda>c. ch_file c = (vol, p)) (chunk_rows vol p cs)"
  by (auto simp: chunk_rows_def o_def case_prod_beta enumerate_eq_zip list_all_iff ch_file_def)

lemma filter_all: "list_all P xs \<Longrightarrow> filter P xs = xs"
  by (simp add: list_all_iff)

lemma filter_none: "list_all (\<lambda>x. \<not> P x) xs \<Longrightarrow> filter P xs = []"
  by (simp add: list_all_iff filter_empty_conv)

text \<open>What a successful save leaves behind.\<close>

definition saved :: "int \<Rightarrow> int \<Rightarrow> string \<Rightarrow> int \<Rightarrow> int \<Rightarrow> string \<Rightarrow> string \<Rightarrow> string list \<Rightarrow> db \<Rightarrow> db" where
  "saved now vol p sz mt status reason cs d =
     d\<lparr>chunks := tbl_del (\<lambda>c. ch_file c = (vol, p)) (chunks d) @ chunk_rows vol p cs,
       content_state := tbl_put cs_key \<lparr>cs_volume = vol, cs_path = p, cs_size = sz, cs_mod_time = mt,
             cs_status = status, cs_reason = null_if_empty reason, cs_chunk_count = length cs,
             cs_indexed_at = now\<rparr> (content_state d)\<rparr>"

lemma chunk_rows_insert:
  assumes "db_ok d" "(vol, p) \<in> file_key ` set (files d)"
  shows "sql_insert_chunks (chunk_rows vol p cs) (delete_file_chunks (vol, p) d) =
    Inr (d\<lparr>chunks := tbl_del (\<lambda>c. ch_file c = (vol, p)) (chunks d) @ chunk_rows vol p cs\<rparr>)"
proof -
  let ?d = "delete_file_chunks (vol, p) d" and ?r = "chunk_rows vol p cs"
  have "list_all (\<lambda>c. ch_file c \<in> file_key ` set (files ?d)) ?r"
    using chunk_rows_facts(3) [of vol p cs] assms(2) by (simp add: list_all_iff delete_file_chunks_def)
  moreover have "distinct (map ch_key (chunks ?d))"
    using delete_chunks_ok [OF assms(1)] db_ok_wf(6) [of ?d] by (simp add: delete_file_chunks_def tbl_wf_def)
  moreover have "distinct (map ch_key ?r)"
  proof -
    have "map snd (map ch_key ?r) = [0..<length cs]"
      using chunk_rows_facts(1) [of vol p cs] by (simp add: ch_key_def o_def)
    then show ?thesis by (metis distinct_map distinct_upt)
  qed
  moreover have "ch_key ` set (chunks ?d) \<inter> ch_key ` set ?r = {}"
    using chunk_rows_facts(3) [of vol p cs] by (auto simp: delete_file_chunks_def ch_key_def list_all_iff)
  ultimately have "list_all (\<lambda>c. ch_file c \<in> file_key ` set (files ?d)) ?r \<and> distinct (map ch_key (chunks ?d @ ?r))"
    by simp
  then show ?thesis by (simp add: sql_insert_chunks_def) (simp add: delete_file_chunks_def)
qed

lemma upsertContentState_eq:
  "upsertContentState now vol p sz mt status reason n d =
     (if (vol, p) \<in> file_key ` set (files d)
      then Inr (d\<lparr>content_state := tbl_put cs_key \<lparr>cs_volume = vol, cs_path = p, cs_size = sz, cs_mod_time = mt,
             cs_status = status, cs_reason = null_if_empty reason, cs_chunk_count = n, cs_indexed_at = now\<rparr> (content_state d)\<rparr>)
      else Inl ErrFileGone)"
  by (simp add: upsertContentState_def sql_upsert_content_def cs_key_def wrapFileGone_def)

lemma SaveContent_eq:
  assumes "db_ok d"
  shows "SaveContent None now vol p sz mt cs d =
    (if (vol, p) \<in> file_key ` set (files d) then (Inr (), saved now vol p sz mt ContentDone [] cs d)
     else (Inl ErrFileGone, d))"
proof (cases "(vol, p) \<in> file_key ` set (files d)")
  case True
  show ?thesis
  proof (cases "cs = []")
    case nil: True
    then show ?thesis using True
      by (simp add: SaveContent_def upsertContentState_eq saved_def delete_file_chunks_def chunk_rows_def)
  next
    case False
    then show ?thesis using True chunk_rows_insert [OF assms True, of cs]
      by (simp add: SaveContent_def upsertContentState_eq saved_def)
  qed
next
  case False
  have "cs \<noteq> [] \<Longrightarrow> \<not> list_all (\<lambda>c. ch_file c \<in> file_key ` set (files d)) (chunk_rows vol p cs)"
    using chunk_rows_facts(3) [of vol p cs] False by (cases cs) (auto simp: chunk_rows_def)
  then have "cs \<noteq> [] \<Longrightarrow> sql_insert_chunks (chunk_rows vol p cs) (delete_file_chunks (vol, p) d) = Inl ForeignKeyViolation"
    by (simp add: sql_insert_chunks_def delete_file_chunks_def)
  then show ?thesis using False
    by (cases "cs = []") (simp_all add: SaveContent_def upsertContentState_eq wrapFileGone_def delete_file_chunks_def Let_def)
qed

lemma SaveContentSkip_eq:
  assumes "status = ContentSkipped \<or> status = ContentFailed"
  shows "SaveContentSkip None now vol p sz mt status reason d =
    (if (vol, p) \<in> file_key ` set (files d) then (Inr (), saved now vol p sz mt status reason [] d)
     else (Inl ErrFileGone, d))"
  using assms by (auto simp: SaveContentSkip_def upsertContentState_eq saved_def delete_file_chunks_def chunk_rows_def)

lemma saved_ok:
  assumes "db_ok d" "(vol, p) \<in> file_key ` set (files d)"
  shows "db_ok (saved now vol p sz mt status reason cs d)"
proof -
  let ?d = "d\<lparr>chunks := tbl_del (\<lambda>c. ch_file c = (vol, p)) (chunks d) @ chunk_rows vol p cs\<rparr>"
  have "db_ok (delete_file_chunks (vol, p) d)"
    using delete_chunks_ok [OF assms(1)] by (simp add: delete_file_chunks_def)
  then have "db_ok ?d" using sql_insert_chunks_ok chunk_rows_insert [OF assms] by blast
  moreover have "sql_upsert_content \<lparr>cs_volume = vol, cs_path = p, cs_size = sz, cs_mod_time = mt,
             cs_status = status, cs_reason = null_if_empty reason, cs_chunk_count = length cs,
             cs_indexed_at = now\<rparr> ?d = Inr (saved now vol p sz mt status reason cs d)"
    using assms(2) by (simp add: saved_def sql_upsert_content_def cs_key_def)
  ultimately show ?thesis by (rule sql_upsert_content_ok)
qed

lemma content_at_saved:
  assumes "db_ok d"
  shows "content_at (saved now vol p sz mt status reason cs d) k =
    (if k = (vol, p) then Some \<lparr>cs_volume = vol, cs_path = p, cs_size = sz, cs_mod_time = mt,
             cs_status = status, cs_reason = null_if_empty reason, cs_chunk_count = length cs,
             cs_indexed_at = now\<rparr> else content_at d k)"
  using content_tbl.get_put [OF db_ok_wf(5) [OF assms]] by (simp add: content_at_def saved_def cs_key_def)

lemma chunks_at_saved:
  "chunks_at (saved now vol p sz mt status reason cs d) k =
    (if k = (vol, p) then chunk_rows vol p cs else chunks_at d k)"
proof -
  have r: "filter (\<lambda>c. ch_file c = k) (chunk_rows vol p cs) = (if k = (vol, p) then chunk_rows vol p cs else [])"
    using chunk_rows_facts(3) [of vol p cs] by (auto simp: list_all_iff filter_empty_conv)
  have "filter (\<lambda>c. ch_file c = k) (tbl_del (\<lambda>c. ch_file c = (vol, p)) (chunks d)) =
      (if k = (vol, p) then [] else chunks_at d k)"
    using chunks_at_delete_other [of "(vol, p)" d k] by (simp add: chunks_at_def delete_file_chunks_def)
  then show ?thesis by (simp add: chunks_at_def saved_def r)
qed

lemma saved_content_ok:
  assumes "db_ok d" "content_ok d" "status = ContentDone \<or> cs = [] \<and> status \<in> {ContentSkipped, ContentFailed}"
  shows "content_ok (saved now vol p sz mt status reason cs d)"
  unfolding content_ok_def
proof
  fix k
  let ?d = "saved now vol p sz mt status reason cs d"
  show "status_ok ?d k"
  proof (cases "k = (vol, p)")
    case True
    then show ?thesis using assms(3) chunk_rows_facts(1) [of vol p cs]
      by (auto simp: status_ok_def content_at_saved [OF assms(1)] chunks_at_saved)
  next
    case False
    then have "status_ok ?d k = status_ok d k"
      by (intro status_ok_eq) (simp_all add: content_at_saved [OF assms(1)] chunks_at_saved)
    then show ?thesis using content_okD [OF assms(2)] by simp
  qed
qed

section \<open>Every operation keeps the invariant\<close>

lemma Sweep_cases:
  "snd (Sweep flt vol run d) = d \<or> snd (Sweep flt vol run d) = sql_delete_files (\<lambda>r. fVolume r = vol \<and> last_seen_run r \<noteq> run) d"
  by (simp add: Sweep_def Let_def split: option.split)

lemma Delete_cases:
  "snd (Delete flt vol p d) = d \<or> (\<exists>P. snd (Delete flt vol p d) = sql_delete_files P d)"
  by (auto simp: Delete_def split: option.split)

lemma delete_files_index_ok: "index_ok pg d \<Longrightarrow> index_ok pg (sql_delete_files P d)"
  using content_ok_delete_files [of d P] sql_delete_files_ok [of d P]
  by (auto simp: index_ok_def seen_ok_def names_ok_def list_all_iff sql_delete_files_def)

lemma SaveContent_cases:
  assumes "db_ok d"
  shows "snd (SaveContent flt now vol p sz mt cs d) = d \<or>
    (vol, p) \<in> file_key ` set (files d) \<and>
    snd (SaveContent flt now vol p sz mt cs d) = saved now vol p sz mt ContentDone [] cs d"
  using SaveContent_eq [OF assms, of now vol p sz mt cs] by (cases flt) (auto simp: SaveContent_def)

lemma SaveContentSkip_cases:
  "snd (SaveContentSkip flt now vol p sz mt status reason d) = d \<or>
    (vol, p) \<in> file_key ` set (files d) \<and> status \<in> {ContentSkipped, ContentFailed} \<and>
    snd (SaveContentSkip flt now vol p sz mt status reason d) = saved now vol p sz mt status reason [] d"
  using SaveContentSkip_eq [of status now vol p sz mt reason d]
  by (cases flt) (auto simp: SaveContentSkip_def split: if_splits)

lemma saved_index_ok:
  assumes "index_ok pg d" "(vol, p) \<in> file_key ` set (files d)"
    "status = ContentDone \<or> cs = [] \<and> status \<in> {ContentSkipped, ContentFailed}"
  shows "index_ok pg (saved now vol p sz mt status reason cs d)"
  using assms saved_ok [of d vol p] saved_content_ok [of d status cs]
  by (auto simp: index_ok_def seen_ok_def names_ok_def) (simp_all add: saved_def)

lemma set_tbl_put: "set (tbl_put key r t) \<subseteq> insert r (set t)"
  by (auto simp: tbl_put_def)

lemma set_fold_put: "set (fold (tbl_put key) rs t) \<subseteq> set rs \<union> set t"
proof (induction rs arbitrary: t)
  case (Cons r rs)
  then show ?case using set_tbl_put [of key r t] by fastforce
qed simp

lemma upsert_index_ok:
  assumes "index_ok pg d" "run < next_run d"
  shows "index_ok pg (snd (UpsertBatch flt fs run d))"
proof (cases flt)
  case (Some e)
  then show ?thesis using assms(1) by (simp add: UpsertBatch_def)
next
  case None
  let ?t = "fold (tbl_put file_key) (map (mk_row run) (keep_last fs)) (files d)"
  have d': "snd (UpsertBatch flt fs run d) = d\<lparr>files := ?t\<rparr>" using None by (simp add: UpsertBatch_eq)
  have ok: "db_ok (d\<lparr>files := ?t\<rparr>)"
    using UpsertBatch_ok [of d None fs run] assms(1) by (simp add: UpsertBatch_eq index_ok_def)
  have "last_seen_run r < next_run d" if "r \<in> set ?t" for r
    using that set_fold_put [of file_key "map (mk_row run) (keep_last fs)" "files d"] assms
    by (auto simp: index_ok_def seen_ok_def list_all_iff)
  then have "seen_ok (d\<lparr>files := ?t\<rparr>)" by (simp add: seen_ok_def list_all_iff)
  then show ?thesis
    using ok assms(1) content_ok_cong [of "d\<lparr>files := ?t\<rparr>" d] by (simp add: d' index_ok_def names_ok_def)
qed

lemma start_index_ok: "index_ok pg d \<Longrightarrow> index_ok pg (snd (StartCrawlRun flt now vol trig d))"
proof -
  assume d: "index_ok pg d"
  let ?d = "snd (StartCrawlRun flt now vol trig d)"
  have "files ?d = files d" "volumes ?d = volumes d" "content_state ?d = content_state d" "chunks ?d = chunks d"
    "next_run d \<le> next_run ?d"
    by (auto simp: StartCrawlRun_def split: option.splits)
  then show ?thesis using d StartCrawlRun_ok [of d flt now vol trig] content_ok_cong [of ?d d]
    by (force simp: index_ok_def seen_ok_def names_ok_def list_all_iff)
qed

lemma same_tables_ok:
  assumes "index_ok pg d" "db_ok d'" "files d' = files d" "volumes d' = volumes d"
    "content_state d' = content_state d" "chunks d' = chunks d" "next_run d' = next_run d"
  shows "index_ok pg d'"
  using assms content_ok_cong [of d' d] by (simp add: index_ok_def seen_ok_def names_ok_def)

lemma finish_index_ok: "index_ok pg d \<Longrightarrow> index_ok pg (snd (FinishCrawlRun flt now i res d))"
proof -
  assume d: "index_ok pg d"
  then have ok: "db_ok (snd (FinishCrawlRun flt now i res d))" by (simp add: FinishCrawlRun_ok index_ok_def)
  show ?thesis by (rule same_tables_ok [OF d ok]) (auto simp: FinishCrawlRun_def Let_def split: option.splits)
qed

lemma set_settings_index_ok: "index_ok pg d \<Longrightarrow> index_ok pg (snd (SetContentSettings flt now cs d))"
proof -
  assume d: "index_ok pg d"
  then have ok: "db_ok (snd (SetContentSettings flt now cs d))" by (simp add: SetContentSettings_ok index_ok_def)
  show ?thesis by (rule same_tables_ok [OF d ok]) (auto simp: SetContentSettings_def split: option.splits)
qed

text \<open>Deleting content rows and, with them, their chunks\<close>

lemma content_at_del:
  assumes "db_ok d"
  shows "content_at (d\<lparr>chunks := cs, content_state := tbl_del P (content_state d)\<rparr>) k =
    (case content_at d k of Some c \<Rightarrow> if P c then None else Some c | None \<Rightarrow> None)"
  using content_tbl.get_del [OF db_ok_wf(5) [OF assms]] by (simp add: content_at_def)

lemma retry_content_ok:
  assumes "db_ok d" "content_ok d"
  shows "content_ok (snd (RetryFailedContent flt vol d))"
proof (cases flt)
  case None
  let ?P = "\<lambda>c. cs_volume c = vol \<and> cs_status c = ContentFailed"
  let ?d = "d\<lparr>content_state := tbl_del ?P (content_state d)\<rparr>"
  have at: "content_at ?d k = (case content_at d k of Some c \<Rightarrow> if ?P c then None else Some c | None \<Rightarrow> None)"
    "chunks_at ?d k = chunks_at d k" for k
    using content_at_del [OF assms(1), where cs = "chunks d" and P = ?P and k = k] by (simp_all add: content_at_def chunks_at_def)
  have "status_ok ?d k" for k
  proof (cases "\<exists>c. content_at d k = Some c \<and> ?P c")
    case True
    then have "content_at ?d k = None" using at(1) [of k] by auto
    moreover have "chunks_at d k = []"
      using True content_okD [OF assms(2), of k] by (auto simp: status_ok_def ContentFailed_def ContentDone_def)
    ultimately show ?thesis using at(2) by (intro status_ok_none) auto
  next
    case False
    then have "content_at ?d k = content_at d k" using at(1) [of k] by (auto split: option.split)
    then show ?thesis using status_ok_eq [of ?d k d] at(2) content_okD [OF assms(2)] by blast
  qed
  then show ?thesis using None by (auto simp: content_ok_def RetryFailedContent_def Let_def)
qed (use assms in \<open>simp add: RetryFailedContent_def\<close>)

lemma retry_index_ok: "index_ok pg d \<Longrightarrow> index_ok pg (snd (RetryFailedContent flt vol d))"
  using retry_content_ok [of d flt vol] delete_content_ok [of d]
  by (cases flt) (auto simp: index_ok_def seen_ok_def names_ok_def RetryFailedContent_def Let_def)

section \<open>Volume operations\<close>

lemma distinct_replace:
  assumes "distinct (map f xs)" "f y \<notin> f ` {x \<in> set xs. key x \<noteq> key y}" "distinct (map key xs)"
  shows "distinct (map f (map (\<lambda>x. if key x = key y then y else x) xs))"
  using assms
proof (induction xs)
  case (Cons x xs)
  let ?m = "map (\<lambda>x. if key x = key y then y else x) xs"
  have ih: "distinct (map f ?m)" using Cons by auto
  show ?case
  proof (cases "key x = key y")
    case True
    then have "\<forall>z\<in>set xs. key z \<noteq> key y" using Cons.prems(3) by (auto simp: rev_image_eqI)
    then have "?m = xs" by (simp add: map_idI)
    moreover have "f y \<notin> f ` set xs" using Cons.prems(2) \<open>\<forall>z\<in>set xs. key z \<noteq> key y\<close> by auto
    ultimately show ?thesis using True Cons.prems(1) by simp
  next
    case False
    have "x \<in> {z \<in> set (x # xs). key z \<noteq> key y}" using False by simp
    then have "f x \<noteq> f y" using Cons.prems(2) by (metis imageI)
    moreover have "f x \<notin> f ` set xs" using Cons.prems(1) by simp
    ultimately have "f x \<notin> set (map f ?m)" by (auto split: if_splits)
    moreover have "map f (map (\<lambda>x. if key x = key y then y else x) (x # xs)) = f x # map f ?m"
      using False by simp
    ultimately show ?thesis using ih by (metis distinct.simps(2))
  qed
qed simp

lemma create_index_ok:
  assumes "index_ok pg d"
  shows "index_ok pg (snd (CreateVolume pg flt now nm host share user pw d))"
proof -
  let ?d = "snd (CreateVolume pg flt now nm host share user pw d)"
  have e: "files ?d = files d" "content_state ?d = content_state d" "chunks ?d = chunks d"
    "next_run ?d = next_run d" "crawl_runs ?d = crawl_runs d" "settings ?d = settings d"
    by (auto simp: CreateVolume_def Let_def split: option.splits if_splits)
  have n: "names_ok pg ?d"
    using assms by (auto simp: index_ok_def names_ok_def CreateVolume_def Let_def o_def split: option.splits)
  have v: "tbl_wf v_id (volumes ?d) \<and> list_all (\<lambda>v. v_id v < next_volume ?d) (volumes ?d)"
    using assms by (force simp: index_ok_def db_ok_def tbl_wf_def CreateVolume_def Let_def list_all_iff split: option.splits)
  then have "db_ok ?d" using assms e by (simp add: index_ok_def db_ok_def)
  then show ?thesis using assms n e content_ok_cong [of ?d d] by (simp add: index_ok_def seen_ok_def)
qed

lemma replace_volume_ok:
  assumes "index_ok pg d" "tbl_get v_id i (volumes d) = Some v" "v_id v' = i"
    and "to_lower pg (v_name v') \<notin> (to_lower pg \<circ> v_name) ` {w \<in> set (volumes d). v_id w \<noteq> i}"
  shows "index_ok pg (d\<lparr>volumes := tbl_put v_id v' (volumes d)\<rparr>)"
proof -
  let ?d = "d\<lparr>volumes := tbl_put v_id v' (volumes d)\<rparr>"
  have wf: "tbl_wf v_id (volumes d)" and ids: "list_all (\<lambda>v. v_id v < next_volume d) (volumes d)"
    and nm: "distinct (map (to_lower pg \<circ> v_name) (volumes d))"
    using assms(1) by (auto simp: index_ok_def db_ok_def names_ok_def)
  have v: "v \<in> set (volumes d)" "v_id v = i" using tbl_get_eq [OF wf] assms(2) by auto
  then have put: "tbl_put v_id v' (volumes d) = map (\<lambda>x. if v_id x = v_id v' then v' else x) (volumes d)"
    using assms(3) by (force simp: tbl_put_def)
  have "names_ok pg ?d"
    unfolding names_ok_def using distinct_replace [OF nm, of v' v_id] assms(3,4) wf
    by (simp add: put tbl_wf_def)
  moreover have "db_ok ?d"
  proof -
    have "v_id v' < next_volume d" using v ids assms(3) by (auto simp: list_all_iff)
    then have "list_all (\<lambda>v. v_id v < next_volume d) (tbl_put v_id v' (volumes d))"
      using ids by (auto simp: put list_all_iff)
    then show ?thesis using assms(1) by (simp add: index_ok_def db_ok_def tbl_wf_put)
  qed
  ultimately show ?thesis
    using assms(1) content_ok_cong [of ?d d] by (simp add: index_ok_def seen_ok_def)
qed

lemma update_index_ok:
  assumes "index_ok pg d"
  shows "index_ok pg (snd (UpdateVolume pg flt now i u d))"
proof (cases "flt = None \<and> tbl_get v_id i (volumes d) \<noteq> None")
  case True
  then obtain v where v: "tbl_get v_id i (volumes d) = Some v" by auto
  have i: "v_id v = i" using tbl_get_eq assms v by (metis db_ok_wf(1) index_ok_def)
  have a: "v_id (apply_update now u v) = i" "v_name (apply_update now u v) = u_name u"
    using i by (simp_all add: apply_update_def Let_def split: option.split)
  show ?thesis
  proof (cases "to_lower pg (u_name u) \<in> set (map (to_lower pg \<circ> v_name) (filter (\<lambda>w. v_id w \<noteq> i) (volumes d)))")
    case False
    then have "to_lower pg (v_name (apply_update now u v)) \<notin> (to_lower pg \<circ> v_name) ` {w \<in> set (volumes d). v_id w \<noteq> i}"
      using a by simp
    from replace_volume_ok [OF assms v a(1) this] show ?thesis using True v False
      by (simp add: UpdateVolume_def)
  qed (use True v assms in \<open>simp add: UpdateVolume_def\<close>)
qed (use assms in \<open>auto simp: UpdateVolume_def split: option.splits\<close>)

lemma drop_volume_content_ok:
  assumes "db_ok d" "content_ok d"
  shows "content_ok (d\<lparr>chunks := tbl_del (\<lambda>c. ch_volume c = i) (chunks d),
      content_state := tbl_del (\<lambda>c. cs_volume c = i) (content_state d)\<rparr>)"
    (is "content_ok ?d")
proof -
  have vol: "cs_volume c = fst k" if "content_at d k = Some c" for c k
    using that db_ok_wf(5) [OF assms(1)] by (auto simp: content_at_def tbl_get_eq cs_key_def)
  have c: "content_at ?d k = (if fst k = i then None else content_at d k)" for k
    using content_at_del [OF assms(1), where cs = "tbl_del (\<lambda>c. ch_volume c = i) (chunks d)"
        and P = "\<lambda>c. cs_volume c = i" and k = k] vol [of k]
    by (auto split: option.splits)
  have ch: "chunks_at ?d k = (if fst k = i then [] else chunks_at d k)" for k
    by (cases k) (auto simp: chunks_at_def tbl_del_def ch_file_def filter_empty_conv intro!: filter_cong)
  have "status_ok ?d k" for k
  proof (cases "fst k = i")
    case True
    then show ?thesis by (intro status_ok_none) (simp_all add: c ch)
  next
    case False
    then show ?thesis using status_ok_eq [of ?d k d] c ch content_okD [OF assms(2)] by simp
  qed
  then show ?thesis unfolding content_ok_def by blast
qed

lemma set_index_index_ok:
  assumes "index_ok pg d"
  shows "index_ok pg (snd (SetVolumeContentIndex flt i on d))"
proof (cases "flt = None \<and> tbl_get v_id i (volumes d) \<noteq> None")
  case True
  then obtain v where v: "tbl_get v_id i (volumes d) = Some v" by auto
  have wf: "tbl_wf v_id (volumes d)" "distinct (map (to_lower pg \<circ> v_name) (volumes d))"
    using assms by (auto simp: index_ok_def db_ok_def names_ok_def)
  have mem: "v \<in> set (volumes d)" "v_id v = i" using tbl_get_eq [OF wf(1)] v by auto
  have "to_lower pg (v_name v) \<noteq> to_lower pg (v_name w)" if "w \<in> set (volumes d)" "v_id w \<noteq> i" for w
  proof -
    have "inj_on (to_lower pg \<circ> v_name) (set (volumes d))" using wf(2) by (simp add: distinct_map)
    from inj_onD [OF this, of v w] mem that show ?thesis by auto
  qed
  then have "to_lower pg (v_name (v\<lparr>v_content_index := on\<rparr>)) \<notin> (to_lower pg \<circ> v_name) ` {w \<in> set (volumes d). v_id w \<noteq> i}"
    by auto
  from replace_volume_ok [OF assms v _ this] mem
  have ok: "index_ok pg (d\<lparr>volumes := tbl_put v_id (v\<lparr>v_content_index := on\<rparr>) (volumes d)\<rparr>)" (is "index_ok pg ?d") by simp
  have "index_ok pg (?d\<lparr>chunks := tbl_del (\<lambda>c. ch_volume c = i) (chunks d),
      content_state := tbl_del (\<lambda>c. cs_volume c = i) (content_state d)\<rparr>)"
    using ok drop_volume_content_ok [of ?d i] delete_content_ok [OF delete_chunks_ok, of ?d]
    by (simp add: index_ok_def seen_ok_def names_ok_def)
  then show ?thesis using True v ok by (cases on) (simp_all add: SetVolumeContentIndex_def Let_def)
qed (use assms in \<open>auto simp: SetVolumeContentIndex_def split: option.splits\<close>)

lemma delete_volume_index_ok:
  assumes "index_ok pg d"
  shows "index_ok pg (snd (DeleteVolume flt i d))"
proof (cases flt)
  case None
  let ?d = "sql_delete_files (\<lambda>r. fVolume r = i) d"
  let ?e = "?d\<lparr>crawl_runs := tbl_del (\<lambda>r. cr_volume r = i) (crawl_runs ?d),
      volumes := tbl_del (\<lambda>v. v_id v = i) (volumes ?d)\<rparr>"
  have d: "index_ok pg ?d" using delete_files_index_ok [OF assms] .
  have "names_ok pg ?e"
    using d by (auto simp: index_ok_def names_ok_def tbl_del_def distinct_map_filter)
  moreover have "db_ok ?e" using d by (auto simp: index_ok_def db_ok_def tbl_wf_del list_all_iff)
  moreover have "content_ok ?e" using d content_ok_cong [of ?e ?d] by (simp add: index_ok_def)
  ultimately have "index_ok pg ?e" using d by (simp add: index_ok_def seen_ok_def)
  then show ?thesis using None by (simp add: DeleteVolume_def Let_def)
qed (use assms in \<open>simp add: DeleteVolume_def\<close>)

lemma test_result_index_ok:
  assumes "index_ok pg d"
  shows "index_ok pg (snd (SetVolumeTestResult flt now i ok msg d))"
proof (cases flt)
  case None
  let ?f = "\<lambda>v. if v_id v = i then v\<lparr>v_test_ok := Some ok, v_test_at := Some now, v_test_error := null_if_empty msg\<rparr> else v"
  let ?d = "d\<lparr>volumes := map ?f (volumes d)\<rparr>"
  have "map v_id (map ?f (volumes d)) = map v_id (volumes d)"
    "map (to_lower pg \<circ> v_name) (map ?f (volumes d)) = map (to_lower pg \<circ> v_name) (volumes d)" by auto
  then have "tbl_wf v_id (map ?f (volumes d))" "names_ok pg ?d"
    using assms by (auto simp: index_ok_def db_ok_def tbl_wf_def names_ok_def simp del: map_map)
  moreover have "list_all (\<lambda>v. v_id v < next_volume d) (map ?f (volumes d))"
    using assms by (auto simp: index_ok_def db_ok_def list_all_iff)
  ultimately have "db_ok ?d" "names_ok pg ?d" using assms by (auto simp: index_ok_def db_ok_def)
  then have "index_ok pg ?d" using assms content_ok_cong [of ?d d] by (simp add: index_ok_def seen_ok_def)
  then show ?thesis using None by (simp add: SetVolumeTestResult_def)
qed (use assms in \<open>simp add: SetVolumeTestResult_def\<close>)

lemma index_step_ok: "index_step pg d d' \<Longrightarrow> index_ok pg d \<Longrightarrow> index_ok pg d'"
proof (induction rule: index_step.induct)
  case (sweep d flt vol run)
  then show ?case using Sweep_cases [of flt vol run d] delete_files_index_ok by auto
next
  case (delete d flt vol p)
  then show ?case using Delete_cases [of flt vol p d] delete_files_index_ok by auto
next
  case (save d flt now vol p sz mt cs)
  then show ?case using SaveContent_cases [of d flt now vol p sz mt cs] saved_index_ok [of pg d vol p ContentDone cs]
    by (auto simp: index_ok_def)
next
  case (skip d flt now vol p sz mt status reason)
  then show ?case
    using SaveContentSkip_cases [of flt now vol p sz mt status reason d] saved_index_ok [of pg d vol p status "[]"] by auto
qed (simp_all add: upsert_index_ok start_index_ok finish_index_ok retry_index_ok create_index_ok update_index_ok
    set_index_index_ok delete_volume_index_ok test_result_index_ok set_settings_index_ok)

lemma empty_index_ok: "index_ok pg empty_db"
  by (simp add: index_ok_def db_ok_empty)
    (simp add: empty_db_def content_ok_def status_ok_def content_at_def chunks_at_def tbl_get_def seen_ok_def names_ok_def)

section \<open>Properties\<close>

text \<open>Every database the index operations can produce, in any order, with any arguments and any
  database faults, has unique keys and volume names, content and chunks only for files that exist,
  chunks numbered without gaps under a matching \<open>done\<close> row, and no file stamped by a run that was
  never started.\<close>

theorem index_reachable_ok:
  assumes "(index_step pg)\<^sup>*\<^sup>* empty_db d"
  shows "index_ok pg d"
  using assms by (induction rule: rtranclp_induct) (use index_step_ok empty_index_ok in auto)

theorem index_reachable_ok_witness:
  "index_ok ascii_tables (snd (SaveContent None 1 1 ''a'' 1 5 [''text'']
     (snd (UpsertBatch None [example_file ''a'' 1] 0 empty_db))))"
proof -
  have s1: "index_step ascii_tables empty_db (snd (UpsertBatch None [example_file ''a'' 1] 0 empty_db))"
    by (rule index_step.upsert) (simp add: empty_db_def)
  have s2: "index_step ascii_tables (snd (UpsertBatch None [example_file ''a'' 1] 0 empty_db))
      (snd (SaveContent None 1 1 ''a'' 1 5 [''text''] (snd (UpsertBatch None [example_file ''a'' 1] 0 empty_db))))"
    by (rule index_step.save)
  show ?thesis
    by (rule index_reachable_ok, rule converse_rtranclp_into_rtranclp, rule s1, rule r_into_rtranclp, rule s2)
qed

text \<open>C5: text saved for an indexed file is read back, complete and in order, as \<open>done\<close>; for a file
  whose row is gone the save reports \<open>ErrFileGone\<close> and changes nothing.\<close>

theorem SaveContent_roundtrip:
  assumes "db_ok d"
  shows "case SaveContent None now vol p sz mt cs d of (res, d') \<Rightarrow>
    (if file_at d (vol, p) \<noteq> None
     then res = Inr () \<and>
       ContentFor None None vol p d' = Inr (Some \<lparr>ci_status = ContentDone, ci_reason = [], ci_chunks = cs\<rparr>)
     else res = Inl ErrFileGone \<and> d' = d)"
proof -
  have f: "file_at d (vol, p) \<noteq> None \<longleftrightarrow> (vol, p) \<in> file_key ` set (files d)"
    unfolding file_at_def by (metis tbl_get_None)
  have "sort_key ch_seq (chunk_rows vol p cs) = chunk_rows vol p cs"
    by (rule sort_key_id_if_sorted) (simp add: chunk_rows_facts)
  then show ?thesis
    unfolding f SaveContent_eq [OF assms]
    by (simp add: ContentFor_def content_at_saved [OF assms] chunks_at_saved chunk_rows_facts
        null_if_empty_def or_empty_def)
qed

theorem SaveContent_roundtrip_witness:
  "ContentFor None None 1 ''a'' (snd (SaveContent None 9 1 ''a'' 1 5 [''x'', ''y'']
     (snd (UpsertBatch None [example_file ''a'' 1] 0 empty_db))))
   = Inr (Some \<lparr>ci_status = ContentDone, ci_reason = [], ci_chunks = [''x'', ''y'']\<rparr>)"
proof -
  let ?d = "snd (UpsertBatch None [example_file ''a'' 1] 0 empty_db)"
  have "file_at ?d (1, ''a'') \<noteq> None"
    by (simp add: UpsertBatch_file_at [OF db_ok_empty] last_for_def example_file_def file_key_def)
  with SaveContent_roundtrip [OF UpsertBatch_ok [OF db_ok_empty, of None "[example_file ''a'' 1]" 0],
      where now = 9 and vol = 1 and p = "''a''" and sz = 1 and mt = 5 and cs = "[''x'', ''y'']"]
  show ?thesis by (simp add: case_prod_beta)
qed

text \<open>The queue: whether a row is pending depends only on the row and its content row.\<close>

lemma is_pending_eq:
  "content_at d' (file_key r) = content_at d (file_key r) \<Longrightarrow> is_pending pg exts m d' r = is_pending pg exts m d r"
  by (simp add: is_pending_def cong: option.case_cong)

definition records :: "(index_err + unit) \<times> db \<Rightarrow> int \<Rightarrow> string \<Rightarrow> int \<Rightarrow> int \<Rightarrow> db \<Rightarrow> bool" where
  "records out vol p sz mt d \<longleftrightarrow>
     (\<exists>now cs. out = SaveContent None now vol p sz mt cs d) \<or>
     (\<exists>now status reason. status \<in> {ContentSkipped, ContentFailed} \<and> reason \<noteq> too_large \<and>
        out = SaveContentSkip None now vol p sz mt status reason d)"



section \<open>Progress counts\<close>

lemma four_way:
  assumes "list_all (\<lambda>r. of_bool (A r) + of_bool (B r) + of_bool (C r) + of_bool (D r) = (1::int)) xs"
  shows "int (length xs) = int (length (filter A xs)) + int (length (filter B xs)) +
    int (length (filter C xs)) + int (length (filter D xs))"
  using assms
proof (induction xs)
  case (Cons a xs)
  then show ?case by (cases "A a"; cases "B a"; cases "C a"; cases "D a") simp_all
qed simp

lemma progress_one:
  assumes "content_ok d" "eligible pg exts r"
  shows "of_bool (has_state d (\<lambda>c r. cs_status c = ContentDone) r) +
    of_bool (has_state d (\<lambda>c r. cs_status c = ContentSkipped \<and> \<not> fits_now m c r) r) +
    of_bool (has_state d (\<lambda>c r. cs_status c = ContentFailed) r) +
    of_bool (is_pending pg exts m d r) = (1::int)"
proof (cases "content_at d (file_key r)")
  case None
  then show ?thesis using assms(2) by (simp add: has_state_def is_pending_def)
next
  case (Some c)
  then have "cs_status c \<in> {ContentDone, ContentSkipped, ContentFailed}"
    using content_okD [OF assms(1), of "file_key r"] by (simp add: status_ok_def)
  then show ?thesis
    using Some assms(2)
    by (auto simp: has_state_def is_pending_def current_def ContentDone_def ContentSkipped_def ContentFailed_def)
qed

lemma volume_progress_pending:
  assumes "content_ok d"
  shows "cp_pending (volume_progress pg exts m d vol) =
    int (length (filter (\<lambda>r. fVolume r = vol \<and> is_pending pg exts m d r) (files d)))"
proof -
  let ?fs = "filter (\<lambda>r. fVolume r = vol \<and> eligible pg exts r) (files d)"
  have "list_all (\<lambda>r. of_bool (has_state d (\<lambda>c r. cs_status c = ContentDone) r) +
    of_bool (has_state d (\<lambda>c r. cs_status c = ContentSkipped \<and> \<not> fits_now m c r) r) +
    of_bool (has_state d (\<lambda>c r. cs_status c = ContentFailed) r) +
    of_bool (is_pending pg exts m d r) = (1::int)) ?fs"
    using progress_one [OF assms] by (simp add: list_all_iff)
  moreover have "filter (is_pending pg exts m d) ?fs = filter (\<lambda>r. fVolume r = vol \<and> is_pending pg exts m d r) (files d)"
    by (auto simp: is_pending_def intro: filter_cong)
  ultimately show ?thesis using four_way by (fastforce simp: volume_progress_def Let_def)
qed

definition example_volume :: volume_row where
  "example_volume = \<lparr>v_id = 1, v_name = ''nas'', v_host = ''nas.local'', v_share = ''media'', v_username = ''u'',
     v_password_enc = ''x'', v_enabled = True, v_created = 1, v_updated = 1, v_test_ok = None, v_test_at = None,
     v_test_error = None, v_content_index = True\<rparr>"

definition example_db :: db where
  "example_db = empty_db\<lparr>volumes := [example_volume], files := [mk_row 0 (example_file ''a'' 1)], next_volume := 2\<rparr>"

lemma example_db_ok: "index_ok pg example_db"
proof -
  have "db_ok example_db"
    by (simp add: db_ok_def example_db_def empty_db_def tbl_wf_def example_volume_def)
  moreover have "content_ok example_db"
    using empty_index_ok [of pg] content_ok_cong [of example_db empty_db] by (simp add: index_ok_def example_db_def)
  ultimately show ?thesis
    by (simp add: index_ok_def) (simp add: example_db_def empty_db_def seen_ok_def names_ok_def)
qed




lemma example_db_has_a: "file_at example_db (1, ''a'') \<noteq> None"
  by (simp add: example_db_def file_at_def tbl_get_def example_file_def file_key_def mk_row_def)


end
