(* ===== verification/Crawl.thy ===== *)
theory Crawl
  imports IndexSafety SmbWalk GoNumbers
begin

text \<open>
  \<open>internal/httpapi/crawl.go\<close> and \<open>watch.go\<close>: a crawl reconciles the index of one volume with
  what a walk of its share finds; between crawls, change events are applied one by one.

  The crawl relies on the walk through the contract \<open>walker\<close>: a walk that reports no error handed
  every entry of the share to the callback exactly once. The contract is interpreted on the worker
  pool of \<open>SmbWalk\<close>. \<open>walk_out\<close> is the order in which the callbacks reached the channel.
\<close>

section \<open>Crawl\<close>

definition crawlWriteBatch :: nat where
  "crawlWriteBatch = 2000"

definition entry_file :: "int \<Rightarrow> entry \<Rightarrow> File" where
  "entry_file vol e =
     (let (dir, ext) = SplitPath (e_path e)
      in \<lparr>fVolume = vol, fPath = e_path e, fName = e_name e, fDir = dir, fExt = ext, fIsDir = e_dir e,
          fSize = e_size e, fModTime = e_mod e\<rparr>)"

record crawl_faults =
  cf_start :: fault
  cf_stream :: "nat \<Rightarrow> fault"
  cf_sweep :: fault
  cf_finish :: fault

definition no_faults :: crawl_faults where
  "no_faults = \<lparr>cf_start = None, cf_stream = (\<lambda>_. None), cf_sweep = None, cf_finish = None\<rparr>"

definition err_text :: "index_err \<Rightarrow> string" where
  "err_text e = (case e of ErrMsg m \<Rightarrow> m | ErrNotFound m \<Rightarrow> m | ErrInvalidSettings m \<Rightarrow> m
     | ErrVolumeNameTaken \<Rightarrow> ''a volume with that name already exists''
     | ErrFileGone \<Rightarrow> ''file no longer indexed'' | DbErr _ \<Rightarrow> ''database error'')"

text \<open>
  \<open>connected\<close>: the volume has a runtime. \<open>walk_err\<close>: what \<open>Walk\<close> returned. The times are those of
  the start and the end of the run.
\<close>

definition Crawl ::
  "crawl_faults \<Rightarrow> int \<Rightarrow> int \<Rightarrow> int \<Rightarrow> string \<Rightarrow> bool \<Rightarrow> entry list \<Rightarrow> index_err option \<Rightarrow> db
    \<Rightarrow> index_err option \<times> db" where
  "Crawl flts t0 t1 vol trigger connected walk_out walk_err d =
     (if \<not> connected then (Some (ErrMsg (''volume '' @ FormatInt vol @ '' is not connected'')), d)
      else
        (case StartCrawlRun (cf_start flts) t0 vol trigger d of
           (Inl e, d1) \<Rightarrow> (Some e, d1)
         | (Inr runID, d1) \<Rightarrow>
             (let (written, writeErr, d2) =
                    StreamUpsert (cf_stream flts) (map (entry_file vol) walk_out) runID crawlWriteBatch d1;
                  bytes = sum_list (map e_size (filter (\<lambda>e. \<not> e_dir e) walk_out));
                  (filesRemoved, runErr, d3) =
                    (case writeErr of
                       Some e \<Rightarrow> (0, Some e, d2)
                     | None \<Rightarrow>
                         (case walk_err of
                            Some e \<Rightarrow> (0, Some e, d2)
                          | None \<Rightarrow>
                              (case Sweep (cf_sweep flts) vol runID d2 of
                                 (Inl e, d3) \<Rightarrow> (0, Some e, d3)
                               | (Inr n, d3) \<Rightarrow> (n, None, d3))));
                  res = \<lparr>res_error = map_option err_text runErr, res_files_seen = int written,
                         res_files_removed = filesRemoved, res_bytes = bytes, res_duration = t1 - t0\<rparr>
              in (runErr, snd (FinishCrawlRun (cf_finish flts) t1 runID res d3)))))"

lemma entry_file_simps [simp]:
  "fVolume (entry_file vol e) = vol" "fPath (entry_file vol e) = e_path e" "file_key (entry_file vol e) = (vol, e_path e)"
  by (simp_all add: entry_file_def file_key_def split: prod.split)

text \<open>Of a listing without duplicate paths, the last entry streamed for a key is the one with that path.\<close>

lemma last_listed:
  assumes "set out = set es" "distinct (map e_path es)"
  shows "last_for (vol, p) (map (entry_file vol) out) = map_option (entry_file vol) (find (\<lambda>e. e_path e = p) es)"
proof -
  have hit: "find (\<lambda>e. e_path e = p) es = Some e \<longleftrightarrow> e \<in> set es \<and> e_path e = p" for e
    using tbl_get_eq [of e_path es p e] assms(2) by (simp add: tbl_get_def tbl_wf_def)
  show ?thesis
  proof (cases "last_for (vol, p) (map (entry_file vol) out)")
    case None
    then have "(vol, p) \<notin> file_key ` set (map (entry_file vol) out)" by (simp add: last_for_None)
    then have "find (\<lambda>e. e_path e = p) es = None" by (auto simp: find_None_iff assms(1) image_iff)
    then show ?thesis using None by simp
  next
    case (Some f)
    then obtain e where "f = entry_file vol e" "e \<in> set out" "e_path e = p"
      using last_for_Some [OF Some] by auto
    then show ?thesis using Some hit [of e] by (simp add: assms(1))
  qed
qed

text \<open>The rows after a crawl in which nothing of the database failed: the entries streamed, and, if the walk
  failed somewhere, the rows that were there.\<close>

lemma Crawl_file_at:
  assumes ok: "db_ok d" "seen_ok d" and c: "Crawl no_faults t0 t1 vol trig True out walk_err d = (err, d')"
  shows "err = walk_err \<and>
    file_at d' k =
      (if fst k \<noteq> vol then file_at d k
       else case last_for k (map (entry_file vol) out) of
              Some f \<Rightarrow> Some (mk_row (next_run d) f)
            | None \<Rightarrow> if walk_err = None then None else file_at d k)"
proof -
  let ?run = "next_run d" and ?fs = "map (entry_file vol) out"
  obtain d1 where st: "StartCrawlRun None t0 vol trig d = (Inr ?run, d1)" "files d1 = files d"
    by (simp add: StartCrawlRun_def)
  obtain wr e d2 where s2: "StreamUpsert (\<lambda>_. None) ?fs ?run crawlWriteBatch d1 = (wr, e, d2)" by (metis prod_cases3)
  have ok1: "db_ok d1" using StartCrawlRun_ok [OF ok(1), of None t0 vol trig] st(1) by simp
  have same: "file_at d1 k = file_at d k" by (simp add: file_at_def st(2))
  have wf: "e = None" "db_ok d2" and f2: "file_at d2 k = (case last_for k ?fs of Some f \<Rightarrow> Some (mk_row ?run f) | None \<Rightarrow> file_at d k)"
    using write_batches_file_at [OF ok1, of 0 "batches crawlWriteBatch ?fs" ?run wr e d2] s2
    by (simp_all add: StreamUpsert_batches same split: option.split)
  have fin: "file_at (snd (FinishCrawlRun None t1 ?run res x)) k = file_at x k" for res x
    by (simp add: FinishCrawlRun_def file_at_def Let_def)
  have old: "last_seen_run r \<noteq> ?run \<and> fVolume r = fst k" if "file_at d k = Some r" for r
    using file_at_stored [OF ok(1) that] ok(2) by (auto simp: seen_ok_def list_all_iff file_key_def)
  have new: "fVolume f = vol \<and> fst k = vol" if "last_for k ?fs = Some f" for f
    using last_for_Some [OF that] by auto
  show ?thesis
  proof (cases walk_err)
    case None
    have "err = None \<and> (\<exists>res. d' = snd (FinishCrawlRun None t1 ?run res (snd (Sweep None vol ?run d2))))"
      using c st(1) s2 wf(1) None by (auto simp: Crawl_def no_faults_def Sweep_def Let_def)
    then show ?thesis using None old new
      by (auto simp: fin Sweep_file_at [OF wf(2)] f2 split: option.split)
  next
    case (Some x)
    have "err = Some x \<and> (\<exists>res. d' = snd (FinishCrawlRun None t1 ?run res d2))"
      using c st(1) s2 wf(1) Some by (auto simp: Crawl_def no_faults_def Let_def)
    then show ?thesis using Some new by (auto simp: fin f2 split: option.split)
  qed
qed

section \<open>What a crawl keeps\<close>

lemma write_batches_index_ok:
  assumes "index_ok pg d" "run < next_run d" "write_batches flts i bs run d = (w, e, d')"
  shows "index_ok pg d' \<and> next_run d' = next_run d"
  using assms
proof (induction bs arbitrary: i d w e d')
  case (Cons b bs)
  obtain res d1 where u: "UpsertBatch (flts i) b run d = (res, d1)" by fastforce
  obtain w1 e1 d2 where r: "write_batches flts (Suc i) bs run d1 = (w1, e1, d2)" by (metis prod_cases3)
  have "next_run d1 = next_run d"
    using u by (auto simp: UpsertBatch_def split: if_splits option.splits sum.splits)
  moreover have "index_ok pg d1" using upsert_index_ok [OF Cons.prems(1,2), of "flts i" b] u by simp
  moreover have "d' = d2" using Cons.prems(3) u r by (auto split: sum.splits)
  ultimately show ?case using Cons.IH [OF _ _ r] Cons.prems(2) by simp
qed simp

lemma Crawl_index_ok:
  assumes "index_ok pg d" "Crawl flts t0 t1 vol trig connected out walk_err d = (err, d')"
  shows "index_ok pg d'"
proof -
  obtain r1 d1 where s1: "StartCrawlRun (cf_start flts) t0 vol trig d = (r1, d1)" by fastforce
  have d1: "index_ok pg d1" using start_index_ok [OF assms(1), of "cf_start flts" t0 vol trig] s1 by simp
  show ?thesis
  proof (cases "connected \<and> (\<exists>run. r1 = Inr run)")
    case False
    then show ?thesis using assms s1 d1 by (cases r1) (auto simp: Crawl_def split: if_splits)
  next
    case True
    then obtain run where run: "r1 = Inr run" and c: "connected" by blast
    have lt: "run < next_run d1" using s1 run by (auto simp: StartCrawlRun_def split: option.splits)
    obtain w we d2 where s2: "StreamUpsert (cf_stream flts) (map (entry_file vol) out) run crawlWriteBatch d1 = (w, we, d2)"
      by (metis prod_cases3)
    have d2: "index_ok pg d2" using write_batches_index_ok [OF d1 lt] s2 by (simp add: StreamUpsert_batches)
    have sw: "index_ok pg (snd (Sweep f vol run d2))" for f
      by (rule index_step_ok [OF index_step.sweep d2])
    have "\<exists>res d3. d' = snd (FinishCrawlRun (cf_finish flts) t1 run res d3) \<and> index_ok pg d3"
      using assms(2) s1 run c s2 d2 sw [of "cf_sweep flts"]
      by (auto simp: Crawl_def Let_def split: option.splits sum.splits prod.splits)
    then show ?thesis using finish_index_ok by blast
  qed
qed

section \<open>The contract of the walk\<close>

locale walker =
  fixes walks :: "'share \<Rightarrow> entry list \<Rightarrow> bool \<Rightarrow> bool"
    and contents :: "'share \<Rightarrow> entry list"
  assumes clean_walk: "walks sh out True \<Longrightarrow> mset out = mset (contents sh)"
    and partial_walk: "walks sh out ok \<Longrightarrow> set out \<subseteq> set (contents sh)"
begin

text \<open>After a clean walk, the last entry streamed for a key is an entry of the share with that key.\<close>

lemma last_walked:
  assumes "walks sh out True" "distinct (map e_path (contents sh))"
  shows "last_for (vol, p) (map (entry_file vol) out) = map_option (entry_file vol) (find (\<lambda>e. e_path e = p) (contents sh))"
  using last_listed [OF _ assms(2)] clean_walk [OF assms(1)] by (metis set_mset_mset)

text \<open>A crawl after a clean walk, nothing failing and nothing else writing, makes the volume's rows
  the entries of the share.\<close>

lemma crawl_mirror:
  assumes ok: "db_ok d" "seen_ok d" and w: "walks sh out True" "distinct (map e_path (contents sh))"
  shows "case Crawl no_faults t0 t1 vol trig True out None d of (err, d') \<Rightarrow>
    err = None \<and>
    (\<forall>k. file_at d' k =
       (if fst k = vol
        then map_option (mk_row (next_run d) \<circ> entry_file vol) (find (\<lambda>e. e_path e = snd k) (contents sh))
        else file_at d k))"
proof -
  obtain err d' where c: "Crawl no_faults t0 t1 vol trig True out None d = (err, d')" by fastforce
  then show ?thesis
    using Crawl_file_at [OF ok c] last_walked [OF w, of vol] by (auto split: option.split)
qed

end

text \<open>The worker pool keeps the contract: a share is a reader, a depth bound and a root.\<close>

record share =
  sh_read :: read_dir
  sh_depth :: nat
  sh_root :: string

definition pool_walks :: "share \<Rightarrow> entry list \<Rightarrow> bool \<Rightarrow> bool" where
  "pool_walks sh out ok \<longleftrightarrow> fits (sh_read sh) (sh_depth sh) (sh_root sh) \<and>
     (\<exists>s. (walk_step (sh_read sh))\<^sup>*\<^sup>* (walk_init walkConcurrency (sh_root sh)) s \<and>
        \<not> (\<exists>s'. walk_step (sh_read sh) s s') \<and> w_out s = out \<and> ok = (w_errs s = []))"

definition share_contents :: "share \<Rightarrow> entry list" where
  "share_contents sh = tree_entries (sh_read sh) (sh_depth sh) (sh_root sh)"

lemma pool_walk_result:
  assumes "pool_walks sh out ok"
  shows "mset out = mset (share_contents sh)"
proof -
  obtain s where s: "fits (sh_read sh) (sh_depth sh) (sh_root sh)"
    "(walk_step (sh_read sh))\<^sup>*\<^sup>* (walk_init walkConcurrency (sh_root sh)) s"
    "\<not> (\<exists>s'. walk_step (sh_read sh) s s')" "w_out s = out"
    using assms by (auto simp: pool_walks_def)
  have inv: "accounted (sh_read sh) (sh_depth sh) (sh_root sh) s" "no_lost_wakeup s"
    using walk_reachable [OF s(1) _ s(2)] by (auto simp: walkConcurrency_def)
  show ?thesis using stuck_result [OF inv s(3)] s(4) by (simp add: share_contents_def)
qed

interpretation pool: walker pool_walks share_contents
proof
  fix sh out
  assume "pool_walks sh out True"
  then show "mset out = mset (share_contents sh)" by (rule pool_walk_result)
next
  fix sh out ok
  assume "pool_walks sh out ok"
  then show "set out \<subseteq> set (share_contents sh)" using pool_walk_result by (metis order_refl set_mset_mset)
qed

section \<open>Properties of a crawl\<close>

text \<open>A crawl whose walk lists every directory, with no failure and nothing else writing, leaves in
  the volume exactly the entries of the share, filed by \<open>SplitPath\<close> and stamped with the new run, and
  leaves every other volume alone.\<close>

theorem Crawl_mirrors_share:
  assumes "index_ok pg d" "pool_walks sh out True" "distinct (map e_path (share_contents sh))"
  shows "case Crawl no_faults t0 t1 vol trig True out None d of (err, d') \<Rightarrow>
    err = None \<and>
    (\<forall>k. file_at d' k =
       (if fst k = vol
        then map_option (mk_row (next_run d) \<circ> entry_file vol) (find (\<lambda>e. e_path e = snd k) (share_contents sh))
        else file_at d k))"
  using pool.crawl_mirror [OF _ _ assms(2,3)] assms(1) by (simp add: index_ok_def)

definition example_nas :: share where
  "example_nas = \<lparr>sh_read = (\<lambda>d. if d = dot then Inr [\<lparr>i_name = ''a'', i_dir = True, i_size = 0, i_mod = 1\<rparr>]
      else if d = ''a'' then Inr [\<lparr>i_name = ''b.txt'', i_dir = False, i_size = 5, i_mod = 2\<rparr>] else Inr []),
     sh_depth = 2, sh_root = dot\<rparr>"

theorem Crawl_mirrors_share_witness:
  "\<exists>out d'. Crawl no_faults 0 1 1 ''manual'' True out None example_db = (None, d') \<and>
     file_at example_db (1, ''a'') \<noteq> None \<and> map e_path (share_contents example_nas) = [''a'', ''a/b.txt''] \<and>
     map_option fIsDir (file_at d' (1, ''a'')) = Some True \<and>
     map_option fDir (file_at d' (1, ''a/b.txt'')) = Some ''a''"
proof -
  let ?rd = "sh_read example_nas"
  have fit: "fits ?rd 2 dot" by code_simp
  have n: "0 < walkConcurrency" by (simp add: walkConcurrency_def)
  obtain s where s: "(walk_step ?rd)\<^sup>*\<^sup>* (walk_init walkConcurrency dot) s" "\<not> (\<exists>s'. walk_step ?rd s s')"
    using walk_finishes walk_reachable [OF fit n rtranclp.rtrancl_refl] by metis
  have inv: "accounted ?rd 2 dot s" "no_lost_wakeup s" using walk_reachable [OF fit n s(1)] by auto
  have "tree_errs ?rd 2 dot = []" by code_simp
  then have "w_errs s = []" using stuck_result [OF inv s(2)] by simp
  then have w: "pool_walks example_nas (w_out s) True"
    using s fit by (auto simp: pool_walks_def) (auto simp: example_nas_def)
  have c: "share_contents example_nas = [\<lparr>e_path = ''a'', e_name = ''a'', e_dir = True, e_size = 0, e_mod = 1\<rparr>,
      \<lparr>e_path = ''a/b.txt'', e_name = ''b.txt'', e_dir = False, e_size = 5, e_mod = 2\<rparr>]" by code_simp
  then have "distinct (map e_path (share_contents example_nas))" by simp
  from Crawl_mirrors_share [OF example_db_ok w this, where ?t0.0 = 0 and ?t1.0 = 1 and vol = 1 and trig = "''manual''"]
  obtain d' where d': "Crawl no_faults 0 1 1 ''manual'' True (w_out s) None example_db = (None, d')"
    "file_at d' (1, ''a'') = Some (mk_row (next_run example_db) (entry_file 1 (hd (share_contents example_nas))))"
    "file_at d' (1, ''a/b.txt'') = Some (mk_row (next_run example_db) (entry_file 1 (last (share_contents example_nas))))"
    by (auto simp: c split: prod.splits)
  have x: "fIsDir (mk_row r (entry_file v e)) = e_dir e" "fDir (mk_row r (entry_file v e)) = fst (SplitPath (e_path e))" for r v e
    by (simp_all add: mk_row_def entry_file_def split: prod.split)
  have "SplitPath ''a/b.txt'' = (''a'', ''txt'')" by code_simp
  then show ?thesis using d' x c example_db_has_a by (intro exI [of _ "w_out s"] exI [of _ d']) simp
qed

lemma write_batches_keeps_keys:
  "db_ok d \<Longrightarrow> write_batches flts i bs run d = (w, e, d') \<Longrightarrow> file_at d k \<noteq> None \<Longrightarrow> file_at d' k \<noteq> None"
proof (induction bs arbitrary: i d w e d')
  case (Cons b bs)
  obtain res d1 where u: "UpsertBatch (flts i) b run d = (res, d1)" by fastforce
  obtain w1 e1 d2 where r: "write_batches flts (Suc i) bs run d1 = (w1, e1, d2)" by (metis prod_cases3)
  have d1: "db_ok d1" using UpsertBatch_ok [OF Cons.prems(1), of "flts i" b run] u by simp
  have "file_at d1 k \<noteq> None"
  proof (cases "flts i")
    case None
    then show ?thesis using UpsertBatch_file_at [OF Cons.prems(1), of b run k] u Cons.prems(3)
      by (auto split: option.splits)
  next
    case (Some x)
    then show ?thesis using u Cons.prems(3) by (auto simp: UpsertBatch_def split: if_splits)
  qed
  moreover have "d' = d2" using Cons.prems(2) u r by (auto split: sum.splits)
  ultimately show ?case using Cons.IH [OF d1 r] by blast
qed simp



end
