(* ===== verification/Runtime.thy ===== *)
theory Runtime
  imports ContentStore Crypto Crawl
begin

text \<open>
  The live half of the server (internal/httpapi/server.go): the runtime of each connected volume, its
  registration and tear-down, the start of a volume, and the guard against concurrent crawls. Runtimes
  are addresses into a list of all runtimes ever made, so that the tear-down of a replaced one can be
  observed; the goroutines that are under way (starts, crawls) are part of the state. Dialling the NAS is
  a parameter: the error of connecting, if any.
\<close>

section \<open>State\<close>

record conn =
  c_host :: string
  c_share :: string
  c_user :: string
  c_pass :: string

record runtime =
  rt_conn :: conn
  rt_cancelled :: bool
  rt_closed :: bool
  rt_crawling :: bool
  rt_watching :: bool
  rt_last_event :: "int option"
  rt_resyncs :: nat

record server =
  s_db :: db
  s_rts :: "runtime list"
  s_volumes :: "int \<Rightarrow> nat option"
  s_kick :: bool
  s_starting :: "int list"
  s_crawls :: "(nat \<times> string) list"

definition new_server :: "db \<Rightarrow> server" where
  "new_server d = \<lparr>s_db = d, s_rts = [], s_volumes = (\<lambda>_. None), s_kick = False, s_starting = [], s_crawls = []\<rparr>"

definition new_runtime :: "conn \<Rightarrow> runtime" where
  "new_runtime c = \<lparr>rt_conn = c, rt_cancelled = False, rt_closed = False, rt_crawling = False, rt_watching = False,
     rt_last_event = None, rt_resyncs = 0\<rparr>"

definition upd_rt :: "nat \<Rightarrow> (runtime \<Rightarrow> runtime) \<Rightarrow> server \<Rightarrow> server" where
  "upd_rt i f s = s\<lparr>s_rts := (s_rts s)[i := f (s_rts s ! i)]\<rparr>"

text \<open>The channel that wakes the indexer holds one token; a second kick is dropped.\<close>

definition kickContent :: "server \<Rightarrow> server" where
  "kickContent s = s\<lparr>s_kick := True\<rparr>"

definition setWatchConnected :: "bool \<Rightarrow> runtime \<Rightarrow> runtime" where
  "setWatchConnected b rt = rt\<lparr>rt_watching := b\<rparr>"

definition recordWatchEvent :: "int \<Rightarrow> runtime \<Rightarrow> runtime" where
  "recordWatchEvent now rt = rt\<lparr>rt_last_event := Some now\<rparr>"

definition recordResync :: "runtime \<Rightarrow> runtime" where
  "recordResync rt = rt\<lparr>rt_resyncs := rt_resyncs rt + 1\<rparr>"

definition watchHealth :: "runtime \<Rightarrow> bool \<times> int option \<times> nat" where
  "watchHealth rt = (rt_watching rt, rt_last_event rt, rt_resyncs rt)"

section \<open>Registration\<close>

definition volumeRuntime :: "int \<Rightarrow> server \<Rightarrow> nat option" where
  "volumeRuntime vol s = s_volumes s vol"

definition tear_down :: "nat \<Rightarrow> server \<Rightarrow> server" where
  "tear_down i s = upd_rt i (\<lambda>rt. rt\<lparr>rt_cancelled := True, rt_closed := True\<rparr>) s"

definition registerVolumeRuntime :: "int \<Rightarrow> conn \<Rightarrow> server \<Rightarrow> server" where
  "registerVolumeRuntime vol c s =
     (let old = s_volumes s vol;
          s = s\<lparr>s_rts := s_rts s @ [new_runtime c], s_volumes := (s_volumes s)(vol := Some (length (s_rts s)))\<rparr>
      in case old of None \<Rightarrow> s | Some i \<Rightarrow> tear_down i s)"

definition stopVolume :: "int \<Rightarrow> server \<Rightarrow> server" where
  "stopVolume vol s =
     (case s_volumes s vol of
        None \<Rightarrow> s
      | Some i \<Rightarrow> tear_down i (s\<lparr>s_volumes := (s_volumes s)(vol := None)\<rparr>))"

section \<open>Starting a volume\<close>

definition decryptPassword :: "opener \<Rightarrow> string \<Rightarrow> string \<Rightarrow> string + string" where
  "decryptPassword opn key enc = (case Decrypt opn key enc of Inl _ \<Rightarrow> Inl ''decrypt'' | Inr p \<Rightarrow> Inr p)"

text \<open>Reading what is needed to connect\<close>

definition start_load :: "opener \<Rightarrow> string \<Rightarrow> fault \<Rightarrow> int \<Rightarrow> server \<Rightarrow> string + conn" where
  "start_load opn key flt vol s =
     (case GetVolumeSecret flt vol (s_db s) of
        Inl _ \<Rightarrow> Inl ''load volume secret''
      | Inr sec \<Rightarrow>
          (case decryptPassword opn key (vs_password_enc sec) of
             Inl e \<Rightarrow> Inl e
           | Inr p \<Rightarrow> Inr \<lparr>c_host = vs_host sec, c_share = vs_share sec, c_user = vs_username sec, c_pass = p\<rparr>))"

text \<open>What follows the answer of the dial\<close>

definition start_finish :: "int \<Rightarrow> conn \<Rightarrow> string option \<Rightarrow> server \<Rightarrow> string option \<times> server" where
  "start_finish vol c dialErr s =
     (case dialErr of Some e \<Rightarrow> (Some e, s) | None \<Rightarrow> (None, registerVolumeRuntime vol c s))"

text \<open>The second result lists the connections that were dialled\<close>

definition StartVolume :: "opener \<Rightarrow> string \<Rightarrow> (conn \<Rightarrow> string option) \<Rightarrow> fault \<Rightarrow> int \<Rightarrow> server
    \<Rightarrow> string option \<times> conn list \<times> server" where
  "StartVolume opn key dial flt vol s =
     (case start_load opn key flt vol s of
        Inl e \<Rightarrow> (Some e, [], s)
      | Inr c \<Rightarrow> (case start_finish vol c (dial c) s of (err, s') \<Rightarrow> (err, [c], s')))"

text \<open>The goroutine of \<open>startVolumeAsync\<close>: a failed start is recorded as a test result\<close>

definition startVolumeAsync :: "int \<Rightarrow> server \<Rightarrow> server" where
  "startVolumeAsync vol s = s\<lparr>s_starting := s_starting s @ [vol]\<rparr>"

definition run_start :: "opener \<Rightarrow> string \<Rightarrow> (conn \<Rightarrow> string option) \<Rightarrow> fault \<Rightarrow> fault \<Rightarrow> int \<Rightarrow> int \<Rightarrow> server
    \<Rightarrow> conn list \<times> server" where
  "run_start opn key dial flt flt2 now vol s =
     (case StartVolume opn key dial flt vol s of
        (None, cs, s') \<Rightarrow> (cs, s')
      | (Some e, cs, s') \<Rightarrow> (cs, s'\<lparr>s_db := snd (SetVolumeTestResult flt2 now vol False e (s_db s'))\<rparr>))"

text \<open>\<open>startVolumeWithRetry\<close> of the main program: the answers are those of the attempts\<close>

fun startVolumeWithRetry :: "opener \<Rightarrow> string \<Rightarrow> (nat \<Rightarrow> conn \<Rightarrow> string option) \<Rightarrow> (nat \<Rightarrow> fault) \<Rightarrow> nat \<Rightarrow> nat \<Rightarrow> int \<Rightarrow> server
    \<Rightarrow> string option \<times> conn list \<times> server" where
  "startVolumeWithRetry opn key dial flts i 0 vol s = (None, [], s)"
| "startVolumeWithRetry opn key dial flts i (Suc n) vol s =
     (case StartVolume opn key (dial i) (flts i) vol s of
        (None, cs, s') \<Rightarrow> (None, cs, s')
      | (Some e, cs, s') \<Rightarrow>
          (if n = 0 then (Some e, cs, s')
           else case startVolumeWithRetry opn key dial flts (Suc i) n vol s' of (err, cs', s'') \<Rightarrow> (err, cs @ cs', s'')))"

section \<open>Crawls\<close>

definition triggerManual :: string where "triggerManual = ''manual''"
definition triggerStartup :: string where "triggerStartup = ''startup''"
definition triggerPeriodic :: string where "triggerPeriodic = ''periodic''"
definition triggerResync :: string where "triggerResync = ''resync''"

datatype trigger_err = NotConnected | CrawlInProgress

definition begin_crawl :: "nat \<Rightarrow> string \<Rightarrow> server \<Rightarrow> server" where
  "begin_crawl i trig s = (upd_rt i (\<lambda>rt. rt\<lparr>rt_crawling := True\<rparr>) s)\<lparr>s_crawls := s_crawls s @ [(i, trig)]\<rparr>"

text \<open>The compare-and-swap and the goroutine it guards\<close>

definition triggerCrawl :: "int \<Rightarrow> string \<Rightarrow> server \<Rightarrow> trigger_err option \<times> server" where
  "triggerCrawl vol trig s =
     (case volumeRuntime vol s of
        None \<Rightarrow> (Some NotConnected, s)
      | Some i \<Rightarrow> (if rt_crawling (s_rts s ! i) then (Some CrawlInProgress, s) else (None, begin_crawl i trig s)))"

text \<open>The initial crawl sets the flag without looking at it.\<close>

definition initial_crawl :: "nat \<Rightarrow> server \<Rightarrow> server" where
  "initial_crawl i s = begin_crawl i triggerStartup s"

definition end_crawl :: "nat \<Rightarrow> string \<Rightarrow> server \<Rightarrow> server" where
  "end_crawl i trig s =
     upd_rt i (\<lambda>rt. rt\<lparr>rt_crawling := False\<rparr>) (s\<lparr>s_crawls := remove1 (i, trig) (s_crawls s)\<rparr>)"

definition resync :: "int \<Rightarrow> string \<Rightarrow> server \<Rightarrow> server" where
  "resync vol trig s = snd (triggerCrawl vol trig s)"

section \<open>Every session has one owner\<close>

definition is_open :: "runtime \<Rightarrow> bool" where
  "is_open rt \<longleftrightarrow> \<not> rt_cancelled rt \<and> \<not> rt_closed rt"

definition is_down :: "runtime \<Rightarrow> bool" where
  "is_down rt \<longleftrightarrow> rt_cancelled rt \<and> rt_closed rt"

definition owned :: "server \<Rightarrow> bool" where
  "owned s \<longleftrightarrow>
     (\<forall>v i. s_volumes s v = Some i \<longrightarrow> i < length (s_rts s) \<and> is_open (s_rts s ! i)) \<and>
     (\<forall>v w i. s_volumes s v = Some i \<longrightarrow> s_volumes s w = Some i \<longrightarrow> v = w) \<and>
     (\<forall>i < length (s_rts s). (\<exists>v. s_volumes s v = Some i) \<or> is_down (s_rts s ! i))"

lemma ownedD:
  "owned s \<Longrightarrow> s_volumes s v = Some i \<Longrightarrow> i < length (s_rts s) \<and> is_open (s_rts s ! i)"
  "owned s \<Longrightarrow> s_volumes s v = Some i \<Longrightarrow> s_volumes s w = Some i \<Longrightarrow> v = w"
  "owned s \<Longrightarrow> i < length (s_rts s) \<Longrightarrow> (\<exists>v. s_volumes s v = Some i) \<or> is_down (s_rts s ! i)"
  by (auto simp: owned_def)

lemma upd_rt_simps [simp]:
  "length (s_rts (upd_rt i f s)) = length (s_rts s)" "s_volumes (upd_rt i f s) = s_volumes s"
  "s_db (upd_rt i f s) = s_db s" "s_crawls (upd_rt i f s) = s_crawls s" "s_starting (upd_rt i f s) = s_starting s"
  by (simp_all add: upd_rt_def)

lemma upd_rt_nth: "j < length (s_rts s) \<Longrightarrow> s_rts (upd_rt i f s) ! j = (if j = i then f (s_rts s ! i) else s_rts s ! j)"
  by (simp add: upd_rt_def nth_list_update)

lemma tear_down_nth:
  "j < length (s_rts s) \<Longrightarrow> s_rts (tear_down i s) ! j =
     (if j = i then (s_rts s ! i)\<lparr>rt_cancelled := True, rt_closed := True\<rparr> else s_rts s ! j)"
  by (simp add: tear_down_def upd_rt_nth)

lemma owned_new: "owned (new_server d)"
  by (simp add: owned_def new_server_def)

text \<open>Fields other than the two tear-down flags do not matter.\<close>

lemma owned_upd:
  assumes "owned s" "\<And>rt. rt_cancelled (f rt) = rt_cancelled rt \<and> rt_closed (f rt) = rt_closed rt"
  shows "owned (upd_rt i f s)"
proof -
  have "j < length (s_rts s) \<Longrightarrow> is_open (s_rts (upd_rt i f s) ! j) = is_open (s_rts s ! j) \<and>
      is_down (s_rts (upd_rt i f s) ! j) = is_down (s_rts s ! j)" for j
    using assms(2) by (simp add: upd_rt_nth is_open_def is_down_def)
  then show ?thesis using assms(1) unfolding owned_def by (metis upd_rt_simps(1,2))
qed

lemma owned_fields [simp]:
  "owned (s\<lparr>s_crawls := x\<rparr>) = owned s" "owned (s\<lparr>s_db := d\<rparr>) = owned s" "owned (s\<lparr>s_kick := k\<rparr>) = owned s"
  "owned (s\<lparr>s_starting := vs\<rparr>) = owned s"
  by (simp_all add: owned_def)

lemma owned_stop:
  assumes "owned s"
  shows "owned (stopVolume vol s)"
proof (cases "s_volumes s vol")
  case (Some i)
  let ?s = "s\<lparr>s_volumes := (s_volumes s)(vol := None)\<rparr>"
  have v: "s_volumes (stopVolume vol s) = (s_volumes s)(vol := None)" "length (s_rts (stopVolume vol s)) = length (s_rts s)"
    using Some by (simp_all add: stopVolume_def tear_down_def)
  have n: "j < length (s_rts s) \<Longrightarrow> s_rts (stopVolume vol s) ! j =
      (if j = i then (s_rts s ! i)\<lparr>rt_cancelled := True, rt_closed := True\<rparr> else s_rts s ! j)" for j
    using Some tear_down_nth [of j ?s i] by (simp add: stopVolume_def)
  show ?thesis unfolding owned_def v
  proof (intro conjI allI impI)
    fix w j assume "((s_volumes s)(vol := None)) w = Some j"
    then have w: "s_volumes s w = Some j" "w \<noteq> vol" by (auto split: if_splits)
    then have "j \<noteq> i" using ownedD(2) [OF assms w(1)] Some by blast
    then show "j < length (s_rts s)" "is_open (s_rts (stopVolume vol s) ! j)" using ownedD(1) [OF assms w(1)] n by auto
  next
    fix x y j assume "((s_volumes s)(vol := None)) x = Some j" "((s_volumes s)(vol := None)) y = Some j"
    then show "x = y" using ownedD(2) [OF assms] by (auto split: if_splits)
  next
    fix j assume j: "j < length (s_rts s)"
    show "(\<exists>w. ((s_volumes s)(vol := None)) w = Some j) \<or> is_down (s_rts (stopVolume vol s) ! j)"
    proof (cases "j = i")
      case False
      with ownedD(3) [OF assms j] n [OF j] Some show ?thesis by (metis fun_upd_other option.inject)
    qed (use n [OF j] in \<open>simp add: is_down_def\<close>)
  qed
qed (simp add: stopVolume_def assms)

text \<open>Registering is stopping the volume's old runtime, if any, and adding a fresh one.\<close>

lemma register_eq:
  assumes "owned s"
  shows "registerVolumeRuntime vol c s =
    (let s' = stopVolume vol s in
     s'\<lparr>s_rts := s_rts s' @ [new_runtime c], s_volumes := (s_volumes s)(vol := Some (length (s_rts s)))\<rparr>)"
proof (cases "s_volumes s vol")
  case (Some i)
  then have "i < length (s_rts s)" using ownedD(1) [OF assms] by blast
  then show ?thesis using Some
    by (simp add: registerVolumeRuntime_def stopVolume_def tear_down_def upd_rt_def Let_def list_update_append nth_append)
qed (simp add: registerVolumeRuntime_def stopVolume_def)

lemma owned_register:
  assumes "owned s"
  shows "owned (registerVolumeRuntime vol c s)"
proof -
  let ?s = "stopVolume vol s"
  have o: "owned ?s" by (rule owned_stop [OF assms])
  have l: "length (s_rts ?s) = length (s_rts s)" by (simp add: stopVolume_def tear_down_def split: option.split)
  have v: "s_volumes s w = s_volumes ?s w" if "w \<noteq> vol" for w
    using that by (simp add: stopVolume_def tear_down_def split: option.split)
  have vol: "s_volumes ?s vol = None" by (simp add: stopVolume_def tear_down_def split: option.split)
  let ?V = "(s_volumes s)(vol := Some (length (s_rts s)))" and ?R = "s_rts ?s @ [new_runtime c]"
  have r: "s_rts (registerVolumeRuntime vol c s) = ?R" "s_volumes (registerVolumeRuntime vol c s) = ?V"
    by (simp_all add: register_eq [OF assms] Let_def)
  have old: "?V w = Some i \<Longrightarrow> w \<noteq> vol \<Longrightarrow> s_volumes ?s w = Some i" for w i using v by simp
  show ?thesis unfolding owned_def r
  proof (intro conjI allI impI)
    fix w i assume w: "?V w = Some i"
    show "i < length ?R" "is_open (?R ! i)"
      using w old [OF w] ownedD(1) [OF o, of w i] l
      by (cases "w = vol"; auto simp: nth_append is_open_def new_runtime_def)+
  next
    fix x y i assume xy: "?V x = Some i" "?V y = Some i"
    show "x = y"
      using old [OF xy(1)] old [OF xy(2)] ownedD(2) [OF o, of x i y] ownedD(1) [OF o, of x i] ownedD(1) [OF o, of y i] xy l
      by (cases "x = vol"; cases "y = vol") auto
  next
    fix i assume "i < length ?R"
    then consider "i = length (s_rts s)" | "i < length (s_rts ?s)" using l by fastforce
    then show "(\<exists>w. ?V w = Some i) \<or> is_down (?R ! i)"
    proof cases
      case 2
      have h: "\<exists>w. ?V w = Some i" if "s_volumes ?s w = Some i" for w
        using that v [of w] vol by (intro exI [of _ w]) auto
      have "?R ! i = s_rts ?s ! i" using 2 by (simp add: nth_append)
      then show ?thesis using ownedD(3) [OF o 2] h by metis
    qed auto
  qed
qed

section \<open>Steps of the live server\<close>

inductive runtime_step :: "server \<Rightarrow> server \<Rightarrow> bool" where
  stop: "runtime_step s (stopVolume vol s)"
| finish: "runtime_step s (snd (start_finish vol c err s))"
| trigger: "runtime_step s (snd (triggerCrawl vol trig s))"
| initial: "runtime_step s (initial_crawl i s)"
| crawl_done: "runtime_step s (end_crawl i trig s)"
| watch: "runtime_step s (upd_rt i (setWatchConnected b) s)"
| event: "runtime_step s (upd_rt i (recordWatchEvent now) s)"
| resynced: "runtime_step s (upd_rt i recordResync s)"
| store: "runtime_step s (s\<lparr>s_db := d, s_kick := k, s_starting := vs\<rparr>)"

inductive_cases runtime_stepE: "runtime_step s s'"

lemma owned_begin: "owned s \<Longrightarrow> owned (begin_crawl i trig s)"
  by (simp add: begin_crawl_def owned_upd)

lemma owned_step: "runtime_step s s' \<Longrightarrow> owned s \<Longrightarrow> owned s'"
proof (induction rule: runtime_step.induct)
  case (finish s vol c err)
  then show ?case by (simp add: start_finish_def owned_register split: option.split)
next
  case (trigger s vol trig)
  then show ?case by (simp add: triggerCrawl_def owned_begin split: option.split)
next
  case (crawl_done s i trig)
  then show ?case by (simp add: end_crawl_def owned_upd)
qed (simp_all add: owned_stop owned_begin initial_crawl_def owned_upd setWatchConnected_def recordWatchEvent_def recordResync_def)

text \<open>C17: in every state the live server can reach, each connected volume has a runtime of its own whose
  session is open, and every other runtime ever made has been cancelled and its session closed.\<close>

theorem sessions_owned:
  assumes "runtime_step\<^sup>*\<^sup>* (new_server d) s"
  shows "(s_volumes s v = Some i \<longrightarrow> i < length (s_rts s) \<and> \<not> rt_cancelled (s_rts s ! i) \<and> \<not> rt_closed (s_rts s ! i) \<and>
      (s_volumes s w = Some i \<longrightarrow> v = w)) \<and>
    (i < length (s_rts s) \<and> (\<forall>x. s_volumes s x \<noteq> Some i) \<longrightarrow> rt_cancelled (s_rts s ! i) \<and> rt_closed (s_rts s ! i))"
proof -
  have "owned s" using assms by (induction rule: rtranclp_induct) (auto simp: owned_new owned_step)
  then show ?thesis using ownedD [of s] unfolding is_open_def is_down_def by meson
qed

definition example_conn :: conn where
  "example_conn = \<lparr>c_host = ''nas'', c_share = ''data'', c_user = ''me'', c_pass = ''secret''\<rparr>"

theorem sessions_owned_witness:
  "(let s1 = snd (start_finish 1 example_conn None (new_server empty_db));
        s2 = snd (start_finish 1 (example_conn\<lparr>c_host := ''nas2''\<rparr>) None s1)
    in s_volumes s2 1 = Some 1 \<and> rt_cancelled (s_rts s2 ! 0) \<and> rt_closed (s_rts s2 ! 0) \<and> \<not> rt_closed (s_rts s2 ! 1))"
proof -
  let ?s1 = "snd (start_finish 1 example_conn None (new_server empty_db))"
  let ?s2 = "snd (start_finish 1 (example_conn\<lparr>c_host := ''nas2''\<rparr>) None ?s1)"
  have r: "runtime_step\<^sup>*\<^sup>* (new_server empty_db) ?s2"
    by (rule rtranclp.rtrancl_into_rtrancl [OF r_into_rtranclp]) (rule runtime_step.finish)+
  have v: "s_volumes ?s2 1 = Some 1" "length (s_rts ?s2) = 2" "\<forall>x. s_volumes ?s2 x \<noteq> Some 0"
    by (simp_all add: start_finish_def registerVolumeRuntime_def new_server_def Let_def tear_down_def)
  show ?thesis using sessions_owned [OF r, of 1 1] sessions_owned [OF r, of 1 0] v by (simp add: Let_def)
qed

section \<open>The crawl guard\<close>

definition crawls_of :: "nat \<Rightarrow> server \<Rightarrow> nat" where
  "crawls_of i s = length (filter (\<lambda>(j, t). j = i) (s_crawls s))"

text \<open>At most one crawl per runtime, and the flag says whether there is one\<close>

definition guarded :: "server \<Rightarrow> bool" where
  "guarded s \<longleftrightarrow> (\<forall>i < length (s_rts s). crawls_of i s \<le> 1 \<and> (crawls_of i s = 1 \<longleftrightarrow> rt_crawling (s_rts s ! i)))"

fun trigger_trace :: "(int \<times> string + nat \<times> string) list \<Rightarrow> server \<Rightarrow> server" where
  "trigger_trace [] s = s"
| "trigger_trace (Inl (vol, trig) # es) s = trigger_trace es (resync vol trig s)"
| "trigger_trace (Inr (i, trig) # es) s =
     trigger_trace es (if (i, trig) \<in> set (s_crawls s) then end_crawl i trig s else s)"

lemma guarded_begin:
  assumes "guarded s" "\<not> rt_crawling (s_rts s ! i)" "i < length (s_rts s)"
  shows "guarded (begin_crawl i trig s)"
proof -
  have "crawls_of i s \<le> 1" "crawls_of i s \<noteq> 1" using assms by (simp_all add: guarded_def)
  then have "crawls_of i s = 0" by simp
  then show ?thesis using assms
    by (auto simp: guarded_def begin_crawl_def crawls_of_def upd_rt_def nth_list_update)
qed

lemma length_filter_remove1: "x \<in> set xs \<Longrightarrow> length (filter P (remove1 x xs)) = (if P x then length (filter P xs) - 1 else length (filter P xs))"
proof (induction xs)
  case (Cons y ys)
  have "P x \<Longrightarrow> x \<in> set ys \<Longrightarrow> 0 < length (filter P ys)" by (auto simp: filter_empty_conv)
  then show ?case using Cons by auto
qed simp

lemma guarded_end:
  assumes "guarded s" "(i, trig) \<in> set (s_crawls s)"
  shows "guarded (end_crawl i trig s)"
proof -
  have "0 < crawls_of i s" unfolding crawls_of_def using assms(2) by (force simp: filter_empty_conv)
  then show ?thesis using assms
    by (auto simp: guarded_def end_crawl_def crawls_of_def upd_rt_def nth_list_update length_filter_remove1)
qed

lemma trigger_guarded:
  assumes "guarded s" "owned s"
  shows "guarded (resync vol trig s) \<and> owned (resync vol trig s)"
proof (cases "s_volumes s vol")
  case (Some i)
  then have "i < length (s_rts s)" using ownedD(1) [OF assms(2)] by blast
  then show ?thesis using Some assms guarded_begin [OF assms(1)] owned_begin [OF assms(2)]
    by (simp add: resync_def triggerCrawl_def volumeRuntime_def)
qed (simp add: assms resync_def triggerCrawl_def volumeRuntime_def)

lemma owned_end: "owned s \<Longrightarrow> owned (end_crawl i trig s)"
  by (rule owned_step [OF runtime_step.crawl_done])

lemma trace_guarded: "guarded s \<Longrightarrow> owned s \<Longrightarrow> guarded (trigger_trace es s) \<and> owned (trigger_trace es s)"
proof (induction es s rule: trigger_trace.induct)
  case (3 i trig es s)
  then show ?case using guarded_end [of s i trig] owned_end [of s i trig] by simp
qed (use trigger_guarded in simp_all)

text \<open>From a state with no crawl under way, whatever manual, periodic and resync triggers and crawl ends
  follow, at most one crawl runs per runtime and the flag says whether one does, so a further trigger is
  refused exactly while one runs.\<close>

theorem one_crawl_at_a_time:
  assumes "owned s" "s_crawls s = []" "list_all (\<lambda>rt. \<not> rt_crawling rt) (s_rts s)"
    and "s' = trigger_trace es s" "s_volumes s' vol = Some i"
  shows "crawls_of i s' \<le> 1 \<and> (fst (triggerCrawl vol trig s') = Some CrawlInProgress \<longleftrightarrow> crawls_of i s' = 1)"
proof -
  have "guarded s" using assms(2,3) by (simp add: guarded_def crawls_of_def list_all_length)
  then have "guarded s'" "owned s'" using trace_guarded assms(1,4) by blast+
  then show ?thesis using ownedD(1) [of s' vol i] assms(5)
    by (auto simp: guarded_def triggerCrawl_def volumeRuntime_def)
qed

theorem one_crawl_at_a_time_witness:
  "(let s = snd (start_finish 1 example_conn None (new_server empty_db));
        s' = trigger_trace [Inl (1, triggerManual), Inl (1, triggerPeriodic), Inr (0, triggerManual), Inl (1, triggerResync)] s
    in crawls_of 0 s' = 1 \<and> fst (triggerCrawl 1 triggerManual s') = Some CrawlInProgress)"
proof -
  let ?s = "snd (start_finish 1 example_conn None (new_server empty_db))"
  let ?es = "[Inl (1, triggerManual), Inl (1, triggerPeriodic), Inr (0, triggerManual), Inl (1, triggerResync)]"
  have o: "owned ?s" by (rule owned_step [OF runtime_step.finish owned_new])
  have s: "s_crawls ?s = []" "list_all (\<lambda>rt. \<not> rt_crawling rt) (s_rts ?s)" "s_volumes (trigger_trace ?es ?s) 1 = Some 0"
    "crawls_of 0 (trigger_trace ?es ?s) = 1"
    by code_simp+
  show ?thesis using one_crawl_at_a_time [OF o s(1,2) refl s(3), of triggerManual] s(4) by (simp add: Let_def)
qed

text \<open>The initial crawl is outside that guard. A reindex accepted before it begins runs beside it, and
  when the first of the two ends the flag is cleared, so a third crawl is accepted while the second runs.\<close>

theorem initial_crawl_overlaps:
  "(let s = snd (start_finish 1 example_conn None (new_server empty_db));
        (e1, s1) = triggerCrawl 1 triggerManual s;
        s2 = initial_crawl 0 s1;
        s3 = end_crawl 0 triggerManual s2;
        (e2, s4) = triggerCrawl 1 triggerManual s3
    in e1 = None \<and> crawls_of 0 s2 = 2 \<and> e2 = None \<and> crawls_of 0 s4 = 2)"
  by code_simp

end
