(* ===== verification/VolumesApi.thy ===== *)
theory VolumesApi
  imports Runtime
begin

text \<open>
  The volume handlers (internal/httpapi/volumes.go). A response is \<open>Inl\<close> a status and message written
  by \<open>writeError\<close>, or \<open>Inr\<close> a status and the value that is encoded as JSON. A request body is what
  decoding it gives: encoding/json and the size limit decide between the three cases. Each handler takes
  the faults of its database calls in order, the random bytes for a nonce, and the time.
\<close>

section \<open>Requests and responses\<close>

type_synonym 'a resp = "(nat \<times> string) + (nat \<times> 'a)"

datatype 'a body = TooLarge | BadJSON | Decoded 'a

definition decodeJSON :: "'a body \<Rightarrow> (nat \<times> string) + 'a" where
  "decodeJSON b =
     (case b of
        TooLarge \<Rightarrow> Inl (413, ''request body too large'')
      | BadJSON \<Rightarrow> Inl (400, ''invalid JSON body'')
      | Decoded v \<Rightarrow> Inr v)"

record volume_input =
  in_name :: string
  in_host :: string
  in_share :: string
  in_username :: string
  in_password :: string
  in_enabled :: "bool option"
  in_content :: "bool option"

definition parseVolumeID :: "string \<Rightarrow> num_err + int" where
  "parseVolumeID raw = ParseInt raw"

section \<open>The view of a volume\<close>

record volume_status =
  st_volume :: volume
  st_crawling :: bool
  st_connected :: bool
  st_watching :: bool
  st_last_event :: "int option"
  st_resyncs :: nat
  st_files :: nat
  st_dirs :: nat
  st_last_run :: "crawl_run option"

definition enrichVolume :: "fault \<Rightarrow> fault \<Rightarrow> fault \<Rightarrow> volume \<Rightarrow> server \<Rightarrow> volume_status" where
  "enrichVolume f1 f2 f3 v s =
     (let vs = \<lparr>st_volume = v, st_crawling = False, st_connected = False, st_watching = False, st_last_event = None,
            st_resyncs = 0, st_files = 0, st_dirs = 0, st_last_run = None\<rparr>;
          vs = (case VolumeStats f1 f2 (vID v) (s_db s) of
                  Inr st \<Rightarrow> vs\<lparr>st_files := FileCount st, st_dirs := DirCount st\<rparr> | Inl _ \<Rightarrow> vs);
          vs = (case LatestCrawlRun f3 (vID v) (s_db s) of Inr (Some cr) \<Rightarrow> vs\<lparr>st_last_run := Some cr\<rparr> | _ \<Rightarrow> vs)
      in case volumeRuntime (vID v) s of
           None \<Rightarrow> vs
         | Some i \<Rightarrow>
             (let rt = s_rts s ! i; (connected, lastEvent, resyncs) = watchHealth rt
              in vs\<lparr>st_connected := True, st_crawling := rt_crawling rt, st_watching := connected,
                    st_resyncs := resyncs, st_last_event := lastEvent\<rparr>))"

definition handleListVolumes :: "(nat \<Rightarrow> fault) \<Rightarrow> server \<Rightarrow> volume_status list resp" where
  "handleListVolumes flts s =
     (case ListVolumes (flts 0) (s_db s) of
        Inl e \<Rightarrow> Inl (500, err_text e)
      | Inr vols \<Rightarrow> Inr (200, map (\<lambda>(k, v). enrichVolume (flts (3 * k + 1)) (flts (3 * k + 2)) (flts (3 * k + 3)) v s) (enumerate 0 vols)))"

section \<open>Creating, changing and deleting\<close>

definition writeVolumeWriteError :: "index_err \<Rightarrow> nat \<times> string" where
  "writeVolumeWriteError e = (if e = ErrVolumeNameTaken then 409 else 500, err_text e)"

definition set_db :: "db \<Rightarrow> server \<Rightarrow> server" where
  "set_db d s = s\<lparr>s_db := d\<rparr>"

definition handleCreateVolume ::
  "sealer \<Rightarrow> string \<Rightarrow> string \<Rightarrow> unicode \<Rightarrow> (nat \<Rightarrow> fault) \<Rightarrow> int \<Rightarrow> volume_input body \<Rightarrow> server
    \<Rightarrow> volume_status resp \<times> server" where
  "handleCreateVolume seal rand key pg flts now body s =
     (case decodeJSON body of
        Inl e \<Rightarrow> (Inl e, s)
      | Inr inp \<Rightarrow>
          (let nm = trim_space (in_name inp)
           in if nm = [] \<or> in_host inp = [] \<or> in_share inp = [] \<or> in_username inp = [] \<or> in_password inp = []
              then (Inl (400, ''name, host, share, username, and password are all required''), s)
              else case Encrypt seal rand key (in_password inp) of
                     Inl _ \<Rightarrow> (Inl (500, ''encrypt password''), s)
                   | Inr enc \<Rightarrow>
                       (case CreateVolume pg (flts 0) now nm (in_host inp) (in_share inp) (in_username inp) enc (s_db s) of
                          (Inl e, d) \<Rightarrow> (Inl (writeVolumeWriteError e), set_db d s)
                        | (Inr vol, d) \<Rightarrow>
                            (let s = set_db d s;
                                 (res, s) = (if in_content inp = Some True then
                                     (case SetVolumeContentIndex (flts 1) (vID vol) True (s_db s) of
                                        (Inl e, d) \<Rightarrow> (Inl (500, err_text e), set_db d s)
                                      | (Inr v, d) \<Rightarrow> (Inr v, kickContent (set_db d s)))
                                   else (Inr vol, s))
                             in case res of
                                  Inl e \<Rightarrow> (Inl e, s)
                                | Inr v \<Rightarrow>
                                    (let s = (if in_enabled inp \<noteq> Some False then startVolumeAsync (vID v) s else s)
                                     in (Inr (201, enrichVolume (flts 2) (flts 3) (flts 4) v s), s))))))"

text \<open>
  Everything \<open>handleUpdateVolume\<close> decides before it writes: an error to answer with, or the update to
  apply. The password rule compares with the volume as it is read here.
\<close>

definition update_check ::
  "sealer \<Rightarrow> string \<Rightarrow> string \<Rightarrow> (nat \<Rightarrow> fault) \<Rightarrow> int \<Rightarrow> volume_input body \<Rightarrow> server
    \<Rightarrow> (nat \<times> string) + (volume_update \<times> bool option)" where
  "update_check seal rand key flts i body s =
     (case GetVolume (flts 0) i (s_db s) of
        Inl e \<Rightarrow> Inl (500, err_text e)
      | Inr None \<Rightarrow> Inl (404, ''volume not found'')
      | Inr (Some existing) \<Rightarrow>
          (case decodeJSON body of
             Inl e \<Rightarrow> Inl e
           | Inr inp \<Rightarrow>
               (let nm = trim_space (in_name inp)
                in if nm = [] \<or> in_host inp = [] \<or> in_share inp = [] \<or> in_username inp = []
                   then Inl (400, ''name, host, share, and username are required'')
                   else if in_password inp = [] \<and>
                       (in_host inp \<noteq> vHost existing \<or> in_share inp \<noteq> vShare existing \<or> in_username inp \<noteq> vUsername existing)
                   then Inl (400, ''changing the host, share or username requires entering the password again, so the stored password '' @
                       [CHR ''c'', CHR ''a'', CHR ''n'', CHR 0x27, CHR ''t''] @ '' be sent to a different server'')
                   else
                     (let u = \<lparr>u_name = nm, u_host = in_host inp, u_share = in_share inp, u_username = in_username inp,
                            u_password_enc = None,
                            u_enabled = (case in_enabled inp of Some b \<Rightarrow> b | None \<Rightarrow> vEnabled existing)\<rparr>
                      in if in_password inp = [] then Inr (u, in_content inp)
                         else case Encrypt seal rand key (in_password inp) of
                                Inl _ \<Rightarrow> Inl (500, ''encrypt password'')
                              | Inr enc \<Rightarrow> Inr (u\<lparr>u_password_enc := Some enc\<rparr>, in_content inp)))))"

definition update_apply ::
  "unicode \<Rightarrow> (nat \<Rightarrow> fault) \<Rightarrow> int \<Rightarrow> int \<Rightarrow> volume_update \<Rightarrow> bool option \<Rightarrow> server
    \<Rightarrow> volume_status resp \<times> server" where
  "update_apply pg flts now i u content s =
     (case UpdateVolume pg (flts 1) now i u (s_db s) of
        (Inl e, d) \<Rightarrow> (Inl (writeVolumeWriteError e), set_db d s)
      | (Inr vol, d) \<Rightarrow>
          (let s = set_db d s;
               (res, s) = (case content of
                   None \<Rightarrow> (Inr vol, s)
                 | Some on \<Rightarrow>
                     (case SetVolumeContentIndex (flts 2) i on (s_db s) of
                        (Inl e, d) \<Rightarrow> (Inl (500, err_text e), set_db d s)
                      | (Inr v, d) \<Rightarrow> (Inr v, kickContent (set_db d s))))
           in case res of
                Inl e \<Rightarrow> (Inl e, s)
              | Inr v \<Rightarrow>
                  (let s = stopVolume i s;
                       s = (if vEnabled v then startVolumeAsync (vID v) s else s)
                   in (Inr (200, enrichVolume (flts 3) (flts 4) (flts 5) v s), s))))"

definition handleUpdateVolume ::
  "sealer \<Rightarrow> string \<Rightarrow> string \<Rightarrow> unicode \<Rightarrow> (nat \<Rightarrow> fault) \<Rightarrow> int \<Rightarrow> string \<Rightarrow> volume_input body \<Rightarrow> server
    \<Rightarrow> volume_status resp \<times> server" where
  "handleUpdateVolume seal rand key pg flts now rawID body s =
     (case parseVolumeID rawID of
        Inl _ \<Rightarrow> (Inl (400, ''invalid volume id''), s)
      | Inr i \<Rightarrow>
          (case update_check seal rand key flts i body s of
             Inl e \<Rightarrow> (Inl e, s)
           | Inr (u, content) \<Rightarrow> update_apply pg flts now i u content s))"

definition handleDeleteVolume :: "(nat \<Rightarrow> fault) \<Rightarrow> string \<Rightarrow> server \<Rightarrow> unit resp \<times> server" where
  "handleDeleteVolume flts rawID s =
     (case parseVolumeID rawID of
        Inl _ \<Rightarrow> (Inl (400, ''invalid volume id''), s)
      | Inr i \<Rightarrow>
          (let s = stopVolume i s
           in case DeleteVolume (flts 0) i (s_db s) of
                (Inl e, d) \<Rightarrow> (Inl (500, err_text e), set_db d s)
              | (Inr _, d) \<Rightarrow> (Inr (204, ()), set_db d s)))"

section \<open>Testing a connection\<close>

text \<open>The answer of a test is always a 200; its value is the error, if any. The second result is what was dialled.\<close>

type_synonym session_answer = "conn \<Rightarrow> string option"

definition testConnection :: "session_answer \<Rightarrow> session_answer \<Rightarrow> conn \<Rightarrow> string option" where
  "testConnection connect ping c = (case connect c of Some e \<Rightarrow> Some e | None \<Rightarrow> ping c)"

definition errMsg :: "string option \<Rightarrow> string" where
  "errMsg e = (case e of None \<Rightarrow> [] | Some m \<Rightarrow> m)"

definition handleTestVolume ::
  "opener \<Rightarrow> string \<Rightarrow> session_answer \<Rightarrow> session_answer \<Rightarrow> (nat \<Rightarrow> fault) \<Rightarrow> int \<Rightarrow> string \<Rightarrow> server
    \<Rightarrow> string option resp \<times> conn list \<times> server" where
  "handleTestVolume opn key connect ping flts now rawID s =
     (case parseVolumeID rawID of
        Inl _ \<Rightarrow> (Inl (400, ''invalid volume id''), [], s)
      | Inr i \<Rightarrow>
          (case GetVolumeSecret (flts 0) i (s_db s) of
             Inl _ \<Rightarrow> (Inl (404, ''volume not found''), [], s)
           | Inr sec \<Rightarrow>
               (case decryptPassword opn key (vs_password_enc sec) of
                  Inl e \<Rightarrow> (Inl (500, ''decrypt password: '' @ e), [], s)
                | Inr p \<Rightarrow>
                    (let c = \<lparr>c_host = vs_host sec, c_share = vs_share sec, c_user = vs_username sec, c_pass = p\<rparr>;
                         err = testConnection connect ping c
                     in (Inr (200, err), [c],
                         set_db (snd (SetVolumeTestResult (flts 1) now i (err = None) (errMsg err) (s_db s))) s)))))"

definition handleTestVolumeInput :: "session_answer \<Rightarrow> session_answer \<Rightarrow> volume_input body \<Rightarrow> string option resp \<times> conn list" where
  "handleTestVolumeInput connect ping body =
     (case decodeJSON body of
        Inl e \<Rightarrow> (Inl e, [])
      | Inr inp \<Rightarrow>
          (if in_host inp = [] \<or> in_share inp = [] \<or> in_username inp = [] \<or> in_password inp = []
           then (Inl (400, ''host, share, username, and password are all required''), [])
           else let c = \<lparr>c_host = in_host inp, c_share = in_share inp, c_user = in_username inp, c_pass = in_password inp\<rparr>
                in (Inr (200, testConnection connect ping c), [c])))"

section \<open>Where a password can go\<close>

text \<open>The credentials a request carries, if it carries a password\<close>

definition typed :: "volume_input body \<Rightarrow> conn set" where
  "typed b = (case b of Decoded inp \<Rightarrow>
       if in_password inp = [] then {}
       else {\<lparr>c_host = in_host inp, c_share = in_share inp, c_user = in_username inp, c_pass = in_password inp\<rparr>}
     | _ \<Rightarrow> {})"

text \<open>
  One step of the service, with the credentials typed so far and those dialled so far. The last rule
  stands for everything else the server does (crawls, live updates, text extraction, settings): it does
  not write to the table of volumes.
\<close>

inductive api_step ::
  "sealer \<Rightarrow> opener \<Rightarrow> string \<Rightarrow> unicode \<Rightarrow> server \<times> conn set \<times> conn set \<Rightarrow> server \<times> conn set \<times> conn set \<Rightarrow> bool"
  for seal opn key pg where
  create: "handleCreateVolume seal rand key pg flts now b s = (r, s') \<Longrightarrow> api_step seal opn key pg (s, E, D) (s', E \<union> typed b, D)"
| update: "handleUpdateVolume seal rand key pg flts now raw b s = (r, s') \<Longrightarrow> api_step seal opn key pg (s, E, D) (s', E \<union> typed b, D)"
| delete: "handleDeleteVolume flts raw s = (r, s') \<Longrightarrow> api_step seal opn key pg (s, E, D) (s', E, D)"
| test: "handleTestVolume opn key connect ping flts now raw s = (r, cs, s') \<Longrightarrow> api_step seal opn key pg (s, E, D) (s', E, D \<union> set cs)"
| test_input: "handleTestVolumeInput connect ping b = (r, cs) \<Longrightarrow> api_step seal opn key pg (s, E, D) (s, E \<union> typed b, D \<union> set cs)"
| start: "run_start opn key dial f1 f2 now vol s = (cs, s') \<Longrightarrow> api_step seal opn key pg (s, E, D) (s', E, D \<union> set cs)"
| other: "volumes (s_db s') = volumes (s_db s) \<Longrightarrow> api_step seal opn key pg (s, E, D) (s', E, D)"

text \<open>A stored password decrypts to one that was typed for the very server the row names\<close>

definition vouched :: "opener \<Rightarrow> string \<Rightarrow> conn set \<Rightarrow> volume_row \<Rightarrow> bool" where
  "vouched opn key E v \<longleftrightarrow> (\<exists>p. Decrypt opn key (v_password_enc v) = Inr p \<and>
     \<lparr>c_host = v_host v, c_share = v_share v, c_user = v_username v, c_pass = p\<rparr> \<in> E)"

definition all_vouched :: "opener \<Rightarrow> string \<Rightarrow> conn set \<Rightarrow> db \<Rightarrow> bool" where
  "all_vouched opn key E d \<longleftrightarrow> (\<forall>v \<in> set (volumes d). vouched opn key E v)"

lemma vouched_mono: "vouched opn key E v \<Longrightarrow> E \<subseteq> F \<Longrightarrow> vouched opn key F v"
  by (auto simp: vouched_def)

lemma all_vouched_mono: "all_vouched opn key E d \<Longrightarrow> E \<subseteq> F \<Longrightarrow> all_vouched opn key F d"
  by (auto simp: all_vouched_def intro: vouched_mono)

lemma db_unchanged [simp]:
  "s_db (tear_down i s) = s_db s" "s_db (stopVolume vol s) = s_db s" "s_db (startVolumeAsync vol s) = s_db s"
  "s_db (kickContent s) = s_db s" "s_db (set_db d s) = d" "s_db (registerVolumeRuntime vol c s) = s_db s"
  by (simp_all add: stopVolume_def startVolumeAsync_def kickContent_def set_db_def registerVolumeRuntime_def tear_down_def
      Let_def split: option.split)

lemma tbl_put_rows: "x \<in> set (tbl_put k r t) \<Longrightarrow> x = r \<or> x \<in> set t"
  by (auto simp: tbl_put_def split: if_splits)

lemma tbl_get_in: "tbl_get k x t = Some r \<Longrightarrow> r \<in> set t"
  by (auto simp: tbl_get_def dest!: find_hit)

named_theorems vouched_intros \<open>operations that keep every stored password vouched for\<close>

lemma vouched_content_index [vouched_intros]:
  assumes "all_vouched opn key E d"
  shows "all_vouched opn key E (snd (SetVolumeContentIndex flt i on d))"
proof -
  have "vouched opn key E (v\<lparr>v_content_index := on\<rparr>)" if "v \<in> set (volumes d)" for v
    using assms that by (simp add: all_vouched_def vouched_def)
  then show ?thesis using assms
    by (auto simp: SetVolumeContentIndex_def all_vouched_def Let_def split: option.split dest!: tbl_put_rows tbl_get_in)
qed

lemma vouched_test_result [vouched_intros]:
  "all_vouched opn key E d \<Longrightarrow> all_vouched opn key E (snd (SetVolumeTestResult flt now i ok msg d))"
  by (auto simp: SetVolumeTestResult_def all_vouched_def vouched_def split: option.split)

lemma vouched_delete [vouched_intros]:
  "all_vouched opn key E d \<Longrightarrow> all_vouched opn key E (snd (DeleteVolume flt i d))"
  by (auto simp: DeleteVolume_def all_vouched_def sql_delete_files_def Let_def split: option.split)

lemma vouched_create:
  assumes "all_vouched opn key E d" "Decrypt opn key enc = Inr p"
    and "\<lparr>c_host = host, c_share = share, c_user = user, c_pass = p\<rparr> \<in> E"
  shows "all_vouched opn key E (snd (CreateVolume pg flt now nm host share user enc d))"
  using assms by (auto simp: CreateVolume_def all_vouched_def vouched_def Let_def split: option.split)

lemma vouched_update:
  assumes "all_vouched opn key E d" "\<And>v. tbl_get v_id i (volumes d) = Some v \<Longrightarrow> vouched opn key E (apply_update now u v)"
  shows "all_vouched opn key E (snd (UpdateVolume pg flt now i u d))"
  using assms by (auto simp: UpdateVolume_def all_vouched_def split: option.split dest!: tbl_put_rows)

section \<open>The handlers keep it\<close>

lemma create_vouched:
  assumes law: "\<And>k n p. opn k n (seal k n p) = Some p"
    and v: "all_vouched opn key E (s_db s)"
  shows "all_vouched opn key (E \<union> typed b) (s_db (snd (handleCreateVolume seal rand key pg flts now b s)))"
proof (cases b)
  case (Decoded inp)
  let ?E = "E \<union> typed b"
  have v': "all_vouched opn key ?E (s_db s)" using v by (rule all_vouched_mono) simp
  show ?thesis
  proof (cases "in_password inp = [] \<or> is_err (Encrypt seal rand key (in_password inp))")
    case True
    then show ?thesis using v' Decoded
      by (auto simp: handleCreateVolume_def decodeJSON_def Let_def split: sum.splits)
  next
    case False
    then obtain enc where enc: "Encrypt seal rand key (in_password inp) = Inr enc" by (auto simp: is_err_def split: sum.splits)
    have "Decrypt opn key enc = Inr (in_password inp)" by (rule Decrypt_Encrypt_raw [OF law enc])
    then have c: "all_vouched opn key ?E (snd (CreateVolume pg (flts 0) now nm (in_host inp) (in_share inp) (in_username inp) enc (s_db s)))" for nm
      using vouched_create [OF v'] False Decoded by (simp add: typed_def)
    show ?thesis using v' c [of "trim_space (in_name inp)"] Decoded enc vouched_content_index [of opn key ?E]
      by (auto simp: handleCreateVolume_def decodeJSON_def Let_def split: sum.splits prod.splits if_splits)
        (metis snd_conv)+
  qed
qed (use all_vouched_mono [OF v] in \<open>simp_all add: handleCreateVolume_def decodeJSON_def typed_def\<close>)

lemma update_check_vouched:
  assumes law: "\<And>k n p. opn k n (seal k n p) = Some p"
    and v: "all_vouched opn key E (s_db s)"
    and c: "update_check seal rand key flts i b s = Inr (u, content)" "tbl_get v_id i (volumes (s_db s)) = Some w"
  shows "vouched opn key (E \<union> typed b) (apply_update now u w)"
proof -
  obtain inp where b: "b = Decoded inp" using c(1)
    by (auto simp: update_check_def decodeJSON_def split: sum.splits option.splits body.splits)
  have ex: "vHost (scanVolume w) = v_host w" "vShare (scanVolume w) = v_share w" "vUsername (scanVolume w) = v_username w"
    by (simp_all add: scanVolume_def)
  show ?thesis
  proof (cases "in_password inp = []")
    case True
    then have u: "u_host u = v_host w" "u_share u = v_share w" "u_username u = v_username w" "u_password_enc u = None"
      using c ex by (auto simp: update_check_def GetVolume_def decodeJSON_def b Let_def split: option.splits if_splits)
    have "vouched opn key E w" using v tbl_get_in [OF c(2)] by (simp add: all_vouched_def)
    then show ?thesis using u by (auto simp: vouched_def apply_update_def)
  next
    case False
    then obtain enc where enc: "Encrypt seal rand key (in_password inp) = Inr enc" "u_password_enc u = Some enc"
        "u_host u = in_host inp" "u_share u = in_share inp" "u_username u = in_username inp"
      using c by (auto simp: update_check_def GetVolume_def decodeJSON_def b Let_def split: option.splits if_splits sum.splits)
    have "Decrypt opn key enc = Inr (in_password inp)" by (rule Decrypt_Encrypt_raw [OF law enc(1)])
    then show ?thesis using enc False b by (auto simp: vouched_def apply_update_def typed_def)
  qed
qed

lemma update_apply_vouched:
  assumes "all_vouched opn key E (s_db s)"
    and "\<And>v. tbl_get v_id i (volumes (s_db s)) = Some v \<Longrightarrow> vouched opn key E (apply_update now u v)"
  shows "all_vouched opn key E (s_db (snd (update_apply pg flts now i u content s)))"
  using vouched_update [OF assms(1), of i now u pg "flts 1"] assms(2) vouched_content_index [of opn key E]
  by (auto simp: update_apply_def Let_def split: sum.splits prod.splits option.splits if_splits) (metis snd_conv)+

lemma update_vouched:
  assumes "\<And>k n p. opn k n (seal k n p) = Some p" "all_vouched opn key E (s_db s)"
  shows "all_vouched opn key (E \<union> typed b) (s_db (snd (handleUpdateVolume seal rand key pg flts now raw b s)))"
proof -
  have m: "all_vouched opn key (E \<union> typed b) (s_db s)" by (rule all_vouched_mono [OF assms(2)]) simp
  have "all_vouched opn key (E \<union> typed b) (s_db (snd (update_apply pg flts now i u content s)))"
    if "update_check seal rand key flts i b s = Inr (u, content)" for i u content
    by (rule update_apply_vouched [OF m]) (rule update_check_vouched [OF assms that])
  then show ?thesis using m by (auto simp: handleUpdateVolume_def split: sum.splits)
qed

text \<open>What is dialled comes from a stored row.\<close>

lemma start_load_vouched:
  assumes "all_vouched opn key E (s_db s)" "start_load opn key flt vol s = Inr c"
  shows "c \<in> E"
proof -
  obtain v p where v: "v \<in> set (volumes (s_db s))" "Decrypt opn key (v_password_enc v) = Inr p"
      "c = \<lparr>c_host = v_host v, c_share = v_share v, c_user = v_username v, c_pass = p\<rparr>"
    using assms(2) by (auto simp: start_load_def GetVolumeSecret_def decryptPassword_def
        split: option.splits sum.splits dest!: tbl_get_in)
  then show ?thesis using assms(1) by (auto simp: all_vouched_def vouched_def)
qed

lemma run_start_vouched:
  assumes "all_vouched opn key E (s_db s)" "run_start opn key dial f1 f2 now vol s = (cs, s')"
  shows "set cs \<subseteq> E \<and> all_vouched opn key E (s_db s')"
proof (cases "start_load opn key f1 vol s")
  case (Inl e)
  then show ?thesis using assms vouched_test_result [OF assms(1)] by (auto simp: run_start_def StartVolume_def)
next
  case (Inr c)
  have "c \<in> E" by (rule start_load_vouched [OF assms(1) Inr])
  then show ?thesis using assms vouched_test_result [OF assms(1)] Inr
    by (auto simp: run_start_def StartVolume_def start_finish_def split: option.splits)
qed

lemma test_vouched:
  assumes "all_vouched opn key E (s_db s)" "handleTestVolume opn key connect ping flts now raw s = (r, cs, s')"
  shows "set cs \<subseteq> E \<and> all_vouched opn key E (s_db s')"
proof -
  have "c \<in> E" if "GetVolumeSecret (flts 0) i (s_db s) = Inr sec" "decryptPassword opn key (vs_password_enc sec) = Inr p"
      "c = \<lparr>c_host = vs_host sec, c_share = vs_share sec, c_user = vs_username sec, c_pass = p\<rparr>" for i sec p c
    using start_load_vouched [OF assms(1), of "flts 0" i c] that by (simp add: start_load_def)
  then show ?thesis using assms vouched_test_result [OF assms(1)]
    by (auto simp: handleTestVolume_def Let_def split: sum.splits)
qed

lemma delete_vouched:
  "all_vouched opn key E (s_db s) \<Longrightarrow> all_vouched opn key E (s_db (snd (handleDeleteVolume flts raw s)))"
  using vouched_delete [of opn key E "s_db s"]
  by (auto simp: handleDeleteVolume_def Let_def split: sum.splits prod.splits) (metis snd_conv)+

lemma api_step_vouched:
  assumes law: "\<And>k n p. opn k n (seal k n p) = Some p"
    and "api_step seal opn key pg x y" "all_vouched opn key (fst (snd x)) (s_db (fst x))" "snd (snd x) \<subseteq> fst (snd x)"
  shows "all_vouched opn key (fst (snd y)) (s_db (fst y)) \<and> snd (snd y) \<subseteq> fst (snd y)"
  using assms(2-)
proof (induction rule: api_step.induct)
  case (create rand flts now b s r s' E D)
  then show ?case using create_vouched [where opn = opn and seal = seal, OF law, of key E s b rand pg flts now] by auto
next
  case (update rand flts now raw b s r s' E D)
  then show ?case using update_vouched [where opn = opn and seal = seal, OF law, of key E s b rand pg flts now raw] by auto
next
  case (delete flts raw s r s' E D)
  then show ?case using delete_vouched [of opn key E s flts raw] by simp
next
  case (test connect ping flts now raw s r cs s' E D)
  then show ?case using test_vouched [OF _ test.hyps, of E] by auto
next
  case (test_input connect ping b r cs s E D)
  then have "set cs \<subseteq> typed b"
    by (auto simp: handleTestVolumeInput_def decodeJSON_def typed_def Let_def split: body.splits if_splits)
  then show ?case using test_input all_vouched_mono [of opn key E "s_db s" "E \<union> typed b"] by auto
next
  case (start dial f1 f2 now vol s cs s' E D)
  then show ?case using run_start_vouched [OF _ start.hyps, of E] by auto
qed (simp add: all_vouched_def)

text \<open>C2: whatever requests, starts and tests follow one another, the server never offers a password to a
  host, share and user other than those it was typed for: everything it dials was typed as a whole.\<close>

theorem password_stays:
  assumes "\<And>k n p. opn k n (seal k n p) = Some p"
    and "(api_step seal opn key pg)\<^sup>*\<^sup>* (new_server empty_db, {}, {}) (s, E, D)"
  shows "D \<subseteq> E"
proof -
  have "all_vouched opn key (fst (snd x)) (s_db (fst x)) \<and> snd (snd x) \<subseteq> fst (snd x)"
    if "(api_step seal opn key pg)\<^sup>*\<^sup>* (new_server empty_db, {}, {}) x" for x
    using that
  proof (induction rule: rtranclp_induct)
    case base
    then show ?case by (simp add: all_vouched_def new_server_def empty_db_def)
  next
    case (step x y)
    then show ?case using api_step_vouched [where opn = opn and seal = seal, OF assms(1) step(2)] by blast
  qed
  from this [OF assms(2)] show ?thesis by simp
qed

definition example_input :: volume_input where
  "example_input = \<lparr>in_name = ''nas'', in_host = ''nas.local'', in_share = ''media'', in_username = ''me'',
     in_password = ''secret'', in_enabled = None, in_content = None\<rparr>"

definition example_key :: string where "example_key = replicate 32 CHR ''k''"
definition example_rand :: string where "example_rand = replicate 12 CHR ''n''"

definition example_server :: server where
  "example_server = snd (handleCreateVolume example_seal example_rand example_key ascii_tables (\<lambda>_. None) 1
     (Decoded example_input) (new_server empty_db))"

theorem password_stays_witness:
  "fst (run_start example_open example_key (\<lambda>_. None) None None 2 1 example_server) =
     [\<lparr>c_host = ''nas.local'', c_share = ''media'', c_user = ''me'', c_pass = ''secret''\<rparr>] \<and>
   set (fst (run_start example_open example_key (\<lambda>_. None) None None 2 1 example_server)) \<subseteq> typed (Decoded example_input)"
proof -
  obtain r where c: "handleCreateVolume example_seal example_rand example_key ascii_tables (\<lambda>_. None) 1
      (Decoded example_input) (new_server empty_db) = (r, example_server)"
    unfolding example_server_def by (metis prod.collapse)
  obtain cs s' where d: "run_start example_open example_key (\<lambda>_. None) None None 2 1 example_server = (cs, s')"
    by fastforce
  have "(api_step example_seal example_open example_key ascii_tables)\<^sup>*\<^sup>* (new_server empty_db, {}, {})
      (s', {} \<union> typed (Decoded example_input), {} \<union> set cs)"
    by (rule rtranclp.rtrancl_into_rtrancl [OF r_into_rtranclp [where r = "api_step _ _ _ _", OF api_step.create [OF c]]])
      (rule api_step.start [OF d])
  from password_stays [OF example_open_seal this] have "set cs \<subseteq> typed (Decoded example_input)" by simp
  moreover have "fst (run_start example_open example_key (\<lambda>_. None) None None 2 1 example_server) =
     [\<lparr>c_host = ''nas.local'', c_share = ''media'', c_user = ''me'', c_pass = ''secret''\<rparr>]"
    by code_simp
  ultimately show ?thesis by (simp add: d)
qed

section \<open>Where requests interleave\<close>

text \<open>
  The password rule compares with the volume as it was read. Two updates that overlap can each keep to it
  and together break it: the first, with no password and the old host, is checked; the second moves the
  volume to another host with a new password; the first is then written, and the new password is offered
  to the old host.
\<close>

lemma overlapping_updates_redirect:
  "(let in_a = example_input\<lparr>in_password := []\<rparr>;
        in_b = example_input\<lparr>in_host := ''other.local'', in_password := ''fresh''\<rparr>;
        (ra, sb) = handleUpdateVolume example_seal example_rand example_key ascii_tables (\<lambda>_. None) 2 ''1'' (Decoded in_b) example_server
    in case update_check example_seal example_rand example_key (\<lambda>_. None) 1 (Decoded in_a) example_server of
         Inl _ \<Rightarrow> False
       | Inr (u, content) \<Rightarrow>
           (let (rb, s) = update_apply ascii_tables (\<lambda>_. None) 3 1 u content sb
            in \<not> is_err ra \<and> \<not> is_err rb \<and>
               fst (run_start example_open example_key (\<lambda>_. None) None None 4 1 s) =
                 [\<lparr>c_host = ''nas.local'', c_share = ''media'', c_user = ''me'', c_pass = ''fresh''\<rparr>]))"
  by code_simp

text \<open>What the main program starts at the next launch, ten attempts each\<close>

definition main_starts :: "fault \<Rightarrow> db \<Rightarrow> index_err + (int \<times> nat) list" where
  "main_starts flt d =
     (case ListVolumes flt d of
        Inl e \<Rightarrow> Inl e
      | Inr vols \<Rightarrow> Inr (map (\<lambda>v. (vID v, 10)) (filter vEnabled vols)))"

text \<open>A volume created with \<open>enabled\<close> false is not started, but it is stored enabled, and the next start of the
  server connects it.\<close>

lemma created_disabled_is_enabled:
  "(case handleCreateVolume example_seal example_rand example_key ascii_tables (\<lambda>_. None) 1
       (Decoded (example_input\<lparr>in_enabled := Some False\<rparr>)) (new_server empty_db) of
     (Inr (st, v), s) \<Rightarrow> vEnabled (st_volume v) \<and> s_starting s = [] \<and> main_starts None (s_db s) = Inr [(1, 10)]
   | _ \<Rightarrow> False)"
  by code_simp

text \<open>A volume deleted while its start is dialling is registered all the same.\<close>

lemma deleted_volume_connected:
  "(case start_load example_open example_key None 1 example_server of
     Inl _ \<Rightarrow> False
   | Inr c \<Rightarrow>
       (let s = snd (handleDeleteVolume (\<lambda>_. None) ''1'' example_server);
            (e, s) = start_finish 1 c None s
        in volumes (s_db s) = [] \<and> e = None \<and> volumeRuntime 1 s = Some 0))"
  by code_simp

end
