(* ===== verification/Chunking.thy ===== *)
theory Chunking
  imports GoText
begin

text \<open>
  \<open>internal/extract/chunk.go\<close>: cutting extracted text into chunks of at most \<open>target\<close>
  bytes. The loops of \<open>splitLong\<close> and \<open>Chunk\<close> become recursion on the shrinking text and
  a fold over the paragraphs whose state is the pair (chunks so far, the builder \<open>cur\<close>).
  \<open>target\<close> is a natural number (the only caller passes \<open>ChunkSize\<close>).
  The theorems: no chunk is empty or longer than the target, chunks are valid UTF-8 with no
  space at either end, and together they hold exactly the non-space runes of the text in order.
\<close>

section \<open>The code\<close>

definition ChunkSize :: nat where
  "ChunkSize = 1500"

definition nl :: char where
  "nl = CHR 0x0A"

definition blank_set :: string where
  "blank_set = [CHR '' '', CHR 0x0A, CHR 0x09]"

text \<open>\<open>for cut > 0 && !utf8.RuneStart(s[cut]) { cut-- }\<close>\<close>

fun rune_back :: "string \<Rightarrow> nat \<Rightarrow> nat" where
  "rune_back s 0 = 0"
| "rune_back s (Suc n) = (if rune_start (s ! Suc n) then Suc n else rune_back s n)"

definition cut_at :: "string \<Rightarrow> nat \<Rightarrow> nat" where
  "cut_at s target =
     (let cut = (case last_index_any (take target s) blank_set of
                   Some i \<Rightarrow> if target div 2 < i then i else rune_back s target
                 | None \<Rightarrow> rune_back s target)
      in if cut = 0 then snd (decode_rune s) else cut)"

lemma rune_back_le: "rune_back s n \<le> n"
  by (induction n) auto

lemma cut_at_pos: "s \<noteq> [] \<Longrightarrow> 1 \<le> cut_at s target"
  using decode_rune_width [of s] by (auto simp: cut_at_def Let_def)

function split_loop :: "nat \<Rightarrow> string \<Rightarrow> string list" where
  "split_loop target s =
     (if target < length s then
        (let cut = cut_at s target;
             piece = trim_space (take cut s)
         in (if piece \<noteq> [] then [piece] else []) @ split_loop target (trim_space (drop cut s)))
      else if s \<noteq> [] then [s] else [])"
  by pat_completeness auto
termination
proof (relation "measure (length \<circ> snd)")
  fix target :: nat and s cut and piece :: string
  assume "target < length s" "cut = cut_at s target"
  then have "length (drop cut s) < length s" using cut_at_pos [of s target] by (cases s) auto
  then show "((target, trim_space (drop cut s)), (target, s)) \<in> measure (length \<circ> snd)"
    using length_trim_space [of "drop cut s"] by auto
qed simp

declare split_loop.simps [simp del]

definition splitLong :: "string \<Rightarrow> nat \<Rightarrow> string list" where
  "splitLong s target = (if length s \<le> target then [s] else split_loop target s)"

type_synonym packer = "string list \<times> string"

definition flush :: "packer \<Rightarrow> packer" where
  "flush st = (let s = trim_space (snd st) in (if s \<noteq> [] then fst st @ [s] else fst st, []))"

definition add_piece :: "nat \<Rightarrow> packer \<Rightarrow> string \<Rightarrow> packer" where
  "add_piece target st piece =
     (let st = (if 0 < length (snd st) \<and> target < length (snd st) + 2 + length piece then flush st else st);
          cur = (if 0 < length (snd st) then snd st @ [nl, nl] else snd st)
      in (fst st, cur @ piece))"

definition add_para :: "nat \<Rightarrow> packer \<Rightarrow> string \<Rightarrow> packer" where
  "add_para target st para =
     (let para = trim_space para in
      if para = [] then st else foldl (add_piece target) st (splitLong para target))"

definition Chunk :: "string \<Rightarrow> nat \<Rightarrow> string list" where
  "Chunk text target =
     (let text = replace_all [CHR 0x0D, nl] [nl] text
      in fst (flush (foldl (add_para target) ([], []) (split_on [nl, nl] text))))"

section \<open>Bounds\<close>

lemma cut_at_le:
  assumes "4 \<le> target" "s \<noteq> []"
  shows "cut_at s target \<le> target"
  using assms decode_rune_width [of s] rune_back_le [of s target]
  by (auto simp: cut_at_def Let_def last_index_any_def split: option.splits dest!: last_index_Some)

lemma split_loop_bounds:
  assumes "4 \<le> target" "p \<in> set (split_loop target s)"
  shows "p \<noteq> [] \<and> length p \<le> target"
  using assms
proof (induction target s rule: split_loop.induct)
  case (1 target s)
  show ?case
  proof (cases "target < length s")
    case True
    let ?cut = "cut_at s target"
    have ne: "s \<noteq> []" using True by auto
    have "length (trim_space (take ?cut s)) \<le> target"
      using length_trim_space [of "take ?cut s"] cut_at_le [OF 1(2) ne] by simp
    moreover have "p = trim_space (take ?cut s) \<and> p \<noteq> [] \<or> p \<in> set (split_loop target (trim_space (drop ?cut s)))"
      using 1(3) True by (auto simp: split_loop.simps [of target s] Let_def split: if_splits)
    ultimately show ?thesis using 1(1) [OF True refl refl 1(2)] by blast
  next
    case False
    then show ?thesis using 1(3) by (auto simp: split_loop.simps [of target s] split: if_splits)
  qed
qed

lemma splitLong_bounds:
  assumes "4 \<le> target" "s \<noteq> []" "p \<in> set (splitLong s target)"
  shows "p \<noteq> [] \<and> length p \<le> target"
  using assms split_loop_bounds by (auto simp: splitLong_def split: if_splits)

definition packed :: "nat \<Rightarrow> packer \<Rightarrow> bool" where
  "packed target st \<longleftrightarrow> length (snd st) \<le> target \<and> list_all (\<lambda>c. c \<noteq> [] \<and> length c \<le> target) (fst st)"

lemma packed_flush: "packed target st \<Longrightarrow> packed target (flush st)"
  using length_trim_space [of "snd st"] by (auto simp: packed_def flush_def Let_def)

lemma packed_add_piece:
  assumes "packed target st" "length p \<le> target"
  shows "packed target (add_piece target st p)"
  using packed_flush [OF assms(1)] assms
  by (auto simp: add_piece_def Let_def packed_def) (simp_all add: flush_def Let_def)

lemma packed_foldl:
  assumes "packed target st" "\<And>p. p \<in> set ps \<Longrightarrow> length p \<le> target"
  shows "packed target (foldl (add_piece target) st ps)"
  using assms
proof (induction ps arbitrary: st)
  case (Cons p ps)
  then show ?case using packed_add_piece [of target st p] by simp
qed simp

lemma packed_add_para: "4 \<le> target \<Longrightarrow> packed target st \<Longrightarrow> packed target (add_para target st para)"
  using splitLong_bounds [of target "trim_space para"]
  by (auto simp: add_para_def Let_def intro!: packed_foldl)

lemma packed_add_paras:
  "4 \<le> target \<Longrightarrow> packed target st \<Longrightarrow> packed target (foldl (add_para target) st paras)"
  by (induction paras arbitrary: st) (simp_all add: packed_add_para)

lemma chunk_bounds_aux:
  assumes "4 \<le> target"
  shows "list_all (\<lambda>c. c \<noteq> [] \<and> length c \<le> target) (Chunk text target)"
proof -
  have "packed target ([], [])" by (simp add: packed_def)
  then show ?thesis
    using packed_flush [OF packed_add_paras [OF assms]] by (simp add: Chunk_def Let_def packed_def)
qed

section \<open>Nothing but white space is lost\<close>

lemma rune_back_start: "rune_back s n = 0 \<or> rune_start (s ! rune_back s n)"
  by (induction n) auto

lemma cut_valid:
  assumes v: "valid_utf8 s" and l: "target < length s"
  shows "valid_utf8 (take (cut_at s target) s) \<and> valid_utf8 (drop (cut_at s target) s)"
proof -
  let ?i = "last_index_any (take target s) blank_set"
  define cut where "cut = (case ?i of Some i \<Rightarrow> if target div 2 < i then i else rune_back s target
                 | None \<Rightarrow> rune_back s target)"
  have eq: "cut_at s target = (if cut = 0 then snd (decode_rune s) else cut)"
    by (simp add: cut_at_def cut_def)
  have rb: "rune_back s target = 0 \<or> rune_start (s ! rune_back s target)" "rune_back s target < length s"
    using rune_back_start rune_back_le [of s target] l by (blast, simp)
  have "cut = 0 \<or> cut < length s \<and> rune_start (s ! cut)"
  proof (cases "\<exists>i. ?i = Some i \<and> target div 2 < i")
    case True
    then obtain i where i: "?i = Some i" "cut = i" by (auto simp: cut_def)
    from i(1) have "i < target" "s ! i \<in> set blank_set"
      using l by (auto simp: last_index_any_def dest!: last_index_Some)
    then show ?thesis using i l by (auto simp: blank_set_def ascii_rune_start)
  next
    case False
    then have "cut = rune_back s target" by (auto simp: cut_def split: option.splits)
    then show ?thesis using rb by simp
  qed
  moreover have "s \<noteq> []" using l by auto
  ultimately show ?thesis
    using valid_cut [OF v, of cut] valid_first_rune [OF v] by (auto simp: eq)
qed

lemma split_loop_ink:
  assumes "valid_utf8 s"
  shows "concat (map ink (split_loop target s)) = ink s \<and> list_all valid_utf8 (split_loop target s)"
  using assms
proof (induction target s rule: split_loop.induct)
  case (1 target s)
  show ?case
  proof (cases "target < length s")
    case True
    let ?c = "cut_at s target"
    have v: "valid_utf8 (take ?c s)" "valid_utf8 (drop ?c s)" using cut_valid [OF 1(2) True] by auto
    have ih: "concat (map ink (split_loop target (trim_space (drop ?c s)))) = ink (drop ?c s)"
      "list_all valid_utf8 (split_loop target (trim_space (drop ?c s)))"
      using 1(1) [OF True refl refl trim_space_valid [OF v(2)]] by (simp_all add: ink_trim_space v)
    have "ink s = ink (take ?c s) @ ink (drop ?c s)" using ink_append [OF v(1), of "drop ?c s"] by simp
    then show ?thesis
      using ih trim_space_Nil_iff [OF v(1)] trim_space_valid [OF v(1)]
      by (simp add: split_loop.simps [of target s] Let_def True ink_trim_space v)
  next
    case False
    then show ?thesis using 1(2) by (simp add: split_loop.simps [of target s])
  qed
qed

lemma splitLong_ink:
  "valid_utf8 s \<Longrightarrow> concat (map ink (splitLong s target)) = ink s \<and> list_all valid_utf8 (splitLong s target)"
  by (simp add: splitLong_def split_loop_ink)

definition packer_ink :: "packer \<Rightarrow> nat list" where
  "packer_ink st = concat (map ink (fst st)) @ ink (snd st)"

definition clean :: "packer \<Rightarrow> bool" where
  "clean st \<longleftrightarrow> list_all (\<lambda>c. valid_utf8 c \<and> trim_space c = c) (fst st) \<and> valid_utf8 (snd st)"

lemma flush_ink: "clean st \<Longrightarrow> clean (flush st) \<and> packer_ink (flush st) = packer_ink st"
  using trim_space_Nil_iff [of "snd st"]
  by (auto simp: clean_def flush_def packer_ink_def Let_def trim_space_valid trim_space_idem ink_trim_space)

lemma add_piece_ink:
  assumes "clean st" "valid_utf8 p"
  shows "clean (add_piece target st p) \<and> packer_ink (add_piece target st p) = packer_ink st @ ink p"
proof -
  have sep: "valid_utf8 [nl, nl]" "ink [nl, nl] = []"
    by (rule ascii_valid, simp add: nl_def, rule ink_spaces, simp add: nl_def is_space_def)
  have app: "clean (fst t, (if 0 < length (snd t) then snd t @ [nl, nl] else snd t) @ p) \<and>
      packer_ink (fst t, (if 0 < length (snd t) then snd t @ [nl, nl] else snd t) @ p) = packer_ink t @ ink p"
    if "clean t" for t
    using that assms(2) sep by (auto simp: clean_def packer_ink_def ink_append valid_utf8_append)
  define t where "t = (if 0 < length (snd st) \<and> target < length (snd st) + 2 + length p then flush st else st)"
  have t: "clean t" "packer_ink t = packer_ink st" using flush_ink [OF assms(1)] assms(1) by (auto simp: t_def)
  have "add_piece target st p = (fst t, (if 0 < length (snd t) then snd t @ [nl, nl] else snd t) @ p)"
    by (simp only: add_piece_def Let_def t_def)
  then show ?thesis using app [OF t(1)] t(2) by simp
qed

lemma add_pieces_ink:
  "clean st \<Longrightarrow> list_all valid_utf8 ps \<Longrightarrow>
     clean (foldl (add_piece target) st ps) \<and>
     packer_ink (foldl (add_piece target) st ps) = packer_ink st @ concat (map ink ps)"
proof (induction ps arbitrary: st)
  case (Cons p ps)
  then show ?case using add_piece_ink [of st p target] Cons.IH [of "add_piece target st p"] by simp
qed simp

lemma add_para_ink:
  assumes "clean st" "valid_utf8 p"
  shows "clean (add_para target st p) \<and> packer_ink (add_para target st p) = packer_ink st @ ink p"
  using add_pieces_ink [OF assms(1), of "splitLong (trim_space p) target" target]
    splitLong_ink [OF trim_space_valid [OF assms(2)], of target] assms trim_space_Nil_iff [OF assms(2)]
  by (auto simp: add_para_def Let_def ink_trim_space)

lemma add_paras_ink:
  "clean st \<Longrightarrow> list_all valid_utf8 ps \<Longrightarrow>
     clean (foldl (add_para target) st ps) \<and>
     packer_ink (foldl (add_para target) st ps) = packer_ink st @ concat (map ink ps)"
proof (induction ps arbitrary: st)
  case (Cons p ps)
  then show ?case using add_para_ink [of st p target] Cons.IH [of "add_para target st p"] by simp
qed simp

lemma chunk_ink_aux:
  assumes "valid_utf8 text"
  shows "concat (map ink (Chunk text target)) = ink text \<and>
    list_all (\<lambda>c. valid_utf8 c \<and> trim_space c = c) (Chunk text target)"
proof -
  let ?t = "replace_all [CHR 0x0D, nl] [nl] text"
  have b: "blank_ascii [CHR 0x0D, nl]" "blank_ascii [nl]" "blank_ascii [nl, nl]"
    by (simp_all add: nl_def is_space_def)
  have t: "valid_utf8 ?t" "ink ?t = ink text" using replace_all_ink [OF assms b(1,2)] by auto
  have "clean ([], [])" by (simp add: clean_def)
  then have f: "clean (foldl (add_para target) ([], []) (split_on [nl, nl] ?t))"
    "packer_ink (foldl (add_para target) ([], []) (split_on [nl, nl] ?t)) = ink text"
    using add_paras_ink [of "([], [])" "split_on [nl, nl] ?t" target] split_on_ink [OF t(1) b(3)] t(2)
    by (simp_all add: packer_ink_def)
  have "snd (flush st) = []" for st by (simp add: flush_def Let_def)
  then show ?thesis using flush_ink [OF f(1)] f(2)
    by (simp add: Chunk_def Let_def packer_ink_def clean_def)
qed

section \<open>Properties\<close>

text \<open>C40: every chunk \<open>Chunk\<close> returns is non-empty and at most \<open>target\<close> bytes long,
  for any target that can hold the longest rune.\<close>

theorem Chunk_bounds:
  assumes "4 \<le> target"
  shows "list_all (\<lambda>c. c \<noteq> [] \<and> length c \<le> target) (Chunk text target)"
  using assms by (rule chunk_bounds_aux)

theorem Chunk_bounds_witness:
  "Chunk ''one two three'' 8 = [''one two'', ''three''] \<and>
   list_all (\<lambda>c. c \<noteq> [] \<and> length c \<le> 8) (Chunk ''one two three'' 8) \<and>
   list_all (\<lambda>c. c \<noteq> [] \<and> length c \<le> ChunkSize) (Chunk ''one two three'' ChunkSize)"
proof (intro conjI)
  show "Chunk ''one two three'' 8 = [''one two'', ''three'']" by code_simp
  show "list_all (\<lambda>c. c \<noteq> [] \<and> length c \<le> 8) (Chunk ''one two three'' 8)"
    by (rule Chunk_bounds) simp
  show "list_all (\<lambda>c. c \<noteq> [] \<and> length c \<le> ChunkSize) (Chunk ''one two three'' ChunkSize)"
    by (rule Chunk_bounds) (simp add: ChunkSize_def)
qed

text \<open>C39: chunking loses and duplicates nothing but white space: on valid UTF-8 the non-space runes
  of the chunks, read in order, are those of the text, and every chunk is valid UTF-8 with no
  space at either end, so no rune is ever cut.\<close>

theorem Chunk_lossless:
  assumes "valid_utf8 text"
  shows "concat (map ink (Chunk text target)) = ink text \<and>
    list_all (\<lambda>c. valid_utf8 c \<and> trim_space c = c) (Chunk text target)"
  using assms by (rule chunk_ink_aux)

theorem Chunk_lossless_witness:
  "Chunk ''a b  c'' 2 = [''a'', ''b'', ''c''] \<and> concat (map ink (Chunk ''a b  c'' 2)) = ink ''a b  c''"
proof (rule conjI)
  show "Chunk ''a b  c'' 2 = [''a'', ''b'', ''c'']" by code_simp
  have "valid_utf8 ''a b  c''" by (rule ascii_valid) (simp add: list_all_iff)
  then show "concat (map ink (Chunk ''a b  c'' 2)) = ink ''a b  c''"
    using Chunk_lossless [of "''a b  c''" 2] by simp
qed

end
