(* ===== verification/ContentIndexer.thy ===== *)
theory ContentIndexer
  imports Extract VolumesApi IndexSafety Chunking
begin

text \<open>
  The content indexer (internal/httpapi/contentindex.go): which volumes it may read, one pass over the head of the
  extraction queue by a pool of workers, the record of each outcome, and the loop over passes. What a
  file's read and its extractor do, the clock and the database's failures are parameters of each job; the order
  in which the workers finish is a schedule.
\<close>

section \<open>One file\<close>

definition contentBatch :: nat where "contentBatch = 50"
definition maxReasonLen :: nat where "maxReasonLen = 200"

text \<open>How a read goes: \<open>Finishes\<close> covers every answer of the extractor; the others are a failed open, a
  panic, the deadline of the file and the end of the indexer's own context.\<close>

datatype file_run = OpenFails string | Finishes | Panics string | TimesOut | ParentEnds string

record job_env =
  je_run :: file_run
  je_reader :: read_at
  je_packages :: packages
  je_ended :: bool
  je_fault :: fault
  je_now :: int

definition io_string :: "io_err \<Rightarrow> string" where
  "io_string e = (case e of EOF \<Rightarrow> ''EOF'' | UnexpectedEOF \<Rightarrow> ''unexpected EOF'' | IOErr m \<Rightarrow> m)"

definition err_string :: "extract_err \<Rightarrow> string" where
  "err_string e =
     (case e of
        ErrUnsupported \<Rightarrow> ''no extractor for this file type''
      | ErrBinary \<Rightarrow> ''file is not text''
      | ErrEncrypted \<Rightarrow> ''file is encrypted''
      | ErrPartTooLarge \<Rightarrow> ''part exceeds the decompressed size limit''
      | ErrIO i \<Rightarrow> io_string i
      | extract_err.ErrMsg m \<Rightarrow> m)"

definition extractFile :: "unicode \<Rightarrow> job_env \<Rightarrow> content_settings \<Rightarrow> pending_file \<Rightarrow> extract_err + string" where
  "extractFile u je cs f =
     (case je_run je of
        OpenFails m \<Rightarrow> Inl (extract_err.ErrMsg m)
      | Finishes \<Rightarrow> Extract (je_packages je) (to_lower u (pf_ext f)) (je_reader je) (nat (pf_size f)) (nat (MaxTextBytes cs))
      | Panics m \<Rightarrow> Inl (extract_err.ErrMsg (''extractor panic: '' @ m))
      | TimesOut \<Rightarrow> Inl (extract_err.ErrMsg ''timed out reading the file'')
      | ParentEnds m \<Rightarrow> Inl (extract_err.ErrMsg m))"

definition truncateReason :: "string \<Rightarrow> string" where
  "truncateReason s =
     (if length (runes s) \<le> maxReasonLen then s else concat (map encode_rune (take maxReasonLen (runes s))))"

definition recordContent :: "(index_err + unit) \<times> db \<Rightarrow> server \<Rightarrow> bool \<times> server" where
  "recordContent out s = (case out of (res, d) \<Rightarrow> (\<not> is_err res, set_db d s))"

definition indexOne :: "unicode \<Rightarrow> content_settings \<Rightarrow> job_env \<Rightarrow> pending_file \<Rightarrow> server \<Rightarrow> bool \<times> server" where
  "indexOne u cs je f s =
     (let skip = (\<lambda>status reason. recordContent (SaveContentSkip (je_fault je) (je_now je) (pf_volume f) (pf_path f)
            (pf_size f) (pf_mod_time f) status reason (s_db s)) s)
      in case volumeRuntime (pf_volume f) s of
           None \<Rightarrow> (False, s)
         | Some _ \<Rightarrow>
             (if MaxFileBytes cs < pf_size f then skip ContentSkipped too_large
              else let res = extractFile u je cs f
                   in if je_ended je then (False, s)
                      else case res of
                             Inl ErrEncrypted \<Rightarrow> skip ContentSkipped ''encrypted''
                           | Inl ErrBinary \<Rightarrow> skip ContentSkipped ''unsupported''
                           | Inl ErrUnsupported \<Rightarrow> skip ContentSkipped ''unsupported''
                           | Inl e \<Rightarrow> skip ContentFailed (truncateReason (err_string e))
                           | Inr text \<Rightarrow>
                               (if trim_space text = [] then skip ContentSkipped ''no_text''
                                else recordContent (SaveContent (je_fault je) (je_now je) (pf_volume f) (pf_path f)
                                       (pf_size f) (pf_mod_time f) (Chunk text ChunkSize) (s_db s)) s)))"

section \<open>One pass\<close>

definition indexableVolumeIDs :: "fault \<Rightarrow> server \<Rightarrow> int list" where
  "indexableVolumeIDs flt s =
     (case ListVolumes flt (s_db s) of
        Inl e \<Rightarrow> []
      | Inr vols \<Rightarrow>
          map vID (filter (\<lambda>v. vEnabled v \<and> vContentIndex v \<and>
            (case volumeRuntime (vID v) s of None \<Rightarrow> False | Some i \<Rightarrow> \<not> rt_crawling (s_rts s ! i))) vols))"

text \<open>
  The pool: up to \<open>w\<close> files are being read, taken in the order of the queue; the schedule says which of
  them is recorded next. Without workers nothing is taken, which in the code waits for the end of the context.
\<close>

function run_jobs :: "('j \<Rightarrow> 's \<Rightarrow> bool \<times> 's) \<Rightarrow> nat \<Rightarrow> nat list \<Rightarrow> 'j list \<Rightarrow> 'j list \<Rightarrow> nat \<Rightarrow> 's \<Rightarrow> nat \<times> 's" where
  "run_jobs job w sched queue running n s =
     (let free = w - length running; running = running @ take free queue; queue = drop free queue
      in if running = [] then (n, s)
         else let k = (case sched of [] \<Rightarrow> 0 | i # _ \<Rightarrow> i) mod length running;
                  (recorded, s') = job (running ! k) s
              in run_jobs job w (tl sched) queue (take k running @ drop (Suc k) running)
                   (if recorded then Suc n else n) s')"
  by pat_completeness auto
termination
proof (relation "measure (\<lambda>(job, w, sched, queue, running, n, s). length queue + length running)", goal_cases)
  case (2 job w sched queue running n s x xa xb k xc recorded s')
  then have "k < length xa" by auto
  then have "length (take k xa @ drop (Suc k) xa) < length xa" by simp
  moreover have "length xa + length xb = length queue + length running" using 2 by auto
  ultimately show ?case by simp
qed simp

declare run_jobs.simps [simp del]

text \<open>The faults and circumstances of one pass: \<open>ps_fed\<close> files are handed out before the context ends.\<close>

datatype wake = Kicked | IdleOver | CtxDone

record pass_env =
  ps_settings :: fault
  ps_volumes :: fault
  ps_pending :: fault
  ps_fed :: nat
  ps_sched :: "nat list"
  ps_job :: "pending_file \<Rightarrow> job_env"
  ps_ended :: bool
  ps_wake :: wake

definition contentPass :: "unicode \<Rightarrow> unicode \<Rightarrow> pass_env \<Rightarrow> server \<Rightarrow> bool \<times> server" where
  "contentPass u pg pe s =
     (case ContentSettings (ps_settings pe) (s_db s) of
        Inl e \<Rightarrow> (False, s)
      | Inr cs \<Rightarrow>
          (if Paused cs then (False, s)
           else let ids = indexableVolumeIDs (ps_volumes pe) s
                in if ids = [] then (False, s)
                   else case PendingContent pg (ps_pending pe) ids Supported (MaxFileBytes cs) contentBatch (s_db s) of
                          Inl e \<Rightarrow> (False, s)
                        | Inr pending \<Rightarrow>
                            (case run_jobs (\<lambda>f. indexOne u cs (ps_job pe f) f) (nat (Workers cs)) (ps_sched pe)
                                    (take (ps_fed pe) pending) [] 0 s of
                               (n, s') \<Rightarrow> (0 < n, s'))))"

fun RunContentIndexer :: "unicode \<Rightarrow> unicode \<Rightarrow> pass_env list \<Rightarrow> server \<Rightarrow> server" where
  "RunContentIndexer u pg [] s = s"
| "RunContentIndexer u pg (pe # pes) s =
     (case contentPass u pg pe s of
        (worked, s) \<Rightarrow>
          (if ps_ended pe then s
           else if worked then RunContentIndexer u pg pes s
           else case ps_wake pe of
                  CtxDone \<Rightarrow> s
                | Kicked \<Rightarrow> RunContentIndexer u pg pes (s\<lparr>s_kick := False\<rparr>)
                | IdleOver \<Rightarrow> RunContentIndexer u pg pes s))"

section \<open>Handlers\<close>

definition handleContentStatus ::
  "unicode \<Rightarrow> (string \<Rightarrow> string) \<Rightarrow> fault \<Rightarrow> fault \<Rightarrow> fault \<Rightarrow> fault \<Rightarrow> server \<Rightarrow> (bool \<times> content_progress list) resp" where
  "handleContentStatus pg coll f0 f1 f2 f3 s =
     (case ContentSettings f0 (s_db s) of
        Inl e \<Rightarrow> Inl (500, err_text e)
      | Inr cs \<Rightarrow>
          (case ContentProgress pg coll f1 f2 f3 Supported (MaxFileBytes cs) (s_db s) of
             Inl e \<Rightarrow> Inl (500, err_text e)
           | Inr progress \<Rightarrow> Inr (200, (Paused cs, progress))))"

definition handleContentRetry :: "fault \<Rightarrow> string \<Rightarrow> server \<Rightarrow> int resp \<times> server" where
  "handleContentRetry flt raw s =
     (case parseVolumeID raw of
        Inl _ \<Rightarrow> (Inl (400, ''invalid volume id''), s)
      | Inr i \<Rightarrow>
          (case RetryFailedContent flt i (s_db s) of
             (Inl e, d) \<Rightarrow> (Inl (500, err_text e), set_db d s)
           | (Inr n, d) \<Rightarrow> (Inr (200, n), kickContent (set_db d s))))"

section \<open>What one file's job records\<close>

text \<open>Status, reason and text an extraction ends with\<close>

definition outcome :: "unicode \<Rightarrow> content_settings \<Rightarrow> job_env \<Rightarrow> pending_file \<Rightarrow> string \<times> string \<times> string list" where
  "outcome u cs je f =
     (if MaxFileBytes cs < pf_size f then (ContentSkipped, too_large, [])
      else case extractFile u je cs f of
             Inr text \<Rightarrow> if trim_space text = [] then (ContentSkipped, ''no_text'', []) else (ContentDone, [], Chunk text ChunkSize)
           | Inl e \<Rightarrow>
               (if e = ErrEncrypted then (ContentSkipped, ''encrypted'', [])
                else if e = ErrBinary \<or> e = ErrUnsupported then (ContentSkipped, ''unsupported'', [])
                else (ContentFailed, truncateReason (err_string e), [])))"

definition outcome_row :: "unicode \<Rightarrow> content_settings \<Rightarrow> job_env \<Rightarrow> pending_file \<Rightarrow> content_row" where
  "outcome_row u cs je f =
     (case outcome u cs je f of
        (status, reason, ts) \<Rightarrow>
          \<lparr>cs_volume = pf_volume f, cs_path = pf_path f, cs_size = pf_size f, cs_mod_time = pf_mod_time f,
           cs_status = status, cs_reason = null_if_empty reason, cs_chunk_count = length ts, cs_indexed_at = je_now je\<rparr>)"

definition outcome_chunks :: "unicode \<Rightarrow> content_settings \<Rightarrow> job_env \<Rightarrow> pending_file \<Rightarrow> chunk_row list" where
  "outcome_chunks u cs je f = chunk_rows (pf_volume f) (pf_path f) (snd (snd (outcome u cs je f)))"

definition saved_outcome :: "unicode \<Rightarrow> content_settings \<Rightarrow> job_env \<Rightarrow> pending_file \<Rightarrow> db \<Rightarrow> db" where
  "saved_outcome u cs je f d =
     (case outcome u cs je f of
        (status, reason, ts) \<Rightarrow> saved (je_now je) (pf_volume f) (pf_path f) (pf_size f) (pf_mod_time f) status reason ts d)"

definition job_runs :: "job_env \<Rightarrow> bool" where
  "job_runs je \<longleftrightarrow> je_fault je = None \<and> \<not> je_ended je"

lemma recordContent_fault:
  "recordContent (SaveContent (Some e) now vol p sz mt ts (s_db s)) s = (False, s)"
  "status = ContentSkipped \<or> status = ContentFailed \<Longrightarrow>
   recordContent (SaveContentSkip (Some e) now vol p sz mt status reason (s_db s)) s = (False, s)"
  by (auto simp: recordContent_def SaveContent_def SaveContentSkip_def set_db_def)

lemma recordContent_saves:
  assumes "db_ok (s_db s)" "(vol, p) \<in> file_key ` set (files (s_db s))"
  shows "recordContent (SaveContent None now vol p sz mt ts (s_db s)) s =
      (True, set_db (saved now vol p sz mt ContentDone [] ts (s_db s)) s)"
    "status = ContentSkipped \<or> status = ContentFailed \<Longrightarrow>
     recordContent (SaveContentSkip None now vol p sz mt status reason (s_db s)) s =
      (True, set_db (saved now vol p sz mt status reason [] (s_db s)) s)"
  using assms by (simp_all add: recordContent_def SaveContent_eq SaveContentSkip_eq)

lemma indexOne_cases:
  assumes "db_ok (s_db s)" "r \<in> set (files (s_db s))"
  shows "indexOne u cs je (pending_of r) s = (True, set_db (saved_outcome u cs je (pending_of r) (s_db s)) s) \<or>
    indexOne u cs je (pending_of r) s = (False, s) \<and> \<not> (job_runs je \<and> volumeRuntime (fVolume r) s \<noteq> None)"
proof -
  have k: "(pf_volume (pending_of r), pf_path (pending_of r)) \<in> file_key ` set (files (s_db s))"
    using assms(2) by (force simp: pending_of_def file_key_def)
  have v: "pf_volume (pending_of r) = fVolume r" by (simp add: pending_of_def)
  note saves = recordContent_saves [OF assms(1) k]
  show ?thesis
  proof (cases "je_fault je")
    case None
    show ?thesis using saves None
      by (auto simp: indexOne_def Let_def v saved_outcome_def outcome_def job_runs_def split: option.splits sum.splits extract_err.splits)
  next
    case (Some e)
    then have "indexOne u cs je (pending_of r) s = (False, s)"
      by (auto simp: indexOne_def Let_def recordContent_fault split: option.splits sum.splits extract_err.splits)
    then show ?thesis using Some by (simp add: job_runs_def)
  qed
qed

section \<open>What a set of jobs leaves behind\<close>

text \<open>\<open>recorded\<close>: exactly the files of \<open>R\<close> have got the record of their outcome, and nothing else changed.\<close>

definition recorded :: "unicode \<Rightarrow> content_settings \<Rightarrow> (pending_file \<Rightarrow> job_env) \<Rightarrow> file_row set \<Rightarrow> db \<Rightarrow> db \<Rightarrow> bool" where
  "recorded u cs env R d d' \<longleftrightarrow>
     db_ok d' \<and> files d' = files d \<and> volumes d' = volumes d \<and> settings d' = settings d \<and>
     (\<forall>r\<in>R. content_at d' (file_key r) = Some (outcome_row u cs (env (pending_of r)) (pending_of r)) \<and>
        chunks_at d' (file_key r) = outcome_chunks u cs (env (pending_of r)) (pending_of r)) \<and>
     (\<forall>k. k \<notin> file_key ` R \<longrightarrow> content_at d' k = content_at d k \<and> chunks_at d' k = chunks_at d k)"

lemma recorded_refl: "db_ok d \<Longrightarrow> recorded u cs env {} d d"
  by (simp add: recorded_def)

lemma file_key_inj: "db_ok d \<Longrightarrow> inj_on file_key (set (files d))"
  using db_ok_wf(2) [of d] by (simp add: tbl_wf_def distinct_map)

lemma recordedD:
  assumes "recorded u cs env R d d'"
  shows "db_ok d'" "files d' = files d" "volumes d' = volumes d" "settings d' = settings d"
    "r \<in> R \<Longrightarrow> content_at d' (file_key r) = Some (outcome_row u cs (env (pending_of r)) (pending_of r))"
    "r \<in> R \<Longrightarrow> chunks_at d' (file_key r) = outcome_chunks u cs (env (pending_of r)) (pending_of r)"
    "k \<notin> file_key ` R \<Longrightarrow> content_at d' k = content_at d k"
    "k \<notin> file_key ` R \<Longrightarrow> chunks_at d' k = chunks_at d k"
  using assms unfolding recorded_def by blast+

lemma recorded_trans:
  assumes "recorded u cs env R d d1" "recorded u cs env R' d1 d2" "R \<subseteq> set (files d)" "R' \<subseteq> set (files d)" "db_ok d"
  shows "recorded u cs env (R \<union> R') d d2"
proof -
  note a = recordedD [OF assms(1)] and b = recordedD [OF assms(2)]
  have other: "file_key r \<notin> file_key ` R'" if "r \<in> R" "r \<notin> R'" for r
    using that assms(3,4) file_key_inj [OF assms(5)] by (auto dest: inj_onD)
  have "content_at d2 (file_key r) = Some (outcome_row u cs (env (pending_of r)) (pending_of r)) \<and>
        chunks_at d2 (file_key r) = outcome_chunks u cs (env (pending_of r)) (pending_of r)" if "r \<in> R \<union> R'" for r
  proof (cases "r \<in> R'")
    case True
    then show ?thesis using b(5,6) by blast
  next
    case False
    then have "r \<in> R" using that by blast
    then show ?thesis using a(5,6) b(7,8) [OF other [OF _ False]] by metis
  qed
  moreover have "content_at d2 k = content_at d k \<and> chunks_at d2 k = chunks_at d k" if "k \<notin> file_key ` (R \<union> R')" for k
    using that a(7,8) [of k] b(7,8) [of k] by (auto simp: image_Un)
  ultimately show ?thesis unfolding recorded_def using a(1-4) b(1-4) by simp
qed

lemma recorded_one:
  assumes "db_ok d" "r \<in> set (files d)"
  shows "recorded u cs env {r} d (saved_outcome u cs (env (pending_of r)) (pending_of r) d)"
proof -
  let ?f = "pending_of r" and ?je = "env (pending_of r)"
  obtain status reason ts where o: "outcome u cs ?je ?f = (status, reason, ts)" by (metis prod_cases3)
  have f: "pf_volume ?f = fVolume r" "pf_path ?f = fPath r" by (simp_all add: pending_of_def)
  have k: "(fVolume r, fPath r) \<in> file_key ` set (files d)" using assms(2) by (force simp: file_key_def)
  show ?thesis unfolding recorded_def saved_outcome_def o split_conv f
    using saved_ok [OF assms(1) k]
    by (simp add: content_at_saved [OF assms(1)] chunks_at_saved outcome_row_def outcome_chunks_def o f file_key_def)
      (simp add: saved_def)
qed

lemma recorded_server: "s_volumes (set_db d s) = s_volumes s" "s_rts (set_db d s) = s_rts s" "s_db (set_db d s) = d"
    "set_db d (set_db d' s) = set_db d s" "volumeRuntime v (set_db d s) = volumeRuntime v s" "set_db (s_db s) s = s"
  by (simp_all add: set_db_def volumeRuntime_def)

lemma run_jobs_step:
  assumes "running @ take (w - length running) queue = run" "drop (w - length running) queue = q" "run \<noteq> []"
    and "(case sched of [] \<Rightarrow> 0 | i # _ \<Rightarrow> i) mod length run = k" "job (run ! k) s = (ok, s1)"
  shows "run_jobs job w sched queue running n s =
    run_jobs job w (tl sched) q (take k run @ drop (Suc k) run) (if ok then Suc n else n) s1"
  using assms by (subst run_jobs.simps) (simp only: Let_def if_False split_conv)

lemma run_jobs_empty [simp]: "run_jobs job w sched [] [] n s = (n, s)"
  by (simp add: run_jobs.simps)

text \<open>The pool does the jobs one after the other in some order.\<close>

fun do_jobs :: "('j \<Rightarrow> 's \<Rightarrow> bool \<times> 's) \<Rightarrow> 'j list \<Rightarrow> nat \<Rightarrow> 's \<Rightarrow> nat \<times> 's" where
  "do_jobs job [] n s = (n, s)"
| "do_jobs job (j # js) n s = (case job j s of (ok, t) \<Rightarrow> do_jobs job js (if ok then Suc n else n) t)"

lemma mset_remove_nth: "k < length xs \<Longrightarrow> mset xs = add_mset (xs ! k) (mset (take k xs @ drop (Suc k) xs))"
  by (metis id_take_nth_drop mset.simps(2) mset_append union_mset_add_mset_right)

lemma run_jobs_order:
  "\<exists>js. mset js \<subseteq># mset queue + mset running \<and> (0 < w \<longrightarrow> mset js = mset queue + mset running) \<and>
     run_jobs job w sched queue running n s = do_jobs job js n s"
proof (induction "length queue + length running" arbitrary: sched queue running n s rule: less_induct)
  case less
  let ?run = "running @ take (w - length running) queue" and ?q = "drop (w - length running) queue"
  let ?k = "(case sched of [] \<Rightarrow> 0 | i # _ \<Rightarrow> i) mod length ?run"
  let ?rest = "take ?k ?run @ drop (Suc ?k) ?run"
  have sets: "mset queue + mset running = mset ?q + mset ?run"
    by (metis add.commute append_take_drop_id mset_append union_assoc)
  show ?case
  proof (cases "?run = []")
    case True
    then have "run_jobs job w sched queue running n s = do_jobs job [] n s"
      by (subst run_jobs.simps) (simp only: Let_def True refl if_True do_jobs.simps)
    moreover have "0 < w \<longrightarrow> queue = [] \<and> running = []" using True by auto
    ultimately show ?thesis by (intro exI [of _ "[]"]) simp
  next
    case False
    let ?r = "?run ! ?k"
    obtain ok s1 where j: "job ?r s = (ok, s1)" by fastforce
    have k: "?k < length ?run" using False by simp
    have eq: "run_jobs job w sched queue running n s = run_jobs job w (tl sched) ?q ?rest (if ok then Suc n else n) s1"
      by (rule run_jobs_step [where job = job and s = s and sched = sched, OF refl refl False refl j])
    have "length ?run = Suc (length ?rest)"
      using arg_cong [OF mset_remove_nth [OF k], of size] by (simp only: size_mset size_add_mset)
    moreover have "length queue + length running = length ?q + length ?run"
      using arg_cong [OF sets, of size] by (simp only: size_union size_mset)
    ultimately have len: "length ?q + length ?rest < length queue + length running" by linarith
    from less [OF len, of "tl sched" "if ok then Suc n else n" s1] obtain js where
      js: "mset js \<subseteq># mset ?q + mset ?rest" "0 < w \<longrightarrow> mset js = mset ?q + mset ?rest"
        "run_jobs job w (tl sched) ?q ?rest (if ok then Suc n else n) s1 = do_jobs job js (if ok then Suc n else n) s1"
      by blast
    have m: "mset queue + mset running = add_mset ?r (mset ?q + mset ?rest)"
      unfolding sets by (subst mset_remove_nth [OF k]) simp
    show ?thesis using js j eq unfolding m by (intro exI [of _ "?r # js"]) simp
  qed
qed

lemma do_jobs_recorded:
  assumes "do_jobs (\<lambda>r. indexOne u cs (env (pending_of r)) (pending_of r)) rs n s = (n', s')"
    and "db_ok (s_db s)" "set rs \<subseteq> set (files (s_db s))" "distinct rs"
  shows "\<exists>R \<subseteq> set rs. n' = n + card R \<and> s' = set_db (s_db s') s \<and> recorded u cs env R (s_db s) (s_db s') \<and>
    ((\<forall>r \<in> set rs. job_runs (env (pending_of r)) \<and> volumeRuntime (fVolume r) s \<noteq> None) \<longrightarrow> R = set rs)"
  using assms
proof (induction rs arbitrary: n s)
  case Nil
  then show ?case using recorded_refl [OF Nil(2)] by (simp add: recorded_server)
next
  case (Cons r rs)
  let ?job = "\<lambda>r. indexOne u cs (env (pending_of r)) (pending_of r)"
  have r: "r \<in> set (files (s_db s))" using Cons.prems(3) by simp
  from indexOne_cases [OF Cons.prems(2) r, of u cs "env (pending_of r)"] show ?case
  proof (elim disjE conjE)
    let ?d = "saved_outcome u cs (env (pending_of r)) (pending_of r) (s_db s)"
    assume j: "?job r s = (True, set_db ?d s)"
    note one = recorded_one [OF Cons.prems(2) r, of u cs env]
    have eq: "do_jobs ?job rs (Suc n) (set_db ?d s) = (n', s')" using Cons.prems(1) j by simp
    have p: "db_ok (s_db (set_db ?d s))" "set rs \<subseteq> set (files (s_db (set_db ?d s)))" "distinct rs"
      using recordedD(1,2) [OF one] Cons.prems(3,4) by (auto simp: recorded_server)
    from Cons.IH [OF eq p] obtain R where R: "R \<subseteq> set rs" "n' = Suc n + card R" "s' = set_db (s_db s') (set_db ?d s)"
        "recorded u cs env R ?d (s_db s')"
        "(\<forall>r \<in> set rs. job_runs (env (pending_of r)) \<and> volumeRuntime (fVolume r) (set_db ?d s) \<noteq> None) \<longrightarrow> R = set rs"
      by (auto simp: recorded_server)
    have "r \<notin> R" "finite R" using R(1) Cons.prems(4) finite_subset by auto
    then have c: "n' = n + card (insert r R)" using R(2) by simp
    have "recorded u cs env ({r} \<union> R) (s_db s) (s_db s')"
      by (rule recorded_trans [OF one R(4)]) (use R(1) Cons.prems in auto)
    then show ?thesis using R(1,3,5) c by (intro exI [of _ "insert r R"]) (auto simp: recorded_server)
  next
    assume j: "?job r s = (False, s)" and no: "\<not> (job_runs (env (pending_of r)) \<and> volumeRuntime (fVolume r) s \<noteq> None)"
    have eq: "do_jobs ?job rs n s = (n', s')" using Cons.prems(1) j by simp
    from Cons.IH [OF eq] Cons.prems obtain R where "R \<subseteq> set rs" "n' = n + card R" "s' = set_db (s_db s') s"
        "recorded u cs env R (s_db s) (s_db s')" by auto
    then show ?thesis using no by auto
  qed
qed

lemma run_jobs_map: "run_jobs job w sched (map g queue) (map g running) n s = run_jobs (\<lambda>x. job (g x)) w sched queue running n s"
proof (induction "length queue + length running" arbitrary: sched queue running n s rule: less_induct)
  case less
  let ?run = "running @ take (w - length running) queue" and ?q = "drop (w - length running) queue"
  let ?k = "(case sched of [] \<Rightarrow> 0 | i # _ \<Rightarrow> i) mod length ?run"
  let ?rest = "take ?k ?run @ drop (Suc ?k) ?run"
  have m: "map g running @ take (w - length (map g running)) (map g queue) = map g ?run"
      "drop (w - length (map g running)) (map g queue) = map g ?q"
    by (simp_all add: take_map drop_map)
  show ?case
  proof (cases "?run = []")
    case True
    then show ?thesis by (subst (1 2) run_jobs.simps) (simp only: Let_def m True refl if_True list.map)
  next
    case False
    have k: "?k < length ?run" using False by simp
    obtain ok s1 where j: "job (g (?run ! ?k)) s = (ok, s1)" by fastforce
    have "length ?run = Suc (length ?rest)"
      using arg_cong [OF mset_remove_nth [OF k], of size] by (simp only: size_mset size_add_mset)
    then have len: "length ?q + length ?rest < length queue + length running"
      using arg_cong [OF append_take_drop_id [of "w - length running" queue], of length]
      by (simp only: length_append)
    have "run_jobs job w sched (map g queue) (map g running) n s =
        run_jobs job w (tl sched) (map g ?q) (map g ?rest) (if ok then Suc n else n) s1"
    proof -
      have "map g ?run \<noteq> []" "(case sched of [] \<Rightarrow> 0 | i # _ \<Rightarrow> i) mod length (map g ?run) = ?k" "job (map g ?run ! ?k) s = (ok, s1)"
        using False j nth_map [OF k, of g] by (simp_all only: map_is_Nil_conv length_map not_False_eq_True)
      note step = run_jobs_step [where job = job and s = s and sched = sched, OF m this]
      have "map g ?rest = take ?k (map g ?run) @ drop (Suc ?k) (map g ?run)"
        by (simp only: map_append [of g "take ?k ?run"] take_map drop_map)
      then show ?thesis by (simp only: step)
    qed
    also have "\<dots> = run_jobs (\<lambda>x. job (g x)) w (tl sched) ?q ?rest (if ok then Suc n else n) s1"
      by (rule less [OF len])
    also have "\<dots> = run_jobs (\<lambda>x. job (g x)) w sched queue running n s"
      by (rule run_jobs_step [where job = "\<lambda>x. job (g x)" and s = s and sched = sched, OF refl refl False refl j, symmetric])
    finally show ?thesis .
  qed
qed

section \<open>The queue\<close>

definition pending_rows :: "unicode \<Rightarrow> content_settings \<Rightarrow> int list \<Rightarrow> db \<Rightarrow> file_row list" where
  "pending_rows pg cs ids d =
     sort_key (\<lambda>r. (fVolume r, fPath r)) (filter (\<lambda>r. fVolume r \<in> set ids \<and> is_pending pg Supported (MaxFileBytes cs) d r) (files d))"

lemma PendingContent_rows:
  "PendingContent pg None ids Supported (MaxFileBytes cs) n d = Inr (map pending_of (take n (pending_rows pg cs ids d)))"
proof (cases "ids = [] \<or> Supported = []")
  case True
  then have "pending_rows pg cs ids d = []"
    by (auto simp: pending_rows_def is_pending_def eligible_def filter_empty_conv sort_key_def)
  then show ?thesis using True by (simp add: PendingContent_def)
qed (simp add: PendingContent_def pending_rows_def)

lemma pending_rows_set: "set (pending_rows pg cs ids d) \<subseteq> set (files d)"
  by (auto simp: pending_rows_def)

lemma pending_rows_distinct: "db_ok d \<Longrightarrow> distinct (pending_rows pg cs ids d)"
  using db_ok_wf(2) [of d] by (simp add: pending_rows_def tbl_wf_def distinct_map)

lemma not_pending_after:
  assumes "recorded u cs env R d d'" "r \<in> R"
  shows "\<not> is_pending pg exts (MaxFileBytes cs) d' r"
proof -
  have "content_at d' (file_key r) = Some (outcome_row u cs (env (pending_of r)) (pending_of r))"
    by (rule recordedD(5) [OF assms])
  then show ?thesis
    by (auto simp: is_pending_def outcome_row_def outcome_def pending_of_def fits_now_def null_if_empty_def too_large_def
        ContentSkipped_def ContentFailed_def ContentDone_def split: sum.splits if_splits)
qed

lemma pending_rows_after:
  assumes "recorded u cs env R d d'" "R \<subseteq> set (files d)" "db_ok d"
  shows "pending_rows pg cs ids d' = filter (\<lambda>r. r \<notin> R) (pending_rows pg cs ids d)"
proof -
  have "is_pending pg Supported (MaxFileBytes cs) d' r \<longleftrightarrow> r \<notin> R \<and> is_pending pg Supported (MaxFileBytes cs) d r"
    if "r \<in> set (files d)" for r
  proof (cases "r \<in> R")
    case False
    then have "file_key r \<notin> file_key ` R" using that assms(2) file_key_inj [OF assms(3)] by (auto dest: inj_onD)
    then show ?thesis using is_pending_eq recordedD(7) [OF assms(1)] False by metis
  qed (use not_pending_after [OF assms(1)] in simp)
  then have "filter (\<lambda>r. fVolume r \<in> set ids \<and> is_pending pg Supported (MaxFileBytes cs) d' r) (files d) =
      filter (\<lambda>r. r \<notin> R) (filter (\<lambda>r. fVolume r \<in> set ids \<and> is_pending pg Supported (MaxFileBytes cs) d r) (files d))"
    by (auto simp: filter_filter intro: filter_cong)
  then show ?thesis using recordedD(2) [OF assms(1)] by (simp add: pending_rows_def filter_sort)
qed

section \<open>Passes\<close>

lemma distinct_sub:
  assumes "mset xs \<subseteq># mset ys" "distinct ys"
  shows "distinct xs"
proof -
  obtain Z where "mset ys = mset xs + Z" using assms(1) by (auto simp: subset_mset.le_iff_add)
  moreover obtain zs where "Z = mset zs" by (metis ex_mset)
  ultimately have "mset ys = mset (xs @ zs)" by simp
  then show ?thesis using assms(2) mset_eq_imp_distinct_iff [of ys "xs @ zs"] by simp
qed

lemma indexable_runtime: "v \<in> set (indexableVolumeIDs flt s) \<Longrightarrow> volumeRuntime v s \<noteq> None"
  by (auto simp: indexableVolumeIDs_def split: sum.splits option.splits)

lemma contentPass_recorded:
  assumes "contentPass u pg pe s = (worked, s')" "db_ok (s_db s)"
  shows "s' = set_db (s_db s') s \<and>
    (case ContentSettings (ps_settings pe) (s_db s) of
       Inl e \<Rightarrow> \<not> worked \<and> s' = s
     | Inr cs \<Rightarrow> \<exists>R \<subseteq> set (take contentBatch (pending_rows pg cs (indexableVolumeIDs (ps_volumes pe) s) (s_db s))).
         recorded u cs (ps_job pe) R (s_db s) (s_db s') \<and> worked = (R \<noteq> {}) \<and>
         (\<not> Paused cs \<and> 0 < Workers cs \<and> ps_pending pe = None \<and> contentBatch \<le> ps_fed pe \<and> (\<forall>f. job_runs (ps_job pe f)) \<longrightarrow>
           R = set (take contentBatch (pending_rows pg cs (indexableVolumeIDs (ps_volumes pe) s) (s_db s)))))"
proof (cases "ContentSettings (ps_settings pe) (s_db s)")
  case (Inl e)
  then show ?thesis using assms(1) by (simp add: contentPass_def recorded_server)
next
  case (Inr cs)
  let ?ids = "indexableVolumeIDs (ps_volumes pe) s"
  let ?rows = "pending_rows pg cs ?ids (s_db s)"
  have none: "recorded u cs (ps_job pe) {} (s_db s) (s_db s)" by (rule recorded_refl [OF assms(2)])
  have rows: "?rows = []" if "?ids = []" using that by (simp add: pending_rows_def)
  show ?thesis
  proof (cases "Paused cs \<or> ?ids = [] \<or> ps_pending pe \<noteq> None")
    case True
    have "worked = False \<and> s' = s" using True assms(1) Inr
      by (auto simp: contentPass_def Let_def PendingContent_def split: if_splits option.splits prod.splits) 
    then show ?thesis using True none rows Inr by (auto simp: recorded_server)
  next
    case False
    let ?job = "\<lambda>r. indexOne u cs (ps_job pe (pending_of r)) (pending_of r)"
    let ?q = "take (ps_fed pe) (take contentBatch ?rows)"
    obtain n s1 where r: "run_jobs (\<lambda>f. indexOne u cs (ps_job pe f) f) (nat (Workers cs)) (ps_sched pe)
        (take (ps_fed pe) (map pending_of (take contentBatch ?rows))) [] 0 s = (n, s1)" by fastforce
    have ws: "worked = (0 < n)" "s' = s1" using assms(1) Inr False r
      by (auto simp: contentPass_def Let_def PendingContent_rows)
    have run: "run_jobs ?job (nat (Workers cs)) (ps_sched pe) ?q [] 0 s = (n, s1)"
      using r run_jobs_map [where job = "\<lambda>f. indexOne u cs (ps_job pe f) f" and w = "nat (Workers cs)" and sched = "ps_sched pe"
          and g = pending_of and queue = ?q and running = "[]" and n = 0 and s = s]
      by (simp only: take_map list.map)
    from run_jobs_order [where job = ?job and w = "nat (Workers cs)" and sched = "ps_sched pe" and queue = ?q and running = "[]"
          and n = 0 and s = s]
    obtain js where js: "mset js \<subseteq># mset ?q" "0 < nat (Workers cs) \<longrightarrow> mset js = mset ?q" "do_jobs ?job js 0 s = (n, s1)"
      unfolding run mset.simps(1) add_0_right by (elim exE conjE) (rule that, assumption, assumption, rule sym)
    have sub: "set js \<subseteq> set ?q" using js(1) by (metis mset_subset_eqD set_mset_mset subsetI)
    have "distinct ?q" using pending_rows_distinct [OF assms(2)] by simp
    then have dj: "distinct js" by (rule distinct_sub [OF js(1)])
    have files: "set js \<subseteq> set (files (s_db s))"
      using sub pending_rows_set by (meson in_set_takeD subset_iff)
    from do_jobs_recorded [OF js(3) assms(2) files dj] obtain R where R: "R \<subseteq> set js" "n = card R" "s1 = set_db (s_db s1) s"
        "recorded u cs (ps_job pe) R (s_db s) (s_db s1)"
        "(\<forall>r \<in> set js. job_runs (ps_job pe (pending_of r)) \<and> volumeRuntime (fVolume r) s \<noteq> None) \<longrightarrow> R = set js"
      by auto
    have fin: "finite R" using R(1) finite_subset by blast
    have rt: "volumeRuntime (fVolume r) s \<noteq> None" if "r \<in> set js" for r
    proof -
      have "r \<in> set ?rows" using that sub by (meson in_set_takeD subset_iff)
      then have "fVolume r \<in> set ?ids" by (simp add: pending_rows_def)
      then show ?thesis by (rule indexable_runtime)
    qed
    have all: "R = set (take contentBatch ?rows)"
      if "0 < Workers cs" "contentBatch \<le> ps_fed pe" "\<forall>f. job_runs (ps_job pe f)"
    proof -
      have "R = set js" using R(5) rt that(3) by blast
      also have "\<dots> = set ?q" using js(2) that(1) by (metis set_mset_mset zero_less_nat_eq)
      also have "?q = take contentBatch ?rows" using that(2) by simp
      finally show ?thesis .
    qed
    have "R \<subseteq> set (take contentBatch ?rows)" using R(1) sub by (meson in_set_takeD subset_iff)
    then show ?thesis using R(2,3,4) ws fin all Inr by (auto simp: card_gt_0_iff intro!: exI [of _ R])
  qed
qed

section \<open>A queue of two\<close>

definition queue_file :: "string \<Rightarrow> file_row" where
  "queue_file p = mk_row 0 ((example_file p 5)\<lparr>fExt := ''txt''\<rparr>)"

definition queue_server :: server where
  "queue_server = snd (start_finish 1 example_conn None (new_server
     (empty_db\<lparr>volumes := [example_volume\<lparr>v_content_index := True\<rparr>], files := [queue_file ''b.txt'', queue_file ''a.txt''],
        next_volume := 2\<rparr>)))"

definition queue_env :: "pending_file \<Rightarrow> job_env" where
  "queue_env f = \<lparr>je_run = (if pf_path f = ''b.txt'' then TimesOut else Finishes), je_reader = file_read_at ''hello'',
     je_packages = example_packages, je_ended = False, je_fault = None, je_now = 9\<rparr>"

definition queue_pass :: pass_env where
  "queue_pass = \<lparr>ps_settings = None, ps_volumes = None, ps_pending = None, ps_fed = 50, ps_sched = [1], ps_job = queue_env,
     ps_ended = False, ps_wake = IdleOver\<rparr>"

lemma queue_file_simps [simp]: "fPath (queue_file p) = p" "fSize (queue_file p) = 5" "fVolume (queue_file p) = 1"
    "fExt (queue_file p) = ''txt''" "fIsDir (queue_file p) = False" "file_key (queue_file p) = (1, p)"
  by (simp_all add: queue_file_def mk_row_def example_file_def file_key_def)

lemma queue_db_ok: "db_ok (s_db queue_server)"
  by (simp add: queue_server_def start_finish_def registerVolumeRuntime_def new_server_def db_ok_def empty_db_def
      tbl_wf_def example_volume_def Let_def)

lemma queue_settings: "ContentSettings None (s_db queue_server) = Inr DefaultContentSettings"
  by (simp add: ContentSettings_def queue_server_def start_finish_def registerVolumeRuntime_def new_server_def empty_db_def Let_def)

lemma queue_ids: "indexableVolumeIDs None queue_server = [1]"
  by (simp add: indexableVolumeIDs_def ListVolumes_def queue_server_def start_finish_def registerVolumeRuntime_def
      new_server_def empty_db_def example_volume_def scanVolume_def volumeRuntime_def new_runtime_def Let_def)

lemma txt_supported: "''txt'' \<in> set Supported"
proof -
  have "''txt'' \<in> set all_exts" by (simp add: all_exts_def add_calls_def row_exts_def)
  moreover have "with_extractor extractor_calls ''txt'' [] \<in> set extractor_names" by code_simp
  ultimately show ?thesis using ByExt_known Supported_iff by metis
qed

lemma queue_rows: "pending_rows ascii_tables DefaultContentSettings [1] (s_db queue_server) = [queue_file ''a.txt'', queue_file ''b.txt'']"
proof -
  have t: "to_lower ascii_tables ''txt'' = ''txt''" by code_simp
  have v: "visible_path ''a.txt''" "visible_path ''b.txt''" by code_simp+
  have c: "content_at (s_db queue_server) k = None" for k
    by (simp add: content_at_def tbl_get_def queue_server_def start_finish_def registerVolumeRuntime_def new_server_def empty_db_def Let_def)
  have f: "files (s_db queue_server) = [queue_file ''b.txt'', queue_file ''a.txt'']"
    by (simp add: queue_server_def start_finish_def registerVolumeRuntime_def new_server_def Let_def)
  have "is_pending ascii_tables Supported m (s_db queue_server) (queue_file p)" if "visible_path p" for p m
    using that t txt_supported by (simp add: is_pending_def c eligible_def)
  then show ?thesis using v unfolding pending_rows_def f by simp
qed

text \<open>A pass that reports work has shortened the queue of the volumes it read, from the front, by files
  whose outcome it recorded, touching no other file; one that reports none has left every file's record
  and text as they were. So the indexer, which only goes on at once after work, cannot loop on the same files,
  whatever fails.\<close>

theorem pass_shrinks_queue:
  assumes "db_ok (s_db s)" "ContentSettings (ps_settings pe) (s_db s) = Inr cs"
    and "contentPass u pg pe s = (worked, s')"
  shows "\<exists>R \<subseteq> set (take contentBatch (pending_rows pg cs (indexableVolumeIDs (ps_volumes pe) s) (s_db s))).
    recorded u cs (ps_job pe) R (s_db s) (s_db s') \<and> worked = (R \<noteq> {}) \<and>
    length (pending_rows pg cs (indexableVolumeIDs (ps_volumes pe) s) (s_db s')) + card R =
      length (pending_rows pg cs (indexableVolumeIDs (ps_volumes pe) s) (s_db s))"
proof -
  let ?rows = "pending_rows pg cs (indexableVolumeIDs (ps_volumes pe) s)"
  from contentPass_recorded [OF assms(3,1)] assms(2) obtain R where R:
    "R \<subseteq> set (take contentBatch (?rows (s_db s)))" "recorded u cs (ps_job pe) R (s_db s) (s_db s')" "worked = (R \<noteq> {})"
    by auto
  have sub: "R \<subseteq> set (?rows (s_db s))" using R(1) by (meson in_set_takeD subset_iff)
  then have files: "R \<subseteq> set (files (s_db s))" using pending_rows_set by blast
  have "distinct (?rows (s_db s))" by (rule pending_rows_distinct [OF assms(1)])
  then have "card R = length (filter (\<lambda>r. r \<in> R) (?rows (s_db s)))"
    using sub by (metis distinct_card distinct_filter inf.absorb_iff2 inf_commute set_filter Collect_conj_eq Collect_mem_eq)
  then show ?thesis using R pending_rows_after [OF R(2) files assms(1), of pg "indexableVolumeIDs (ps_volumes pe) s"]
      sum_length_filter_compl [of "\<lambda>r. r \<in> R" "?rows (s_db s)"]
    by (intro exI [of _ R]) simp
qed

theorem pass_shrinks_queue_witness:
  "case contentPass ascii_tables ascii_tables queue_pass queue_server of
     (worked, s') \<Rightarrow> worked = (length (pending_rows ascii_tables DefaultContentSettings [1] (s_db s')) < 2) \<and>
       db_ok (s_db s')"
proof -
  obtain worked s' where p: "contentPass ascii_tables ascii_tables queue_pass queue_server = (worked, s')" by fastforce
  have "ContentSettings (ps_settings queue_pass) (s_db queue_server) = Inr DefaultContentSettings"
    using queue_settings by (simp add: queue_pass_def)
  from pass_shrinks_queue [OF queue_db_ok this p] have "\<exists>R.
    R \<subseteq> set [queue_file ''a.txt'', queue_file ''b.txt''] \<and> recorded ascii_tables DefaultContentSettings queue_env R (s_db queue_server) (s_db s') \<and>
    worked = (R \<noteq> {}) \<and> length (pending_rows ascii_tables DefaultContentSettings [1] (s_db s')) + card R = 2"
    by (simp add: queue_pass_def queue_ids queue_rows contentBatch_def numeral_2_eq_2)
  then obtain R where R: "R \<subseteq> set [queue_file ''a.txt'', queue_file ''b.txt''] \<and>
    recorded ascii_tables DefaultContentSettings queue_env R (s_db queue_server) (s_db s') \<and>
    worked = (R \<noteq> {}) \<and> length (pending_rows ascii_tables DefaultContentSettings [1] (s_db s')) + card R = 2"
    by (rule exE)
  have "finite R" using R finite_subset by (metis List.finite_set)
  then have "R = {} \<longleftrightarrow> card R = 0" by simp
  moreover have "db_ok (s_db s')" using R recordedD(1) by blast
  ultimately show ?thesis using R by (simp add: p) linarith
qed

section \<open>Draining the queue\<close>

text \<open>A pass in which nothing goes wrong but what is the files' own fault\<close>

definition pass_runs :: "(pending_file \<Rightarrow> job_env) \<Rightarrow> pass_env \<Rightarrow> bool" where
  "pass_runs env pe \<longleftrightarrow> ps_settings pe = None \<and> ps_volumes pe = None \<and> ps_pending pe = None \<and> contentBatch \<le> ps_fed pe \<and>
     ps_job pe = env \<and> \<not> ps_ended pe \<and> ps_wake pe \<noteq> CtxDone"

lemma ids_cong:
  "volumes (s_db s') = volumes (s_db s) \<Longrightarrow> s_volumes s' = s_volumes s \<Longrightarrow> s_rts s' = s_rts s \<Longrightarrow>
   indexableVolumeIDs flt s' = indexableVolumeIDs flt s"
  by (simp add: indexableVolumeIDs_def ListVolumes_def volumeRuntime_def split: option.split)

lemma settings_cong: "settings d' = settings d \<Longrightarrow> ContentSettings flt d' = ContentSettings flt d"
  by (simp add: ContentSettings_def split: option.split)

lemma filter_not_take: "distinct xs \<Longrightarrow> filter (\<lambda>x. x \<notin> set (take n xs)) xs = drop n xs"
proof (induction xs arbitrary: n)
  case (Cons x xs)
  then show ?case
  proof (cases n)
    case (Suc m)
    have "filter (\<lambda>y. y \<noteq> x \<and> y \<notin> set (take m xs)) xs = filter (\<lambda>y. y \<notin> set (take m xs)) xs"
      using Cons.prems by (auto intro: filter_cong)
    then show ?thesis using Cons Suc by simp
  qed simp
qed simp

lemma indexer_runs:
  assumes "ContentSettings None (s_db s) = Inr cs" "\<not> Paused cs" "0 < Workers cs" "\<forall>f. job_runs (env f)"
    and "list_all (pass_runs env) pes" "db_ok (s_db s)"
  shows "let ids = indexableVolumeIDs None s; d' = s_db (RunContentIndexer u pg pes s)
    in recorded u cs env (set (take (contentBatch * length pes) (pending_rows pg cs ids (s_db s)))) (s_db s) d' \<and>
       pending_rows pg cs ids d' = drop (contentBatch * length pes) (pending_rows pg cs ids (s_db s))"
  using assms(1,5,6)
proof (induction pes arbitrary: s)
  case Nil
  then show ?case by (simp add: recorded_refl)
next
  case (Cons pe pes)
  let ?ids = "indexableVolumeIDs None s" and ?rows = "pending_rows pg cs (indexableVolumeIDs None s) (s_db s)"
  have pe: "pass_runs env pe" using Cons.prems(2) by simp
  obtain worked s1 where p: "contentPass u pg pe s = (worked, s1)" by fastforce
  have rec: "recorded u cs env (set (take contentBatch ?rows)) (s_db s) (s_db s1)" and s1: "s1 = set_db (s_db s1) s"
    using contentPass_recorded [OF p Cons.prems(3)] pe Cons.prems(1) assms(2-4) unfolding pass_runs_def by auto
  have files: "set (take contentBatch ?rows) \<subseteq> set (files (s_db s))"
    using pending_rows_set by (meson in_set_takeD subset_iff)
  have rows1: "pending_rows pg cs ?ids (s_db s1) = drop contentBatch ?rows"
    using pending_rows_after [OF rec files Cons.prems(3)] filter_not_take [OF pending_rows_distinct [OF Cons.prems(3)]] by simp
  obtain s2 where s2: "RunContentIndexer u pg (pe # pes) s = RunContentIndexer u pg pes s2" "s_db s2 = s_db s1"
      "s_volumes s2 = s_volumes s" "s_rts s2 = s_rts s"
  proof -
    have same: "s_volumes s1 = s_volumes s" "s_rts s1 = s_rts s" using s1 recorded_server(1,2) by metis+
    show ?thesis
    proof (cases "\<not> worked \<and> ps_wake pe = Kicked")
      case True
      then show ?thesis using that [of "s1\<lparr>s_kick := False\<rparr>"] p pe same by (simp add: pass_runs_def)
    next
      case False
      then show ?thesis using that [of s1] p pe same by (cases "ps_wake pe") (auto simp: pass_runs_def)
    qed
  qed
  have ids2: "indexableVolumeIDs None s2 = ?ids"
    by (rule ids_cong) (use s2 recordedD(3) [OF rec] in simp_all)
  have cs2: "ContentSettings None (s_db s2) = Inr cs"
    using settings_cong recordedD(4) [OF rec] Cons.prems(1) s2(2) by metis
  have "list_all (pass_runs env) pes" "db_ok (s_db s2)" using Cons.prems(2) recordedD(1) [OF rec] s2(2) by simp_all
  from Cons.IH [OF cs2 this] have ih:
    "recorded u cs env (set (take (contentBatch * length pes) (drop contentBatch ?rows))) (s_db s1) (s_db (RunContentIndexer u pg pes s2))"
    "pending_rows pg cs ?ids (s_db (RunContentIndexer u pg pes s2)) = drop (contentBatch * length pes) (drop contentBatch ?rows)"
    by (simp_all add: Let_def ids2 s2(2) rows1)
  have "set (take (contentBatch * length pes) (drop contentBatch ?rows)) \<subseteq> set (files (s_db s))"
    using pending_rows_set by (meson in_set_dropD in_set_takeD subset_iff)
  from recorded_trans [OF rec ih(1) files this Cons.prems(3)]
  have "recorded u cs env (set (take (contentBatch + contentBatch * length pes) ?rows)) (s_db s) (s_db (RunContentIndexer u pg pes s2))"
    by (simp add: take_add)
  then show ?case using ih(2) unfolding Let_def s2(1) by (simp add: add.commute)
qed

text \<open>C7: while the indexer runs undisturbed and is not paused, it empties the queue of the volumes it may read in
  as many passes as there are batches of fifty, whatever order its workers finish in: each queued file ends
  with the record of its own outcome, done with the chunks of its text or skipped or failed with the reason, and
  nothing else changes.\<close>

theorem indexer_drains:
  assumes "ContentSettings None (s_db s) = Inr cs" "\<not> Paused cs" "0 < Workers cs" "\<forall>f. job_runs (env f)"
    and "list_all (pass_runs env) pes" "db_ok (s_db s)"
    and "length (pending_rows pg cs (indexableVolumeIDs None s) (s_db s)) \<le> contentBatch * length pes"
  shows "recorded u cs env (set (pending_rows pg cs (indexableVolumeIDs None s) (s_db s))) (s_db s)
      (s_db (RunContentIndexer u pg pes s)) \<and>
    pending_rows pg cs (indexableVolumeIDs None s) (s_db (RunContentIndexer u pg pes s)) = []"
  using indexer_runs [OF assms(1-6), of u pg] assms(7) by (simp add: Let_def)

theorem indexer_drains_witness:
  "let d' = s_db (RunContentIndexer ascii_tables ascii_tables [queue_pass] queue_server)
   in pending_rows ascii_tables DefaultContentSettings [1] (s_db queue_server) \<noteq> [] \<and>
      pending_rows ascii_tables DefaultContentSettings [1] d' = [] \<and>
      map_option (\<lambda>c. (cs_status c, cs_reason c)) (content_at d' (1, ''b.txt'')) = Some (ContentFailed, Some ''timed out reading the file'')"
proof -
  let ?d' = "s_db (RunContentIndexer ascii_tables ascii_tables [queue_pass] queue_server)"
  have e: "\<forall>f. job_runs (queue_env f)" by (simp add: job_runs_def queue_env_def)
  have p: "list_all (pass_runs queue_env) [queue_pass]" by (simp add: pass_runs_def queue_pass_def contentBatch_def)
  have d: "\<not> Paused DefaultContentSettings" "0 < Workers DefaultContentSettings" by (simp_all add: DefaultContentSettings_def)
  have l: "length (pending_rows ascii_tables DefaultContentSettings (indexableVolumeIDs None queue_server) (s_db queue_server))
      \<le> contentBatch * length [queue_pass]" by (simp add: queue_ids queue_rows contentBatch_def)
  note drained = indexer_drains [OF queue_settings d e p queue_db_ok l, unfolded queue_ids queue_rows]
  let ?b = "queue_file ''b.txt''"
  have "content_at ?d' (file_key ?b) = Some (outcome_row ascii_tables DefaultContentSettings (queue_env (pending_of ?b)) (pending_of ?b))"
    using drained [of ascii_tables] by (intro recordedD(5)) auto
  moreover have "truncateReason ''timed out reading the file'' = ''timed out reading the file''" by code_simp
  moreover have "pf_path (pending_of ?b) = ''b.txt''" "pf_size (pending_of ?b) = 5"
    by (simp_all add: pending_of_def)
  moreover have "\<not> MaxFileBytes DefaultContentSettings < 5" by (simp add: DefaultContentSettings_def)
  moreover have "pending_rows ascii_tables DefaultContentSettings [1] ?d' = []" using drained [of ascii_tables] by blast
  ultimately show ?thesis unfolding Let_def queue_rows
    by (simp add: outcome_row_def outcome_def extractFile_def queue_env_def err_string_def null_if_empty_def
        del: RunContentIndexer.simps)
qed

end
