(* ===== verification/ContentSearch.thy ===== *)
theory ContentSearch
  imports IndexQuery IndexSafety
begin

text \<open>
  Full-text search over the extracted chunks (internal/index/contentsearch.go). Building the tsquery is
  modelled in full. Postgres's text search is a parameter: whether a chunk's body matches a query, its
  rank (compared only) and its highlighted passage. Where a file has several best chunks the model
  takes the first of the table.
\<close>

record text_search =
  ft_match :: "string \<Rightarrow> string \<Rightarrow> bool"
  ft_rank :: "string \<Rightarrow> string \<Rightarrow> int"
  ft_headline :: "string \<Rightarrow> string \<Rightarrow> string"

section \<open>From what was typed to a tsquery\<close>

definition maxQueryTokens :: nat where "maxQueryTokens = 16"
definition minTermLen :: nat where "minTermLen = 2"

definition quote :: char where "quote = CHR 0x27"
definition amp :: string where "amp = '' & ''"

definition word_rune :: "unicode \<Rightarrow> nat \<Rightarrow> bool" where
  "word_rune u r \<longleftrightarrow> is_letter u r \<or> is_digit u r"

definition query_tokens :: "unicode \<Rightarrow> string \<Rightarrow> string list" where
  "query_tokens u q = take maxQueryTokens (fields_func (\<lambda>r. \<not> word_rune u r) (to_lower u q))"

definition is_long :: "string \<Rightarrow> bool" where
  "is_long t \<longleftrightarrow> minTermLen \<le> length (runes t)"

definition ts_part :: "nat \<Rightarrow> nat \<times> string \<Rightarrow> string" where
  "ts_part n = (\<lambda>(i, t). [quote] @ t @ [quote] @ (if i + 1 = n \<and> is_long t then '':*'' else []))"

definition tsQuery :: "unicode \<Rightarrow> string \<Rightarrow> string" where
  "tsQuery u q =
     (let tokens = query_tokens u q
      in if \<not> list_ex is_long tokens then []
         else join amp (map (ts_part (length tokens)) (enumerate 0 tokens)))"

section \<open>The query\<close>

record content_match =
  cm_file :: File
  cm_snippet :: string
  cm_chunk :: nat

definition content_keep :: "unicode \<Rightarrow> int \<Rightarrow> string \<Rightarrow> bool \<Rightarrow> time_range \<Rightarrow> file_row \<Rightarrow> bool" where
  "content_keep pg vol q includeHidden modified r \<longleftrightarrow>
     \<not> ilike pg (fName r) (pct # likeEscape q @ [pct]) \<and>
     (vol = 0 \<or> fVolume r = vol) \<and>
     (tr_from modified = 0 \<or> tr_from modified \<le> fModTime r) \<and>
     (tr_to modified = 0 \<or> fModTime r < tr_to modified) \<and>
     (includeHidden \<or> visible_path (fPath r))"

definition best_chunk :: "text_search \<Rightarrow> string \<Rightarrow> chunk_row list \<Rightarrow> chunk_row option" where
  "best_chunk fts tq cs =
     (case sort_key (\<lambda>c. - ft_rank fts tq (ch_body c)) (filter (\<lambda>c. ft_match fts tq (ch_body c)) cs) of
        [] \<Rightarrow> None
      | c # _ \<Rightarrow> Some c)"

definition best_rows :: "text_search \<Rightarrow> string \<Rightarrow> (file_row \<Rightarrow> bool) \<Rightarrow> db \<Rightarrow> (file_row \<times> chunk_row) list" where
  "best_rows fts tq keep d =
     List.map_filter (\<lambda>r. map_option (Pair r) (best_chunk fts tq (filter (\<lambda>c. ch_file c = file_key r) (chunks d))))
       (filter keep (files d))"

definition match_of :: "text_search \<Rightarrow> string \<Rightarrow> file_row \<times> chunk_row \<Rightarrow> content_match" where
  "match_of fts tq = (\<lambda>(r, c). \<lparr>cm_file = row_file r, cm_snippet = ft_headline fts tq (ch_body c), cm_chunk = ch_seq c\<rparr>)"

definition SearchContent ::
  "unicode \<Rightarrow> unicode \<Rightarrow> text_search \<Rightarrow> fault \<Rightarrow> int \<Rightarrow> string \<Rightarrow> int \<Rightarrow> bool \<Rightarrow> time_range \<Rightarrow> db
    \<Rightarrow> index_err + content_match list" where
  "SearchContent u pg fts flt vol q lim includeHidden modified d =
     (let tq = tsQuery u q
      in if tq = [] then Inr []
         else let lim = (if lim \<le> 0 \<or> 500 < lim then 100 else lim)
              in case flt of
                   Some e \<Rightarrow> Inl (DbErr e)
                 | None \<Rightarrow> Inr (map (match_of fts tq) (take (nat lim)
                     (sort_key (\<lambda>(r, c). (- ft_rank fts tq (ch_body c), fVolume r, fPath r))
                       (best_rows fts tq (content_keep pg vol q includeHidden modified) d)))))"

section \<open>The words of a query\<close>

definition plain_rune :: "nat \<Rightarrow> nat" where
  "plain_rune r = (if valid_rune r then r else rune_error)"

lemma encode_plain: "encode_rune (plain_rune r) = encode_rune r"
  by (simp add: plain_rune_def encode_rune_invalid)

lemma valid_plain: "valid_rune (plain_rune r)"
  by (simp add: plain_rune_def valid_rune_def rune_error_def)

lemma to_lower_encoded: "to_lower u s = concat (map encode_rune (map (\<lambda>r. plain_rune (lower_rune u r)) (runes s)))"
  by (simp add: to_lower_def strings_map_def encode_plain o_def)

lemma fields_encoded:
  assumes "\<forall>r \<in> set rs. valid_rune r" "\<forall>r \<in> set as. valid_rune r \<and> \<not> P r"
    and "p \<in> set (fields_steps P (concat (map encode_rune as)) (map (\<lambda>r. (r, encode_rune r)) rs))"
  shows "p \<noteq> [] \<and> (\<exists>ps. p = concat (map encode_rune ps) \<and> (\<forall>r \<in> set ps. valid_rune r \<and> \<not> P r))"
  using assms
proof (induction rs arbitrary: as)
  case Nil
  then show ?case by (auto split: if_splits)
next
  case (Cons r rs)
  show ?case
  proof (cases "P r")
    case True
    then consider "p = concat (map encode_rune as)" "p \<noteq> []"
      | "p \<in> set (fields_steps P [] (map (\<lambda>r. (r, encode_rune r)) rs))"
      using Cons.prems(3) by (auto split: if_splits)
    then show ?thesis
    proof cases
      case 2
      then show ?thesis using Cons.IH [of "[]"] Cons.prems(1) by simp
    qed (use Cons.prems(2) in blast)
  next
    case False
    then show ?thesis using Cons.IH [of "as @ [r]"] Cons.prems by auto
  qed
qed

lemma token_runes:
  assumes "t \<in> set (query_tokens u q)"
  shows "t \<noteq> [] \<and> list_all (word_rune u) (runes t) \<and> valid_utf8 t \<and> quote \<notin> set t \<and> CHR '' '' \<notin> set t"
proof -
  let ?rs = "map (\<lambda>r. plain_rune (lower_rune u r)) (runes q)"
  have v: "\<forall>r \<in> set ?rs. valid_rune r" by (simp add: valid_plain)
  have "t \<in> set (fields_steps (\<lambda>r. \<not> word_rune u r) [] (map (\<lambda>r. (r, encode_rune r)) ?rs))"
    using assms in_set_takeD
    by (fastforce simp: query_tokens_def fields_func_def to_lower_encoded rune_steps_encoded [OF v] simp del: map_map)
  then obtain ps where p: "t \<noteq> []" "t = concat (map encode_rune ps)" "\<forall>r \<in> set ps. valid_rune r \<and> word_rune u r"
    using fields_encoded [OF v, of "[]" "\<lambda>r. \<not> word_rune u r" t] by auto
  have "runes t = ps" using p rune_steps_encoded [of ps] by (simp add: runes_def o_def)
  moreover have "c \<notin> set t" if c: "bval c < 0x80" "\<not> word_rune u (bval c)" for c
    using p(2,3) encode_rune_bytes [of c] c by auto
  moreover have "\<not> word_rune u (bval quote)" "\<not> word_rune u (bval CHR '' '')"
    by (simp_all add: word_rune_def is_letter_def is_digit_def quote_def)
  ultimately show ?thesis using p valid_encoded [of ps] by (auto simp: list_all_iff quote_def)
qed

lemma index_of_miss: "c \<notin> set x \<Longrightarrow> index_of (c # r) x = None"
  by (induction x) auto

lemma index_of_hit: "c \<notin> set x \<Longrightarrow> index_of (c # r) (x @ (c # r) @ s) = Some (length x)"
  by (induction x) auto

lemma split_join_sep:
  assumes "xs \<noteq> []" "\<forall>x \<in> set xs. c \<notin> set x"
  shows "split_on (c # r) (join (c # r) xs) = xs"
  using assms
proof (induction "c # r" xs rule: join.induct)
  case (2 x)
  then show ?case by (simp add: split_on.simps index_of_miss)
next
  case (3 x y ys)
  have "index_of (c # r) (join (c # r) (x # y # ys)) = Some (length x)"
    using index_of_hit [of c x r "join (c # r) (y # ys)"] 3 by simp
  then show ?case using 3 by (subst split_on.simps) (simp del: append_Cons)
qed simp

lemma enumerate_butlast_last:
  assumes "ts \<noteq> []"
  shows "map (ts_part (length ts)) (enumerate 0 ts) =
    map (\<lambda>t. [quote] @ t @ [quote]) (butlast ts) @ [[quote] @ last ts @ [quote] @ (if is_long (last ts) then '':*'' else [])]"
proof -
  obtain us t where ts: "ts = us @ [t]" using assms by (metis append_butlast_last_id)
  have e: "map (ts_part n) (enumerate 0 us) = map (\<lambda>t. [quote] @ t @ [quote]) us" if "length us < n" for n
  proof (rule nth_equalityI)
    fix i assume "i < length (map (ts_part n) (enumerate 0 us))"
    then show "map (ts_part n) (enumerate 0 us) ! i = map (\<lambda>t. [quote] @ t @ [quote]) us ! i"
      using that by (simp add: nth_enumerate_eq ts_part_def)
  qed simp
  show ?thesis using e [of "Suc (length us)"] by (simp add: ts enumerate_append_eq ts_part_def)
qed

text \<open>C35: whatever is typed, the query sent to Postgres is empty or splits back into at most sixteen quoted
  words of letters and digits only, the words of the lowered input in order, of which the last alone may
  be a prefix term; no operator, quote or space of the input gets into it.\<close>

theorem tsQuery_safe:
  "tsQuery u q = [] \<or>
   (\<exists>ts w. split_on amp (tsQuery u q) = map (\<lambda>t. [quote] @ t @ [quote]) ts @ [[quote] @ w @ [quote] @ (if is_long w then '':*'' else [])] \<and>
      ts @ [w] = take 16 (fields_func (\<lambda>r. \<not> word_rune u r) (to_lower u q)) \<and>
      list_all (\<lambda>t. t \<noteq> [] \<and> list_all (word_rune u) (runes t) \<and> valid_utf8 t \<and> quote \<notin> set t \<and> CHR '' '' \<notin> set t) (ts @ [w]))"
proof (cases "list_ex is_long (query_tokens u q)")
  case True
  let ?ts = "query_tokens u q"
  let ?parts = "map (\<lambda>t. [quote] @ t @ [quote]) (butlast ?ts) @ [[quote] @ last ?ts @ [quote] @ (if is_long (last ?ts) then '':*'' else [])]"
  have ne: "?ts \<noteq> []" using True by auto
  have toks: "list_all (\<lambda>t. t \<noteq> [] \<and> list_all (word_rune u) (runes t) \<and> valid_utf8 t \<and> quote \<notin> set t \<and> CHR '' '' \<notin> set t) ?ts"
    using token_runes by (auto simp: list_all_iff)
  have "tsQuery u q = join amp ?parts" using True enumerate_butlast_last [OF ne] by (simp add: tsQuery_def Let_def)
  moreover have "\<forall>x \<in> set ?parts. CHR '' '' \<notin> set x"
    using toks last_in_set [OF ne] by (auto simp: list_all_iff quote_def dest: in_set_butlastD)
  ultimately have "split_on amp (tsQuery u q) = ?parts"
    using split_join_sep [of ?parts "CHR '' ''" "''& ''"] by (simp add: amp_def)
  then show ?thesis using toks ne
    by (intro disjI2 exI [of _ "butlast ?ts"] exI [of _ "last ?ts"]) (simp add: query_tokens_def maxQueryTokens_def)
qed (simp add: tsQuery_def)

section \<open>What a content search returns\<close>

definition matched_by :: "text_search \<Rightarrow> string \<Rightarrow> db \<Rightarrow> content_match \<Rightarrow> bool" where
  "matched_by fts tq d m \<longleftrightarrow> (\<exists>c \<in> set (chunks d). ch_file c = file_key (cm_file m) \<and> ch_seq c = cm_chunk m \<and>
     ft_match fts tq (ch_body c) \<and> cm_snippet m = ft_headline fts tq (ch_body c) \<and>
     (\<forall>c' \<in> set (chunks d). ch_file c' = ch_file c \<and> ft_match fts tq (ch_body c') \<longrightarrow>
        ft_rank fts tq (ch_body c') \<le> ft_rank fts tq (ch_body c)))"

lemma best_chunk_Some:
  assumes "best_chunk fts tq cs = Some c"
  shows "c \<in> set cs \<and> ft_match fts tq (ch_body c) \<and>
    (\<forall>c' \<in> set cs. ft_match fts tq (ch_body c') \<longrightarrow> ft_rank fts tq (ch_body c') \<le> ft_rank fts tq (ch_body c))"
proof -
  let ?ms = "filter (\<lambda>c. ft_match fts tq (ch_body c)) cs" and ?k = "\<lambda>c. - ft_rank fts tq (ch_body c)"
  obtain rest where s: "sort_key ?k ?ms = c # rest" using assms by (auto simp: best_chunk_def split: list.splits)
  have "set (sort_key ?k ?ms) = set ?ms" by simp
  then have m: "set ?ms = insert c (set rest)" using s by simp
  have "sorted (map ?k (c # rest))" using s by (metis sorted_sort_key)
  then have "\<forall>c' \<in> set ?ms. ft_rank fts tq (ch_body c') \<le> ft_rank fts tq (ch_body c)" using m by auto
  moreover have "c \<in> set ?ms" using m by simp
  ultimately show ?thesis by auto
qed

lemma best_rows_set:
  "(r, c) \<in> set (best_rows fts tq keep d) \<longleftrightarrow>
   r \<in> set (files d) \<and> keep r \<and> best_chunk fts tq (filter (\<lambda>c. ch_file c = file_key r) (chunks d)) = Some c"
  by (fastforce simp: best_rows_def List.map_filter_def intro: rev_image_eqI)

lemma distinct_map_filter:
  "distinct (map k xs) \<Longrightarrow> distinct (map (k \<circ> fst) (List.map_filter (\<lambda>x. map_option (Pair x) (f x)) xs))"
proof (induction xs)
  case (Cons x xs)
  have "k x \<notin> set (map (k \<circ> fst) (List.map_filter (\<lambda>x. map_option (Pair x) (f x)) xs))"
    using Cons.prems by (auto simp: List.map_filter_def)
  then show ?case using Cons by (auto simp: map_filter_simps split: option.split)
qed (simp add: map_filter_simps)

lemma distinct_take_sort: "distinct (map k xs) \<Longrightarrow> distinct (map k (take n (sort_key g xs)))"
proof -
  assume d: "distinct (map k xs)"
  have "mset (map k (sort_key g xs)) = mset (map k xs)" by simp
  then have "distinct (map k (sort_key g xs))" using d by (metis mset_eq_imp_distinct_iff)
  then show ?thesis by (metis distinct_take take_map)
qed

lemma SearchContent_hits:
  assumes "db_ok d" "SearchContent u pg fts flt vol q lim includeHidden modified d = Inr ms"
  shows "distinct (map (\<lambda>m. file_key (cm_file m)) ms) \<and>
    list_all (\<lambda>m. matched_by fts (tsQuery u q) d m \<and>
       (\<exists>r \<in> set (files d). cm_file m = row_file r \<and> content_keep pg vol q includeHidden modified r)) ms \<and>
    (0 < lim \<and> lim \<le> 500 \<longrightarrow> length ms \<le> nat lim)"
proof (cases "tsQuery u q = []")
  case True
  then show ?thesis using assms(2) by (simp add: SearchContent_def)
next
  case False
  let ?tq = "tsQuery u q"
  let ?keep = "content_keep pg vol q includeHidden modified"
  let ?rows = "best_rows fts ?tq ?keep d"
  let ?n = "nat (if lim \<le> 0 \<or> 500 < lim then 100 else lim)"
  let ?k = "\<lambda>(r, c). (- ft_rank fts ?tq (ch_body c), fVolume r, fPath r)"
  have ms: "ms = map (match_of fts ?tq) (take ?n (sort_key ?k ?rows))"
    using assms(2) False by (auto simp: SearchContent_def Let_def split: option.splits)
  have key: "file_key (cm_file (match_of fts ?tq p)) = (file_key \<circ> fst) p" for p
    by (cases p) (simp add: match_of_def file_key_def row_file_def)
  have "distinct (map file_key (filter ?keep (files d)))"
    using assms(1) by (auto simp: db_ok_def tbl_wf_def distinct_map intro: inj_on_subset)
  then have "distinct (map (file_key \<circ> fst) ?rows)" unfolding best_rows_def by (rule distinct_map_filter)
  then have "distinct (map (file_key \<circ> fst) (take ?n (sort_key ?k ?rows)))" by (rule distinct_take_sort)
  moreover have "(\<lambda>m. file_key (cm_file m)) \<circ> match_of fts ?tq = file_key \<circ> fst" using key by auto
  ultimately have "distinct (map (\<lambda>m. file_key (cm_file m)) ms)" by (simp add: ms)
  moreover have "matched_by fts ?tq d m \<and> (\<exists>r \<in> set (files d). cm_file m = row_file r \<and> ?keep r)" if m: "m \<in> set ms" for m
  proof -
    obtain r c where rc: "(r, c) \<in> set ?rows" "m = match_of fts ?tq (r, c)"
      using m ms in_set_takeD by fastforce
    then have b: "r \<in> set (files d)" "?keep r" "best_chunk fts ?tq (filter (\<lambda>c. ch_file c = file_key r) (chunks d)) = Some c"
      by (simp_all add: best_rows_set)
    have "file_key (cm_file m) = file_key r" using key [of "(r, c)"] rc(2) by simp
    then have "matched_by fts ?tq d m" unfolding matched_by_def
      using best_chunk_Some [OF b(3)] rc(2) by (intro bexI [of _ c]) (auto simp: match_of_def)
    then show ?thesis using b rc(2) by (auto simp: match_of_def)
  qed
  ultimately show ?thesis by (auto simp: list_all_iff ms)
qed

end
