(* ===== verification/GoNet.thy ===== *)
theory GoNet
  imports PathNames
begin

text \<open>
  Host and port strings: \<open>net.SplitHostPort\<close> and \<open>net.JoinHostPort\<close>. \<^term>\<open>None\<close> is a non-nil error.
\<close>

definition colon :: char where "colon = CHR 0x3A"
definition lbracket :: char where "lbracket = CHR 0x5B"
definition rbracket :: char where "rbracket = CHR 0x5D"

definition SplitHostPort :: "string \<Rightarrow> (string \<times> string) option" where
  "SplitHostPort hp =
     (case last_index (\<lambda>c. c = colon) hp of
        None \<Rightarrow> None
      | Some i \<Rightarrow>
          if hd hp = lbracket then
            (case index_of [rbracket] hp of
               None \<Rightarrow> None
             | Some e \<Rightarrow>
                 if e + 1 = i \<and> lbracket \<notin> set (drop 1 hp) \<and> rbracket \<notin> set (drop (e + 1) hp)
                 then Some (take (e - 1) (drop 1 hp), drop (i + 1) hp) else None)
          else
            (let host = take i hp in
             if colon \<in> set host \<or> lbracket \<in> set hp \<or> rbracket \<in> set hp then None
             else Some (host, drop (i + 1) hp)))"

definition JoinHostPort :: "string \<Rightarrow> string \<Rightarrow> string" where
  "JoinHostPort host port =
     (if colon \<in> set host then [lbracket] @ host @ [rbracket, colon] @ port else host @ [colon] @ port)"

definition host_ok :: "string \<Rightarrow> bool" where
  "host_ok h \<longleftrightarrow> lbracket \<notin> set h \<and> rbracket \<notin> set h"

definition port_ok :: "string \<Rightarrow> bool" where
  "port_ok p \<longleftrightarrow> lbracket \<notin> set p \<and> rbracket \<notin> set p \<and> colon \<notin> set p"

lemma last_colon: "colon \<notin> set p \<Longrightarrow> last_index (\<lambda>c. c = colon) (h @ colon # p) = Some (length h)"
  by (auto simp: last_index_append last_index_None split: option.split dest!: last_index_Some)

lemma bracket_neq [simp]: "lbracket \<noteq> colon" "rbracket \<noteq> colon" "lbracket \<noteq> rbracket" "colon \<noteq> lbracket"
    "colon \<noteq> rbracket" "rbracket \<noteq> lbracket"
  by (simp_all add: lbracket_def rbracket_def colon_def)

lemma SplitHostPort_Join:
  assumes "host_ok h" "port_ok p"
  shows "SplitHostPort (JoinHostPort h p) = Some (h, p)"
proof (cases "colon \<in> set h")
  case True
  have l: "last_index (\<lambda>c. c = colon) (lbracket # h @ rbracket # colon # p) = Some (length h + 2)"
    using last_colon [of p "lbracket # h @ [rbracket]"] assms(2) by (simp add: port_ok_def)
  have "rbracket \<notin> set (lbracket # h)" using assms(1) by (simp add: host_ok_def)
  from index_of_byte [OF this, of "colon # p"]
  have "index_of [rbracket] (lbracket # h @ rbracket # colon # p) = Some (Suc (length h))" by simp
  then show ?thesis using True l assms by (simp add: SplitHostPort_def JoinHostPort_def host_ok_def port_ok_def)
next
  case False
  have l: "last_index (\<lambda>c. c = colon) (h @ colon # p) = Some (length h)"
    using last_colon [of p h] assms(2) by (simp add: port_ok_def)
  have "hd (h @ colon # p) \<noteq> lbracket" using assms(1) by (cases h) (auto simp: host_ok_def)
  then show ?thesis using False l assms
    by (simp add: SplitHostPort_def JoinHostPort_def host_ok_def port_ok_def)
qed

end
