(* ===== verification/GoIP.thy ===== *)
theory GoIP
  imports GoNet GoNumbers
begin

text \<open>
  IP literals: \<open>net.ParseIP\<close> (dotted decimal, and IPv6 with one ellipsis and an optional dotted tail, no
  zone) and \<open>IP.IsLoopback\<close>. An address is its 16 bytes, IPv4 in mapped form; \<^term>\<open>None\<close> is a nil address.
\<close>

definition is_hex :: "char \<Rightarrow> bool" where
  "is_hex c \<longleftrightarrow> is_dec c \<or> (65 \<le> bval c \<and> bval c \<le> 70) \<or> (97 \<le> bval c \<and> bval c \<le> 102)"

definition hex_val :: "char \<Rightarrow> nat" where
  "hex_val c = (if is_dec c then bval c - 48 else if bval c \<le> 70 then bval c - 55 else bval c - 87)"

definition parse_hex :: "string \<Rightarrow> nat" where
  "parse_hex s = foldl (\<lambda>n c. n * 16 + hex_val c) 0 s"

definition octet_ok :: "string \<Rightarrow> bool" where
  "octet_ok f \<longleftrightarrow> f \<noteq> [] \<and> list_all is_dec f \<and> (length f = 1 \<or> hd f \<noteq> CHR ''0'') \<and> parse_digits f \<le> 255"

definition parse_v4 :: "string \<Rightarrow> nat list option" where
  "parse_v4 s =
     (let fs = split_on ''.'' s in if length fs = 4 \<and> list_all octet_ok fs then Some (map parse_digits fs) else None)"

text \<open>
  At most \<open>k\<close> more groups are read; the result is the position of the ellipsis, the bytes and the rest of
  the string.
\<close>

fun v6_groups :: "nat \<Rightarrow> nat option \<Rightarrow> nat list \<Rightarrow> string \<Rightarrow> (nat option \<times> nat list \<times> string) option" where
  "v6_groups 0 ell acc s = Some (ell, acc, s)"
| "v6_groups (Suc k) ell acc s =
     (let h = takeWhile is_hex s; r = drop (length h) s; v = parse_hex h; acc' = acc @ [v div 256, v mod 256]
      in if h = [] \<or> 4 < length h then None
         else case r of
           [] \<Rightarrow> Some (ell, acc', [])
         | c # s' \<Rightarrow>
             (if c = CHR ''.'' then
                (if ell = None \<and> length acc \<noteq> 12 \<or> 16 < length acc + 4 then None
                 else map_option (\<lambda>bs. (ell, acc @ bs, [])) (parse_v4 s))
              else if c \<noteq> colon \<or> s' = [] then None
              else if hd s' = colon then
                (if ell \<noteq> None then None
                 else if tl s' = [] then Some (Some (length acc'), acc', [])
                 else v6_groups k (Some (length acc')) acc' (tl s'))
              else v6_groups k ell acc' s'))"

definition v6_finish :: "(nat option \<times> nat list \<times> string) option \<Rightarrow> nat list option" where
  "v6_finish r =
     (case r of
        Some (ell, bs, []) \<Rightarrow>
          (if length bs < 16 then map_option (\<lambda>e. take e bs @ replicate (16 - length bs) 0 @ drop e bs) ell
           else if ell = None then Some bs else None)
      | _ \<Rightarrow> None)"

definition parse_v6 :: "string \<Rightarrow> nat list option" where
  "parse_v6 s =
     (if CHR 0x25 \<in> set s then None
      else if take 2 s = [colon, colon] then
        (if drop 2 s = [] then Some (replicate 16 0) else v6_finish (v6_groups 8 (Some 0) [] (drop 2 s)))
      else v6_finish (v6_groups 8 None [] s))"

definition ParseIP :: "string \<Rightarrow> nat list option" where
  "ParseIP s =
     (case find (\<lambda>c. c = CHR ''.'' \<or> c = colon \<or> c = CHR 0x25) s of
        Some c \<Rightarrow>
          (if c = CHR ''.'' then map_option (\<lambda>bs. replicate 10 0 @ [255, 255] @ bs) (parse_v4 s)
           else if c = colon then parse_v6 s else None)
      | None \<Rightarrow> None)"

definition IsLoopback :: "nat list \<Rightarrow> bool" where
  "IsLoopback ip \<longleftrightarrow> (if take 12 ip = replicate 10 0 @ [255, 255] then ip ! 12 = 127 else ip = replicate 15 0 @ [1])"

lemma ParseIP_examples:
  "ParseIP ''192.168.1.20'' = Some (replicate 10 0 @ [255, 255, 192, 168, 1, 20])"
  "ParseIP ''192.168.1.020'' = None" "ParseIP ''1.2.3'' = None" "ParseIP ''::1'' = Some (replicate 15 0 @ [1])"
  "ParseIP ''fe80::1:2'' = Some ([254, 128] @ replicate 10 0 @ [0, 1, 0, 2])" "ParseIP ''1::2::3'' = None"
  "ParseIP ''::ffff:127.0.0.1'' = Some (replicate 10 0 @ [255, 255, 127, 0, 0, 1])" "ParseIP ''fe80::1%en0'' = None"
  by code_simp+

lemma ParseIP_bare: "CHR ''.'' \<notin> set s \<Longrightarrow> colon \<notin> set s \<Longrightarrow> ParseIP s = None"
  by (auto simp: ParseIP_def split: option.split dest!: find_hit)

end
