(* ===== verification/HostGuard.thy ===== *)
theory HostGuard
  imports GoIP GoText IndexQuery
begin

text \<open>
  The browser guard in front of the API (internal/httpapi/hostguard.go). The host part of a parsed
  Origin, net/url's work, is a parameter: the host, or \<^term>\<open>None\<close> for a parse error.
\<close>

definition normalizeHost :: "unicode \<Rightarrow> string \<Rightarrow> string" where
  "normalizeHost u hostport =
     (let host = trim_space hostport;
          host = (case SplitHostPort host of Some (h, _) \<Rightarrow> h | None \<Rightarrow> host);
          host = trim_bytes host [lbracket, rbracket]
      in trim_suffix (to_lower u host) ''.'')"

definition privateSuffixes :: "string list" where
  "privateSuffixes = [''.local'', ''.localhost'', ''.lan'', ''.home.arpa'', ''.internal'', ''.localdomain'']"

definition hostAllowed :: "unicode \<Rightarrow> string \<Rightarrow> string set \<Rightarrow> bool" where
  "hostAllowed u hostport extra =
     (let host = normalizeHost u hostport
      in if host = [] then False
         else if ParseIP host \<noteq> None then True
         else if \<not> contains host ''.'' then True
         else if list_ex (has_suffix host) privateSuffixes then True
         else host \<in> extra)"

definition isSafeMethod :: "string \<Rightarrow> bool" where
  "isSafeMethod m \<longleftrightarrow> m = ''GET'' \<or> m = ''HEAD'' \<or> m = ''OPTIONS''"

definition sameOrigin :: "unicode \<Rightarrow> (string \<Rightarrow> string option) \<Rightarrow> string \<Rightarrow> string \<Rightarrow> bool" where
  "sameOrigin u url_host origin requestHost =
     (case url_host origin of
        None \<Rightarrow> False
      | Some h \<Rightarrow> if h = [] then False else equal_fold u h requestHost)"

definition extra_hosts :: "unicode \<Rightarrow> string list \<Rightarrow> string set" where
  "extra_hosts u hs = set (filter (\<lambda>h. h \<noteq> []) (map (normalizeHost u) hs))"

definition apos :: string where "apos = [CHR 0x27]"

text \<open>\<open>Inl\<close> is the refusal with its status and message, \<open>Inr\<close> what the guarded handler answers.\<close>

definition HostGuard :: "unicode \<Rightarrow> (string \<Rightarrow> string option) \<Rightarrow> string list \<Rightarrow> string \<Rightarrow> string \<Rightarrow> string \<Rightarrow> 'a
    \<Rightarrow> (nat \<times> string) + 'a" where
  "HostGuard u url_host extraHosts host mtd origin next_handler =
     (if \<not> hostAllowed u host (extra_hosts u extraHosts) then Inl (403, ''this Host header isn'' @ apos @ ''t allowed; if you reach Findo by this name, list it in FINDO_ALLOWED_HOSTS'')
      else if \<not> isSafeMethod mtd \<and> origin \<noteq> [] \<and> \<not> sameOrigin u url_host origin host
      then Inl (403, ''cross-site request refused'')
      else Inr next_handler)"

section \<open>Names as they arrive\<close>

text \<open>The characters of a DNS name, and the ways a browser may write one as a Host\<close>

definition name_char :: "char \<Rightarrow> bool" where
  "name_char c \<longleftrightarrow> 65 \<le> bval c \<and> bval c \<le> 90 \<or> 97 \<le> bval c \<and> bval c \<le> 122 \<or> is_dec c \<or> bval c = 45 \<or> bval c = 46"

definition lower_byte :: "char \<Rightarrow> char" where
  "lower_byte c = (if 65 \<le> bval c \<and> bval c \<le> 90 then char_of (bval c + 32) else c)"

definition host_header :: "string \<Rightarrow> string option \<Rightarrow> string" where
  "host_header h port = (case port of None \<Rightarrow> h | Some p \<Rightarrow> h @ [colon] @ p)"

definition plain_name :: "string \<Rightarrow> bool" where
  "plain_name h \<longleftrightarrow> h \<noteq> [] \<and> list_all name_char h \<and> last h \<noteq> CHR ''.''"

lemma rune_steps_ascii_list: "list_all (\<lambda>c. bval c < 0x80) s \<Longrightarrow> rune_steps s = map (\<lambda>c. (bval c, [c])) s"
  by (induction s) (simp_all add: rune_steps_ascii)

lemma trim_space_clean:
  assumes "list_all (\<lambda>c. bval c < 0x80 \<and> \<not> is_space (bval c)) s"
  shows "trim_space s = s"
proof -
  have "trim_left_func is_space s = s"
    using assms rune_steps_ascii_list [of s]
    by (cases s) (simp_all add: trim_left_func_def list_all_iff o_def)
  moreover have "trim_right_func is_space s = s"
    using assms by (subst trim_right_func.simps) (auto simp: decode_last_rune_def list_all_iff)
  ultimately show ?thesis by (simp add: trim_space_def)
qed

lemma to_lower_name: "list_all name_char s \<Longrightarrow> to_lower u s = map lower_byte s"
proof (induction s)
  case (Cons c s)
  then have c: "bval c < 0x80" by (auto simp: name_char_def is_dec_def)
  have "encode_rune (lower_rune u (bval c)) = [lower_byte c]"
    using c by (simp add: lower_rune_def lower_byte_def encode_rune_def valid_rune_def)
  then show ?case using Cons c by (simp add: to_lower_ascii)
qed simp

lemma name_char_clean: "name_char c \<Longrightarrow> bval c < 0x80 \<and> \<not> is_space (bval c) \<and> c \<noteq> colon \<and> c \<noteq> lbracket \<and> c \<noteq> rbracket"
  by (auto simp: name_char_def is_space_def is_dec_def colon_def lbracket_def rbracket_def)

lemma dec_clean: "is_dec c \<Longrightarrow> bval c < 0x80 \<and> \<not> is_space (bval c)"
  by (auto simp: is_dec_def is_space_def)

lemma dot_clean: "\<not> is_space 46"
  by (simp add: is_space_def)

lemma colon_clean: "bval colon < 0x80 \<and> \<not> is_space (bval colon)"
  by (simp add: colon_def is_space_def)

lemma trim_bytes_clean: "(\<And>c. c \<in> set s \<Longrightarrow> c \<notin> set cs) \<Longrightarrow> trim_bytes s cs = s"
proof -
  assume a: "\<And>c. c \<in> set s \<Longrightarrow> c \<notin> set cs"
  have "dropWhile (\<lambda>c. c \<in> set cs) t = t" if "set t \<subseteq> set s" for t
    using a that by (cases t) auto
  then show ?thesis by (simp add: trim_bytes_def)
qed

lemma split_host_header:
  assumes "list_all name_char h" "\<forall>p. port = Some p \<longrightarrow> list_all is_dec p" "h \<noteq> []"
  shows "(case SplitHostPort (host_header h port) of Some (h', _) \<Rightarrow> h' | None \<Rightarrow> host_header h port) = h"
proof (cases port)
  case None
  then have "SplitHostPort h = None" using assms(1) name_char_clean
    by (auto simp: SplitHostPort_def last_index_None list_all_iff split: option.split dest!: last_index_Some)
  then show ?thesis using None by (simp add: host_header_def)
next
  case (Some p)
  have "host_ok h" "port_ok p" "colon \<notin> set h"
    using assms name_char_clean Some
    by (auto simp: host_ok_def port_ok_def list_all_iff is_dec_def colon_def lbracket_def rbracket_def)
  then have "SplitHostPort (host_header h port) = Some (h, p)"
    using SplitHostPort_Join [of h p] Some by (simp add: host_header_def JoinHostPort_def)
  then show ?thesis by simp
qed

lemma normalizeHost_name:
  assumes "plain_name h" "\<forall>p. port = Some p \<longrightarrow> list_all is_dec p"
  shows "normalizeHost u (host_header (h @ (if dotted then ''.'' else [])) port) = map lower_byte h"
proof -
  let ?h = "h @ (if dotted then ''.'' else [])"
  have n: "list_all name_char ?h" "?h \<noteq> []" using assms(1) by (auto simp: plain_name_def name_char_def)
  have "list_all (\<lambda>c. bval c < 0x80 \<and> \<not> is_space (bval c)) (host_header ?h port)"
    using n(1) assms(2) name_char_clean dec_clean colon_clean dot_clean
    by (auto simp: host_header_def list_all_iff split: option.split)
  then have "trim_space (host_header ?h port) = host_header ?h port" by (rule trim_space_clean)
  moreover have "trim_bytes ?h [lbracket, rbracket] = ?h"
    by (rule trim_bytes_clean) (use n(1) name_char_clean in \<open>auto simp: list_all_iff\<close>)
  moreover have "to_lower u ?h = map lower_byte h @ (if dotted then ''.'' else [])"
    using to_lower_name [OF n(1)] by (simp add: lower_byte_def)
  moreover have "trim_suffix (map lower_byte h @ (if dotted then ''.'' else [])) ''.'' = map lower_byte h"
  proof -
    have "lower_byte (last h) \<noteq> CHR ''.''"
      using assms(1) by (auto simp: lower_byte_def plain_name_def char_of_eq_iff take_bit_eq_mod)
    then have "last (map lower_byte h) \<noteq> CHR ''.''" using assms(1) by (simp add: plain_name_def last_map)
    then have "\<not> suffix ''.'' (map lower_byte h)" by (auto simp: suffix_def)
    then show ?thesis by (simp add: trim_suffix_def)
  qed
  ultimately show ?thesis using split_host_header [OF n(1) assms(2) n(2)] by (simp add: normalizeHost_def Let_def)
qed

text \<open>A request addressed by a public DNS name, in whatever case, with or without a port and a trailing
  dot, reaches the API exactly if that name was allowed in the configuration.\<close>

theorem rebinding_refused:
  assumes "plain_name h" "CHR ''.'' \<in> set h" "ParseIP (map lower_byte h) = None"
    and "\<not> list_ex (has_suffix (map lower_byte h)) privateSuffixes"
    and "\<forall>p. port = Some p \<longrightarrow> list_all is_dec p"
  shows "(\<exists>x. HostGuard u url_host extra (host_header (h @ (if dotted then ''.'' else [])) port) ''GET'' origin x = Inr x) \<longleftrightarrow>
      (\<exists>e \<in> set extra. normalizeHost u e = map lower_byte h)"
proof -
  have "map lower_byte h \<noteq> []" using assms(1) by (simp add: plain_name_def)
  moreover have "contains (map lower_byte h) ''.''"
  proof -
    obtain a b where "h = a @ CHR ''.'' # b" using assms(2) by (meson split_list)
    then have "map lower_byte h = map lower_byte a @ ''.'' @ map lower_byte b" by (simp add: lower_byte_def)
    then show ?thesis unfolding contains_iff by blast
  qed
  ultimately show ?thesis using normalizeHost_name [OF assms(1,5), of u dotted] assms(3,4)
    by (auto simp: HostGuard_def hostAllowed_def isSafeMethod_def extra_hosts_def intro: rev_image_eqI)
qed

theorem rebinding_refused_witness:
  "\<not> (\<exists>x. HostGuard ascii_tables Some [''nas.example.org''] ''Evil.Example.COM.:8080'' ''GET'' [] x = Inr (x::nat)) \<and>
   (\<exists>x. HostGuard ascii_tables Some [''nas.example.org''] ''Nas.example.org:8080'' ''GET'' [] x = Inr (x::nat))"
proof -
  let ?e = "''Evil.Example.COM''" and ?n = "''Nas.example.org''"
  have h: "plain_name ?e" "CHR ''.'' \<in> set ?e" "ParseIP (map lower_byte ?e) = None"
      "\<not> list_ex (has_suffix (map lower_byte ?e)) privateSuffixes"
      "plain_name ?n" "CHR ''.'' \<in> set ?n" "ParseIP (map lower_byte ?n) = None"
      "\<not> list_ex (has_suffix (map lower_byte ?n)) privateSuffixes"
      "normalizeHost ascii_tables ''nas.example.org'' \<noteq> map lower_byte ?e"
      "normalizeHost ascii_tables ''nas.example.org'' = map lower_byte ?n" by code_simp+
  have p: "\<forall>p. Some ''8080'' = Some p \<longrightarrow> list_all is_dec p" by (simp add: is_dec_def)
  have f: "host_header (?e @ (if True then ''.'' else [])) (Some ''8080'') = ''Evil.Example.COM.:8080''"
      "host_header (?n @ (if False then ''.'' else [])) (Some ''8080'') = ''Nas.example.org:8080''"
    by (simp_all add: host_header_def colon_def)
  show ?thesis
    using rebinding_refused [OF h(1-4) p, of ascii_tables Some "[''nas.example.org'']" True "[]", unfolded f]
      rebinding_refused [OF h(5-8) p, of ascii_tables Some "[''nas.example.org'']" False "[]", unfolded f] h(9,10)
    by auto
qed

text \<open>
  A state-changing request that carries an Origin naming another host is refused whatever its Host.
\<close>

lemma cross_site_refused:
  assumes "HostGuard u url_host extra host mtd origin y = Inr z"
  shows "isSafeMethod mtd \<or> origin = [] \<or> (\<exists>o'. url_host origin = Some o' \<and> o' \<noteq> [] \<and> equal_fold u o' host)"
  using assms by (auto simp: HostGuard_def sameOrigin_def split: if_splits option.splits)

end
