(* ===== verification/DateQuery.thy ===== *)
theory DateQuery
  imports GoNumbers HostGuard
begin

text \<open>
  Time phrases in a search query (internal/datequery/datequery.go). The four regular expressions are
  written as terms of a small backtracking matcher with Go's leftmost-first preference, over the runes of
  the query; the calendar of package time is defined for the proleptic Gregorian calendar. The time-zone
  database is a parameter: what \<open>Location.lookup\<close> returns for an instant, the offset and the
  span of instants it is valid for.
\<close>

section \<open>A matcher\<close>

datatype re =
    Eps
  | Rune "nat \<Rightarrow> bool"
  | Some1 "nat \<Rightarrow> bool"
  | Boundary
  | Cat re re
  | Or re re
  | Cap nat re

type_synonym steps = "(nat \<times> string) list"
type_synonym caps = "nat \<Rightarrow> (nat \<times> nat) option"

definition word_char :: "nat \<Rightarrow> bool" where
  "word_char r \<longleftrightarrow> 48 \<le> r \<and> r \<le> 57 \<or> 65 \<le> r \<and> r \<le> 90 \<or> r = 95 \<or> 97 \<le> r \<and> r \<le> 122"

definition word_at :: "steps \<Rightarrow> nat \<Rightarrow> bool" where
  "word_at st i = (case drop i st of [] \<Rightarrow> False | s # _ \<Rightarrow> word_char (fst s))"

definition at_boundary :: "steps \<Rightarrow> nat \<Rightarrow> bool" where
  "at_boundary st i \<longleftrightarrow> (i \<noteq> 0 \<and> word_at st (i - 1)) \<noteq> word_at st i"

text \<open>All matches from a position, the preferred one first\<close>

fun matches :: "steps \<Rightarrow> re \<Rightarrow> nat \<times> caps \<Rightarrow> (nat \<times> caps) list" where
  "matches st Eps x = [x]"
| "matches st (Rune P) (i, c) = (case drop i st of [] \<Rightarrow> [] | s # _ \<Rightarrow> if P (fst s) then [(i + 1, c)] else [])"
| "matches st (Some1 P) (i, c) =
     map (\<lambda>n. (i + n, c)) (rev [1..<Suc (length (takeWhile (\<lambda>s. P (fst s)) (drop i st)))])"
| "matches st Boundary (i, c) = (if at_boundary st i then [(i, c)] else [])"
| "matches st (Cat r s) x = concat (map (matches st s) (matches st r x))"
| "matches st (Or r s) x = matches st r x @ matches st s x"
| "matches st (Cap n r) (i, c) = map (\<lambda>(j, c'). (j, c'(n := Some (i, j)))) (matches st r (i, c))"

definition no_caps :: caps where
  "no_caps = (\<lambda>_. None)"

fun first_match :: "steps \<Rightarrow> re \<Rightarrow> nat list \<Rightarrow> caps option" where
  "first_match st r [] = None"
| "first_match st r (i # is) =
     (case matches st r (i, no_caps) of
        [] \<Rightarrow> first_match st r is
      | (j, c) # _ \<Rightarrow> Some (c(0 := Some (i, j))))"

text \<open>\<open>FindStringSubmatchIndex\<close>, with positions counted in runes; group 0 is the whole match\<close>

definition find_match :: "re \<Rightarrow> steps \<Rightarrow> caps option" where
  "find_match r st = first_match st r [0..<Suc (length st)]"

definition slice :: "steps \<Rightarrow> nat \<Rightarrow> nat \<Rightarrow> string" where
  "slice st i j = concat (map snd (take (j - i) (drop i st)))"

definition group :: "steps \<Rightarrow> caps \<Rightarrow> nat \<Rightarrow> string" where
  "group st c n = (case c n of None \<Rightarrow> [] | Some (i, j) \<Rightarrow> slice st i j)"

section \<open>The regular expressions\<close>

text \<open>Under \<open>(?i)\<close> a letter also matches its other case, and the two runes that fold to k and s\<close>

definition ci :: "char \<Rightarrow> nat \<Rightarrow> bool" where
  "ci c r \<longleftrightarrow> r = bval c \<or> r + 32 = bval c \<or> (c = CHR ''k'' \<and> r = 0x212A) \<or> (c = CHR ''s'' \<and> r = 0x17F)"

fun lit :: "string \<Rightarrow> re" where
  "lit [] = Eps"
| "lit (c # cs) = Cat (Rune (ci c)) (lit cs)"

fun any_of :: "re list \<Rightarrow> re" where
  "any_of [] = Eps"
| "any_of [r] = r"
| "any_of (r # s # rs) = Or r (any_of (s # rs))"

fun cats :: "re list \<Rightarrow> re" where
  "cats [] = Eps"
| "cats (r # rs) = Cat r (cats rs)"

definition opt :: "re \<Rightarrow> re" where
  "opt r = Or r Eps"

definition re_space :: "nat \<Rightarrow> bool" where
  "re_space r \<longleftrightarrow> r = 9 \<or> r = 10 \<or> r = 12 \<or> r = 13 \<or> r = 32"

definition re_digit :: "nat \<Rightarrow> bool" where
  "re_digit r \<longleftrightarrow> 48 \<le> r \<and> r \<le> 57"

definition dg :: re where "dg = Rune re_digit"
definition sp :: re where "sp = Some1 re_space"

definition range_rune :: "nat \<Rightarrow> nat \<Rightarrow> re" where
  "range_rune a b = Rune (\<lambda>r. a \<le> r \<and> r \<le> b)"

definition relPrefix :: re where
  "relPrefix = cats [Boundary, opt (Cat (any_of (map lit [''from'', ''in'', ''within'', ''during'', ''over''])) sp),
     opt (Cat (lit ''the'') sp)]"

definition monthName :: re where
  "monthName = any_of
     [Cat (lit ''jan'') (opt (lit ''uary'')), Cat (lit ''feb'') (opt (lit ''ruary'')), Cat (lit ''mar'') (opt (lit ''ch'')),
      Cat (lit ''apr'') (opt (lit ''il'')), lit ''may'', Cat (lit ''jun'') (opt (lit ''e'')), Cat (lit ''jul'') (opt (lit ''y'')),
      Cat (lit ''aug'') (opt (lit ''ust'')), cats [lit ''sep'', opt (lit ''t''), opt (lit ''ember'')],
      Cat (lit ''oct'') (opt (lit ''ober'')), Cat (lit ''nov'') (opt (lit ''ember'')), Cat (lit ''dec'') (opt (lit ''ember''))]"

definition year_re :: re where
  "year_re = Or (cats [lit ''19'', range_rune 55 57, dg]) (cats [lit ''20'', dg, dg])"

definition dayRe :: re where
  "dayRe = cats [relPrefix, Boundary, Cap 1 (any_of (map lit [''today'', ''yesterday''])), Boundary]"

definition trailingRe :: re where
  "trailingRe = cats [relPrefix, any_of (map lit [''last'', ''past'']), sp,
     opt (Cat (Cap 1 (Cat dg (opt (Cat dg (opt dg))))) sp),
     Cap 2 (any_of (map lit [''day'', ''week'', ''month'', ''year''])), opt (lit ''s''), Boundary]"

definition thisRe :: re where
  "thisRe = cats [Boundary, opt (Cat (any_of (map lit [''from'', ''in'', ''during''])) sp), lit ''this'', sp,
     Cap 1 (any_of (map lit [''week'', ''month'', ''year''])), Boundary]"

definition periodRe :: re where
  "periodRe = cats [Boundary,
     Cap 1 (any_of (map lit [''in'', ''during'', ''from'', ''on'', ''since'', ''after'', ''before'', ''until''])), sp,
     any_of [cats [Cap 2 monthName, sp, Cap 3 year_re], Cap 4 monthName,
       Cap 5 (cats [dg, dg, dg, dg, lit ''-'', dg, dg, lit ''-'', dg, dg]), Cap 6 year_re], Boundary]"

section \<open>The calendar\<close>

definition month_lengths :: "nat \<Rightarrow> int" where
  "month_lengths n = [0, 31, 61, 92, 122, 153, 184, 214, 245, 275, 306, 337] ! n"

text \<open>
  Days from 1970-01-01 to the first of a month. Months are counted from March of year 0, so that a leap
  day is the last day of a year.
\<close>

definition first_day :: "int \<Rightarrow> int" where
  "first_day m =
     (let y = m div 12 in 365 * y + y div 4 - y div 100 + y div 400 + month_lengths (nat (m mod 12)) - 719468)"

definition month_index :: "int \<Rightarrow> int \<Rightarrow> int" where
  "month_index y mo = 12 * y + mo - 3"

definition days_of :: "int \<Rightarrow> int \<Rightarrow> int \<Rightarrow> int" where
  "days_of y mo d = first_day (month_index y mo) + d - 1"

definition civil_of :: "int \<Rightarrow> int \<times> int \<times> int" where
  "civil_of z =
     (let z = z + 719468; era = z div 146097; doe = z mod 146097;
          c = min 3 (doe div 36524); doc = doe - c * 36524;
          q = doc div 1461; doq = doc mod 1461;
          a = min 3 (doq div 365); doy = doq - a * 365;
          mp = (5 * doy + 2) div 153; d = doy - month_lengths (nat mp) + 1;
          m = 12 * (era * 400 + c * 100 + q * 4 + a) + mp + 2
      in (m div 12, m mod 12 + 1, d))"

section \<open>Times in a zone\<close>

text \<open>The offset at an instant, and the first and last plus one instants it holds for\<close>

type_synonym zone = "int \<Rightarrow> int \<times> int \<times> int"

definition offset_at :: "zone \<Rightarrow> int \<Rightarrow> int" where
  "offset_at z t = fst (z t)"

text \<open>\<open>time.Date\<close>; a month or day out of range runs over into the neighbouring ones\<close>

definition Date :: "zone \<Rightarrow> int \<Rightarrow> int \<Rightarrow> int \<Rightarrow> int \<Rightarrow> int" where
  "Date z y mo d secs =
     (let unix = 86400 * days_of y mo d + secs;
          (offset, start, end') = z unix;
          utc = unix - offset
      in if offset = 0 then unix
         else if utc < start \<or> end' \<le> utc then unix - offset_at z utc
         else utc)"

definition local_day :: "zone \<Rightarrow> int \<Rightarrow> int" where
  "local_day z t = (t + offset_at z t) div 86400"

definition local_secs :: "zone \<Rightarrow> int \<Rightarrow> int" where
  "local_secs z t = (t + offset_at z t) mod 86400"

definition AddDate :: "zone \<Rightarrow> int \<Rightarrow> int \<Rightarrow> int \<Rightarrow> int \<Rightarrow> int" where
  "AddDate z t dy dm dd = (let (y, mo, d) = civil_of (local_day z t) in Date z (y + dy) (mo + dm) (d + dd) (local_secs z t))"

definition startOfDay :: "zone \<Rightarrow> int \<Rightarrow> int" where
  "startOfDay z t = (let (y, mo, d) = civil_of (local_day z t) in Date z y mo d 0)"

text \<open>Sunday is 0; 1970-01-01 was a Thursday.\<close>

definition Weekday :: "zone \<Rightarrow> int \<Rightarrow> int" where
  "Weekday z t = (local_day z t + 4) mod 7"

definition month_size :: "int \<Rightarrow> int \<Rightarrow> int" where
  "month_size y mo = first_day (month_index y (mo + 1)) - first_day (month_index y mo)"

text \<open>\<open>time.ParseInLocation\<close> with the layout 2006-01-02\<close>

definition parse_iso :: "zone \<Rightarrow> string \<Rightarrow> int option" where
  "parse_iso z s =
     (if length s = 10 \<and> s ! 4 = CHR ''-'' \<and> s ! 7 = CHR ''-'' \<and>
         list_all is_dec (take 4 s) \<and> list_all is_dec (take 2 (drop 5 s)) \<and> list_all is_dec (drop 8 s)
      then let y = int (parse_digits (take 4 s)); mo = int (parse_digits (take 2 (drop 5 s))); d = int (parse_digits (drop 8 s))
           in if 1 \<le> mo \<and> mo \<le> 12 \<and> 1 \<le> d \<and> d \<le> month_size y mo then Some (Date z y mo d 0) else None
      else None)"

section \<open>Parsing a query\<close>

record trange =
  From :: int
  To :: int

definition no_range :: trange where
  "no_range = \<lparr>From = 0, To = 0\<rparr>"

definition IsZero :: "trange \<Rightarrow> bool" where
  "IsZero r \<longleftrightarrow> From r = 0 \<and> To r = 0"

definition months :: "string \<Rightarrow> int" where
  "months s =
     (case map_of
        [(''jan'', 1), (''january'', 1), (''feb'', 2), (''february'', 2), (''mar'', 3), (''march'', 3), (''apr'', 4),
         (''april'', 4), (''may'', 5), (''jun'', 6), (''june'', 6), (''jul'', 7), (''july'', 7), (''aug'', 8),
         (''august'', 8), (''sep'', 9), (''sept'', 9), (''september'', 9), (''oct'', 10), (''october'', 10), (''nov'', 11),
         (''november'', 11), (''dec'', 12), (''december'', 12)] s of Some m \<Rightarrow> m | None \<Rightarrow> 0)"

definition atoi :: "string \<Rightarrow> int" where
  "atoi s = (case ParseInt s of Inr n \<Rightarrow> n | Inl ErrSyntax \<Rightarrow> 0 | Inl ErrRange \<Rightarrow> if prefix ''-'' s then min_int64 else max_int64)"

type_synonym found = "(trange \<times> nat \<times> nat) option"

definition span :: "caps \<Rightarrow> nat \<times> nat" where
  "span c = the (c 0)"

definition parseDay :: "unicode \<Rightarrow> zone \<Rightarrow> steps \<Rightarrow> int \<Rightarrow> found" where
  "parseDay u z q now =
     (case find_match dayRe q of
        None \<Rightarrow> None
      | Some c \<Rightarrow>
          (let start = startOfDay z now;
               start = (if equal_fold u (group q c 1) ''yesterday'' then AddDate z start 0 0 (- 1) else start)
           in Some (\<lparr>From = start, To = AddDate z start 0 0 1\<rparr>, span c)))"

definition parseTrailing :: "unicode \<Rightarrow> zone \<Rightarrow> steps \<Rightarrow> int \<Rightarrow> found" where
  "parseTrailing u z q now =
     (case find_match trailingRe q of
        None \<Rightarrow> None
      | Some c \<Rightarrow>
          (let n = (if c 1 = None then 1 else atoi (group q c 1))
           in if n < 1 then None
              else let un = to_lower u (group q c 2);
                       from' = (if un = ''day'' then AddDate z now 0 0 (- n)
                                else if un = ''week'' then AddDate z now 0 0 (- 7 * n)
                                else if un = ''month'' then AddDate z now 0 (- n) 0
                                else AddDate z now (- n) 0 0)
                   in Some (\<lparr>From = from', To = 0\<rparr>, span c)))"

definition parseThis :: "unicode \<Rightarrow> zone \<Rightarrow> steps \<Rightarrow> int \<Rightarrow> found" where
  "parseThis u z q now =
     (case find_match thisRe q of
        None \<Rightarrow> None
      | Some c \<Rightarrow>
          (let day = startOfDay z now; un = to_lower u (group q c 1); (y, mo, _) = civil_of (local_day z day);
               from' = (if un = ''week'' then AddDate z day 0 0 (- ((Weekday z day + 6) mod 7))
                        else if un = ''month'' then Date z y mo 1 0
                        else Date z y 1 1 0)
           in Some (\<lparr>From = from', To = 0\<rparr>, span c)))"

text \<open>The period a phrase names, from its captured groups: its start and end\<close>

definition period_of :: "unicode \<Rightarrow> zone \<Rightarrow> steps \<Rightarrow> caps \<Rightarrow> int \<Rightarrow> (int \<times> int) option" where
  "period_of u z q c now =
     (if group q c 2 \<noteq> [] then
        (let ps = Date z (atoi (group q c 3)) (months (to_lower u (group q c 2))) 1 0 in Some (ps, AddDate z ps 0 1 0))
      else if group q c 4 \<noteq> [] then
        (let mo = months (to_lower u (group q c 4));
             ps = Date z (fst (civil_of (local_day z now))) mo 1 0;
             ps = (if now < ps then AddDate z ps (- 1) 0 0 else ps)
         in Some (ps, AddDate z ps 0 1 0))
      else if group q c 5 \<noteq> [] then map_option (\<lambda>d. (d, AddDate z d 0 0 1)) (parse_iso z (group q c 5))
      else (let ps = Date z (atoi (group q c 6)) 1 1 0 in Some (ps, AddDate z ps 1 0 0)))"

definition parsePeriod :: "unicode \<Rightarrow> zone \<Rightarrow> steps \<Rightarrow> int \<Rightarrow> found" where
  "parsePeriod u z q now =
     (case find_match periodRe q of
        None \<Rightarrow> None
      | Some c \<Rightarrow>
          (case period_of u z q c now of
             None \<Rightarrow> None
           | Some (ps, pe) \<Rightarrow>
               (let kw = to_lower u (group q c 1);
                    r = (if kw = ''since'' then no_range\<lparr>From := ps\<rparr>
                         else if kw = ''after'' then no_range\<lparr>From := pe\<rparr>
                         else if kw = ''before'' then no_range\<lparr>To := ps\<rparr>
                         else if kw = ''until'' then no_range\<lparr>To := pe\<rparr>
                         else \<lparr>From = ps, To = pe\<rparr>)
                in Some (r, span c))))"

fun first_try :: "(steps \<Rightarrow> int \<Rightarrow> found) list \<Rightarrow> steps \<Rightarrow> int \<Rightarrow> found" where
  "first_try [] q now = None"
| "first_try (p # ps) q now = (case p q now of None \<Rightarrow> first_try ps q now | Some x \<Rightarrow> Some x)"

definition Parse :: "unicode \<Rightarrow> zone \<Rightarrow> string \<Rightarrow> int \<Rightarrow> string \<times> trange \<times> string" where
  "Parse u z q now =
     (let st = rune_steps q
      in case first_try [parseDay u z, parseTrailing u z, parseThis u z, parsePeriod u z] st now of
           None \<Rightarrow> (q, no_range, [])
         | Some (r, i, j) \<Rightarrow>
             (let rest = slice st 0 i @ '' '' @ slice st j (length st)
              in (join '' '' (GoStrings.fields rest), r, trim_space (slice st i j))))"

section \<open>What is removed from the query\<close>

definition in_query :: "steps \<Rightarrow> found \<Rightarrow> bool" where
  "in_query st f \<longleftrightarrow> (case f of None \<Rightarrow> True | Some (r, i, j) \<Rightarrow> i \<le> j \<and> j \<le> length st)"

lemma matches_bounds:
  "y \<in> set (matches st r x) \<Longrightarrow> fst x \<le> length st \<Longrightarrow> fst x \<le> fst y \<and> fst y \<le> length st"
proof (induction st r x arbitrary: y rule: matches.induct)
  case (2 st P i c)
  then show ?case by (cases "i < length st") (auto simp: Cons_nth_drop_Suc [symmetric] split: if_splits)
next
  case (3 st P i c)
  have "length (takeWhile (\<lambda>s. P (fst s)) (drop i st)) \<le> length st - i"
    using length_takeWhile_le [of "\<lambda>s. P (fst s)" "drop i st"] by simp
  then show ?case using 3 by auto
next
  case (5 st r s x)
  then obtain w where w: "w \<in> set (matches st r x)" "y \<in> set (matches st s w)" by auto
  then show ?case using 5(1) [OF w(1) 5(4)] 5(2) [OF w(1) w(2)] by auto
qed (auto split: if_splits)

lemma first_match_span:
  "first_match st r is = Some c \<Longrightarrow> \<forall>i \<in> set is. i \<le> length st \<Longrightarrow> \<exists>i j. c 0 = Some (i, j) \<and> i \<le> j \<and> j \<le> length st"
proof (induction "is")
  case (Cons i "is")
  show ?case
  proof (cases "matches st r (i, no_caps)")
    case (Cons y ys)
    then show ?thesis using matches_bounds [of y st r "(i, no_caps)"] Cons.prems
      by (cases y) (auto simp: Cons)
  qed (use Cons in simp)
qed simp

lemma find_match_span: "find_match r st = Some c \<Longrightarrow> fst (span c) \<le> snd (span c) \<and> snd (span c) \<le> length st"
  using first_match_span [of st r "[0..<Suc (length st)]" c] by (auto simp: find_match_def span_def)

lemma parts_in_query:
  "in_query st (parseDay u z st now)" "in_query st (parseTrailing u z st now)" "in_query st (parseThis u z st now)"
  "in_query st (parsePeriod u z st now)"
  by (auto simp: in_query_def parseDay_def parseTrailing_def parseThis_def parsePeriod_def Let_def
      split: option.splits prod.splits if_splits dest!: find_match_span)

lemma slices: "i \<le> j \<Longrightarrow> j \<le> length st \<Longrightarrow> slice st 0 i @ slice st i j @ slice st j (length st) = concat (map snd st)"
proof -
  assume ij: "i \<le> j" "j \<le> length st"
  have "take i st @ take (j - i) (drop i st) @ drop j st = st"
    using ij by (metis append_assoc append_take_drop_id le_add_diff_inverse take_add)
  then have "concat (map snd (take i st @ take (j - i) (drop i st) @ drop j st)) = concat (map snd st)" by simp
  then show ?thesis by (simp add: slice_def)
qed


section \<open>The calendar\<close>

lemma first_day_split:
  "0 \<le> k \<Longrightarrow> k < 12 \<Longrightarrow> first_day (12 * y + k) = 365 * y + y div 4 - y div 100 + y div 400 + month_lengths (nat k) - 719468"
  by (simp add: first_day_def)

lemma month_lengths_formula: "0 \<le> k \<Longrightarrow> k < 12 \<Longrightarrow> month_lengths (nat k) = (153 * k + 2) div 5"
proof -
  assume k: "0 \<le> k" "k < (12 :: int)"
  then have "k = 0 \<or> k = 1 \<or> k = 2 \<or> k = 3 \<or> k = 4 \<or> k = 5 \<or> k = 6 \<or> k = 7 \<or> k = 8 \<or> k = 9 \<or> k = 10 \<or> k = 11"
    by presburger
  then show ?thesis by (auto simp: month_lengths_def)
qed

lemma leap_days_mono: "(y :: int) div 4 - y div 100 + y div 400 \<le> (y + 1) div 4 - (y + 1) div 100 + (y + 1) div 400"
proof -
  have q: "x div 100 = x div 4 div 25" for x :: int by (simp add: zdiv_zmult2_eq [symmetric])
  have s: "(y + 1) div 4 = y div 4 \<or> (y + 1) div 4 = y div 4 + 1" by presburger
  have "(v + 1) div 25 \<le> v div 25 + 1" for v :: int by presburger
  then have "(y + 1) div 4 div 25 - y div 4 div 25 \<le> (y + 1) div 4 - y div 4" using s by fastforce
  moreover have "y div 400 \<le> (y + 1) div 400" by (rule zdiv_mono1) simp_all
  ultimately show ?thesis unfolding q by linarith
qed

lemma first_day_Suc: "first_day m + 28 \<le> first_day (m + 1)"
proof -
  obtain y k where k: "0 \<le> k" "k < 12" and m: "m = 12 * y + k"
    by (rule that [of "m mod 12" "m div 12"]) (simp_all add: mult_div_mod_eq)
  show ?thesis
  proof (cases "k = 11")
    case True
    have e: "m + 1 = 12 * (y + 1) + 0" using m True by simp
    have "first_day (m + 1) = 365 * (y + 1) + (y + 1) div 4 - (y + 1) div 100 + (y + 1) div 400 - 719468"
      unfolding e using first_day_split [of 0 "y + 1"] by (simp only: month_lengths_def) simp
    moreover have "first_day m = 365 * y + y div 4 - y div 100 + y div 400 + 337 - 719468"
      using first_day_split [OF k, of y] m True by (simp add: month_lengths_def)
    moreover have "g + 28 \<le> g'" if "g' = 365 * (y + 1) + a' - b' + c' - 719468" "g = 365 * y + a - b + c + 337 - 719468"
        "a - b + c \<le> a' - b' + c'" for g g' a b c a' b' c' :: int using that by simp
    ultimately show ?thesis using leap_days_mono [of y] by blast
  next
    case False
    have e: "m + 1 = 12 * y + (k + 1)" using m by simp
    have "first_day (m + 1) - first_day m = month_lengths (nat (k + 1)) - month_lengths (nat k)"
    proof -
      have k1: "0 \<le> k + 1" "k + 1 < 12" using k False by simp_all
      show ?thesis unfolding e unfolding m unfolding first_day_split [OF k1] first_day_split [OF k] by simp
    qed
    then have "first_day (m + 1) - first_day m = (153 * (k + 1) + 2) div 5 - (153 * k + 2) div 5"
      using k False month_lengths_formula [of k] month_lengths_formula [of "k + 1"] by simp
    moreover have "28 \<le> (153 * (k + 1) + 2) div 5 - (153 * k + 2) div 5" by presburger
    ultimately show ?thesis by linarith
  qed
qed

lemma first_day_less: "m < n \<Longrightarrow> first_day m + 28 \<le> first_day n"
proof (induction n rule: int_gr_induct [of m])
  case (step n)
  then show ?case using first_day_Suc [of n] by linarith
qed (rule first_day_Suc)

lemma first_day_le: "m \<le> n \<Longrightarrow> first_day m \<le> first_day n"
  using first_day_less [of m n] by (cases "m = n") auto

text \<open>\<open>civil_of\<close> gives a month and a day that \<open>days_of\<close> takes back to the same day.\<close>

lemma civil_of_correct:
  assumes "civil_of zz = (y, mo, d)"
  shows "days_of y mo d = zz \<and> 1 \<le> mo \<and> mo \<le> 12 \<and> 1 \<le> d \<and> d \<le> 31"
proof -
  define e where "e = (zz + 719468) div 146097"
  define doe where "doe = (zz + 719468) mod 146097"
  define c where "c = min 3 (doe div 36524)"
  define doc where "doc = doe - c * 36524"
  define q where "q = doc div 1461"
  define doq where "doq = doc mod 1461"
  define a where "a = min 3 (doq div 365)"
  define doy where "doy = doq - a * 365"
  define mp where "mp = (5 * doy + 2) div 153"
  define Y where "Y = e * 400 + c * 100 + q * 4 + a"
  have doe: "0 \<le> doe" "doe < 146097" "zz + 719468 = 146097 * e + doe" by (simp_all add: doe_def e_def)
  have c: "0 \<le> c" "c \<le> 3" using doe by (simp_all add: c_def pos_imp_zdiv_nonneg_iff)
  have doc: "0 \<le> doc" "doc \<le> 36524" using doe unfolding doc_def c_def by (auto simp: min_def)
  have q: "0 \<le> q" "q \<le> 24" using doc by (simp_all add: q_def pos_imp_zdiv_nonneg_iff)
  have doq: "0 \<le> doq" "doq \<le> 1460" "doc = 1461 * q + doq" by (simp_all add: doq_def q_def)
  have a: "0 \<le> a" "a \<le> 3" using doq by (simp_all add: a_def pos_imp_zdiv_nonneg_iff)
  have doy: "0 \<le> doy" "doy \<le> 365" using doq unfolding doy_def a_def by (auto simp: min_def)
  have mp: "0 \<le> mp" "mp < 12" "153 * mp \<le> 5 * doy + 2" "5 * doy + 2 < 153 * mp + 153" using doy by (simp_all add: mp_def pos_imp_zdiv_nonneg_iff)
  have civ: "civil_of zz = ((12 * Y + mp + 2) div 12, (12 * Y + mp + 2) mod 12 + 1, doy - month_lengths (nat mp) + 1)"
    unfolding civil_of_def Let_def Y_def mp_def doy_def a_def doq_def q_def doc_def c_def doe_def e_def by (rule refl)
  have ymd: "y = (12 * Y + mp + 2) div 12" "mo = (12 * Y + mp + 2) mod 12 + 1" "d = doy - month_lengths (nat mp) + 1"
    using assms unfolding civ by simp_all
  have "month_index y mo = 12 * Y + mp"
    unfolding month_index_def ymd(1,2) using mult_div_mod_eq [of 12 "12 * Y + mp + 2"] by linarith
  then have days: "days_of y mo d = 365 * Y + Y div 4 - Y div 100 + Y div 400 + doy - 719468"
    using first_day_split [OF mp(1,2), of Y] ymd(3) by (simp add: days_of_def)
  have Y4: "Y div 4 = 100 * e + 25 * c + q" using a unfolding Y_def by linarith
  have Y100: "Y div 100 = 4 * e + c" using a q unfolding Y_def by linarith
  have Y400: "Y div 400 = e" using a q c unfolding Y_def by linarith
  have "days_of y mo d = zz" unfolding days Y4 Y100 Y400 using doe(3) doq(3) by (simp add: Y_def doc_def doy_def)
  moreover have "(153 * mp + 2) div 5 \<le> doy" "doy \<le> (153 * mp + 2) div 5 + 30" using mp(3,4) by linarith+
  ultimately show ?thesis using ymd mp by (simp add: month_lengths_formula)
qed

section \<open>Ranges in a zone with a fixed offset\<close>

definition fixed_zone :: "zone \<Rightarrow> int \<Rightarrow> bool" where
  "fixed_zone z off \<longleftrightarrow> (\<forall>t. fst (z t) = off)"

lemma Date_fixed: "fixed_zone z off \<Longrightarrow> Date z y mo d secs = 86400 * days_of y mo d + secs - off"
  by (auto simp: Date_def fixed_zone_def offset_at_def Let_def split: prod.split) (metis fst_conv)+

lemma local_parts: "fixed_zone z off \<Longrightarrow> 86400 * local_day z t + local_secs z t - off = t"
  by (simp add: local_day_def local_secs_def fixed_zone_def offset_at_def)

lemma local_secs_range: "0 \<le> local_secs z t \<and> local_secs z t < 86400"
  by (simp add: local_secs_def)

lemma startOfDay_fixed: "fixed_zone z off \<Longrightarrow> startOfDay z t = t - local_secs z t"
  using civil_of_correct local_parts [of z off t]
  by (auto simp: startOfDay_def Date_fixed split: prod.split)

lemma AddDate_fixed:
  assumes "fixed_zone z off"
  shows "\<exists>m. \<forall>dy dm dd. AddDate z t dy dm dd = t + 86400 * (first_day (m + 12 * dy + dm) - first_day m + dd)"
proof -
  obtain y mo d where c: "civil_of (local_day z t) = (y, mo, d)" by (metis prod_cases3)
  let ?m = "month_index y mo"
  have "AddDate z t dy dm dd = t + 86400 * (first_day (?m + 12 * dy + dm) - first_day ?m + dd)" for dy dm dd
  proof -
    have "month_index (y + dy) (mo + dm) = ?m + 12 * dy + dm" by (simp add: month_index_def)
    then have "AddDate z t dy dm dd = 86400 * (first_day (?m + 12 * dy + dm) + (d + dd) - 1) + local_secs z t - off"
      by (simp add: AddDate_def c Date_fixed [OF assms] days_of_def)
    moreover have "t = 86400 * (first_day ?m + d - 1) + local_secs z t - off"
      using local_parts [OF assms, of t] civil_of_correct [OF c] by (simp add: days_of_def)
    ultimately show ?thesis by (simp add: algebra_simps)
  qed
  then show ?thesis by blast
qed

lemma AddDate_days: "fixed_zone z off \<Longrightarrow> AddDate z t 0 0 dd = t + 86400 * dd"
  using AddDate_fixed [of z off t] by auto

lemma AddDate_later: "fixed_zone z off \<Longrightarrow> 0 < 12 * dy + dm \<Longrightarrow> t < AddDate z t dy dm 0"
proof -
  assume a: "fixed_zone z off" "0 < 12 * dy + dm"
  obtain m where m: "AddDate z t dy dm 0 = t + 86400 * (first_day (m + 12 * dy + dm) - first_day m)"
    using AddDate_fixed [OF a(1), of t] by auto
  have "m < m + 12 * dy + dm" using a(2) by simp
  from first_day_less [OF this] show ?thesis using m by simp
qed

lemma AddDate_earlier: "fixed_zone z off \<Longrightarrow> 12 * dy + dm < 0 \<Longrightarrow> AddDate z t dy dm 0 < t"
proof -
  assume a: "fixed_zone z off" "12 * dy + dm < 0"
  obtain m where m: "AddDate z t dy dm 0 = t + 86400 * (first_day (m + 12 * dy + dm) - first_day m)"
    using AddDate_fixed [OF a(1), of t] by auto
  have "m + 12 * dy + dm < m" using a(2) by simp
  from first_day_less [OF this] show ?thesis using m by simp
qed

lemma parseThis_start:
  assumes "fixed_zone z off" "civil_of (local_day z t) = (y, mo, d)" "1 \<le> k" "k \<le> mo"
  shows "Date z y k 1 0 \<le> t"
proof -
  have "month_index y k \<le> month_index y mo" using assms(4) by (simp add: month_index_def)
  from first_day_le [OF this] show ?thesis
    using Date_fixed [OF assms(1), of y k 1 0] local_parts [OF assms(1), of t] civil_of_correct [OF assms(2)] local_secs_range [of z t]
    by (simp add: days_of_def)
qed

text \<open>In a zone with a fixed offset, today and yesterday are one day long and begin no later than now, a
  trailing window and a this-week, this-month or this-year range begin in the past and are open-ended, and
  a named period, when it is bounded on both sides, ends after it begins.\<close>

theorem ranges_look_back:
  assumes "fixed_zone z off"
  shows "(case parseDay u z q now of None \<Rightarrow> True | Some (r, l) \<Rightarrow> To r = From r + 86400 \<and> From r \<le> now \<and> now < To r + 86400) \<and>
    (case parseTrailing u z q now of None \<Rightarrow> True | Some (r, l) \<Rightarrow> To r = 0 \<and> From r < now) \<and>
    (case parseThis u z q now of None \<Rightarrow> True | Some (r, l) \<Rightarrow> To r = 0 \<and> From r \<le> now) \<and>
    (case parsePeriod u z q now of None \<Rightarrow> True | Some (r, l) \<Rightarrow> From r = 0 \<or> To r = 0 \<or> From r < To r)"
proof (intro conjI)
  have day: "startOfDay z now \<le> now" "now < startOfDay z now + 86400"
    using startOfDay_fixed [OF assms, of now] local_secs_range [of z now] by linarith+
  show "case parseDay u z q now of None \<Rightarrow> True | Some (r, l) \<Rightarrow> To r = From r + 86400 \<and> From r \<le> now \<and> now < To r + 86400"
    using day by (auto simp: parseDay_def Let_def AddDate_days [OF assms] split: option.split)
  show "case parseTrailing u z q now of None \<Rightarrow> True | Some (r, l) \<Rightarrow> To r = 0 \<and> From r < now"
    using AddDate_earlier [OF assms] by (auto simp: parseTrailing_def Let_def AddDate_days [OF assms] split: option.split)
  show "case parseThis u z q now of None \<Rightarrow> True | Some (r, l) \<Rightarrow> To r = 0 \<and> From r \<le> now"
  proof (cases "find_match thisRe q")
    case (Some c)
    let ?d = "startOfDay z now"
    obtain y mo d where cv: "civil_of (local_day z ?d) = (y, mo, d)" by (metis prod_cases3)
    have "1 \<le> mo" using civil_of_correct [OF cv] by simp
    then have "Date z y mo 1 0 \<le> ?d" "Date z y 1 1 0 \<le> ?d" using parseThis_start [OF assms cv] by auto
    moreover have "?d - 86400 * ((Weekday z ?d + 6) mod 7) \<le> ?d" by simp
    ultimately show ?thesis using Some cv day(1) by (simp add: parseThis_def Let_def AddDate_days [OF assms])
        (use day(1) in linarith)
  qed (simp add: parseThis_def)
  have "period_of u z q c now = Some (ps, pe) \<Longrightarrow> ps < pe" for c ps pe
    using AddDate_later [OF assms] by (auto simp: period_of_def Let_def AddDate_days [OF assms] split: if_splits)
  then show "case parsePeriod u z q now of None \<Rightarrow> True | Some (r, l) \<Rightarrow> From r = 0 \<or> To r = 0 \<or> From r < To r"
    by (auto simp: parsePeriod_def Let_def no_range_def split: option.splits prod.splits)
qed

definition utc :: zone where
  "utc t = (0, t, t + 1)"

theorem ranges_look_back_witness:
  "(case parseTrailing ascii_tables utc (rune_steps ''report last 2 weeks'') 1710500000 of
      Some (r, l) \<Rightarrow> From r = 1710500000 - 14 * 86400 \<and> To r = 0 | None \<Rightarrow> False) \<and>
   (case parsePeriod ascii_tables utc (rune_steps ''in feb 2024'') 1710500000 of
      Some (r, l) \<Rightarrow> To r = From r + 29 * 86400 \<and> From r < To r | None \<Rightarrow> False)"
proof -
  have f: "fixed_zone utc 0" by (simp add: fixed_zone_def utc_def)
  have e: "case parseTrailing ascii_tables utc (rune_steps ''report last 2 weeks'') 1710500000 of
      Some (r, l) \<Rightarrow> From r = 1710500000 - 14 * 86400 | None \<Rightarrow> False"
    "case parsePeriod ascii_tables utc (rune_steps ''in feb 2024'') 1710500000 of
      Some (r, l) \<Rightarrow> To r = From r + 29 * 86400 \<and> From r \<noteq> 0 \<and> To r \<noteq> 0 | None \<Rightarrow> False" by code_simp+
  show ?thesis
    using e ranges_look_back [OF f, where u = ascii_tables and q = "rune_steps ''report last 2 weeks''" and now = 1710500000]
      ranges_look_back [OF f, where u = ascii_tables and q = "rune_steps ''in feb 2024''" and now = 1710500000]
    by (auto split: option.splits prod.splits)
qed

text \<open>
  The expressions fold U+017F to s, but the lookups that follow lower the text, which keeps U+017F: the
  month is not found, counts as month zero, and the range is that of the December before.
\<close>

definition long_s :: string where
  "long_s = [char_of (0xC5 :: nat), char_of (0xBF :: nat)]"

lemma folded_month_missed:
  "fst (snd (Parse ascii_tables utc (''in '' @ long_s @ ''eptember 2024'') 1710500000)) =
     \<lparr>From = Date utc 2023 12 1 0, To = Date utc 2024 1 1 0\<rparr>"
  by code_simp

end
