(* ===== verification/SearchApi.thy ===== *)
theory SearchApi
  imports ContentIndexer ContentSearch DateQuery
begin

text \<open>
  The search handler (internal/httpapi/server.go, \<open>handleSearch\<close>): reading the query parameters, the time
  range from a phrase in the query and from explicit bounds, name matches first and then matches in the
  extracted text for whatever room is left. Query parameters are a function that is empty where one is
  missing, as \<open>url.Values.Get\<close> is. The time zones the host knows (\<open>time.LoadLocation\<close>) and its own zone are
  parameters.
\<close>

section \<open>Parameters\<close>

type_synonym params = "string \<Rightarrow> string"

definition invalid_param :: "string \<Rightarrow> nat \<times> string" where
  "invalid_param key = (400, ''invalid '' @ [CHR 0x27] @ key @ [CHR 0x27] @ '' query param'')"

definition missing_param :: "string \<Rightarrow> nat \<times> string" where
  "missing_param key = (400, ''missing required query param '' @ [CHR 0x27] @ key @ [CHR 0x27])"

definition wantsHidden :: "params \<Rightarrow> bool" where
  "wantsHidden p \<longleftrightarrow> p ''hidden'' = ''1'' \<or> p ''hidden'' = ''true''"

definition parseTimeParam :: "zone \<Rightarrow> string \<Rightarrow> num_err + int" where
  "parseTimeParam z raw = (case parse_iso z raw of Some t \<Rightarrow> Inr t | None \<Rightarrow> ParseInt raw)"

text \<open>An explicit bound replaces that of the phrase.\<close>

definition time_bound :: "zone \<Rightarrow> params \<Rightarrow> string \<Rightarrow> int \<Rightarrow> (nat \<times> string) + int" where
  "time_bound z p key cur =
     (if p key = [] then Inr cur
      else case parseTimeParam z (p key) of Inl _ \<Rightarrow> Inl (invalid_param key) | Inr ts \<Rightarrow> Inr ts)"

definition search_location :: "(string \<Rightarrow> zone option) \<Rightarrow> zone \<Rightarrow> params \<Rightarrow> (nat \<times> string) + zone" where
  "search_location load_location local_zone p =
     (if p ''tz'' = [] then Inr local_zone
      else case load_location (p ''tz'') of None \<Rightarrow> Inl (invalid_param ''tz'') | Some z \<Rightarrow> Inr z)"

definition search_volume :: "params \<Rightarrow> (nat \<times> string) + int" where
  "search_volume p =
     (if p ''volume'' = [] then Inr 0
      else case ParseInt (p ''volume'') of Inl _ \<Rightarrow> Inl (invalid_param ''volume'') | Inr i \<Rightarrow> Inr i)"

definition search_limit :: "params \<Rightarrow> int" where
  "search_limit p = (let n = atoi (p ''limit'') in if n \<le> 0 \<or> 500 < n then 100 else n)"

text \<open>All that is read from the request: the name query, the range with its phrase, and the volume\<close>

definition search_args ::
  "unicode \<Rightarrow> (string \<Rightarrow> zone option) \<Rightarrow> zone \<Rightarrow> int \<Rightarrow> params \<Rightarrow> (nat \<times> string) + (string \<times> trange \<times> string \<times> int)" where
  "search_args u load_location local_zone now p =
     (case search_location load_location local_zone p of
        Inl e \<Rightarrow> Inl e
      | Inr z \<Rightarrow>
          (case Parse u z (p ''q'') now of
             (nameQuery, parsed, phrase) \<Rightarrow>
               (case time_bound z p ''modified_after'' (From parsed) of
                  Inl e \<Rightarrow> Inl e
                | Inr a \<Rightarrow>
                    (case time_bound z p ''modified_before'' (To parsed) of
                       Inl e \<Rightarrow> Inl e
                     | Inr b \<Rightarrow>
                         (if p ''q'' = [] \<and> IsZero \<lparr>From = a, To = b\<rparr> then Inl (missing_param ''q'')
                          else case search_volume p of
                                 Inl e \<Rightarrow> Inl e
                               | Inr vol \<Rightarrow> Inr (nameQuery, \<lparr>From = a, To = b\<rparr>, phrase, vol))))))"

section \<open>The handler\<close>

record search_entry =
  se_file :: File
  se_match :: string
  se_snippet :: string
  se_chunk :: "nat option"

record search_response =
  sr_query :: string
  sr_name_query :: string
  sr_entries :: "search_entry list"
  sr_content_matches :: nat
  sr_modified :: "(int \<times> int \<times> string) option"

definition name_entry :: "File \<Rightarrow> search_entry" where
  "name_entry f = \<lparr>se_file = f, se_match = ''name'', se_snippet = [], se_chunk = None\<rparr>"

definition content_entry :: "content_match \<Rightarrow> search_entry" where
  "content_entry h = \<lparr>se_file = cm_file h, se_match = ''content'', se_snippet = cm_snippet h, se_chunk = Some (cm_chunk h)\<rparr>"

definition TimeRange :: "trange \<Rightarrow> time_range" where
  "TimeRange r = \<lparr>tr_from = From r, tr_to = To r\<rparr>"

definition handleSearch ::
  "unicode \<Rightarrow> unicode \<Rightarrow> text_search \<Rightarrow> (string \<Rightarrow> zone option) \<Rightarrow> zone \<Rightarrow> fault \<Rightarrow> fault \<Rightarrow> int \<Rightarrow> params \<Rightarrow> server
    \<Rightarrow> search_response resp" where
  "handleSearch u pg fts load_location local_zone f1 f2 now p s =
     (case search_args u load_location local_zone now p of
        Inl e \<Rightarrow> Inl e
      | Inr (nameQuery, modified, phrase, vol) \<Rightarrow>
          (let lim = search_limit p; hidden = wantsHidden p
           in case Search pg f1 vol nameQuery lim hidden (TimeRange modified) (s_db s) of
                Inl e \<Rightarrow> Inl (500, err_text e)
              | Inr found \<Rightarrow>
                  (case (if nameQuery \<noteq> [] \<and> int (length found) < lim
                         then SearchContent u pg fts f2 vol nameQuery (lim - int (length found)) hidden (TimeRange modified) (s_db s)
                         else Inr []) of
                     Inl e \<Rightarrow> Inl (500, err_text e)
                   | Inr hits \<Rightarrow>
                       Inr (200, \<lparr>sr_query = p ''q'', sr_name_query = nameQuery,
                          sr_entries = map name_entry found @ map content_entry hits, sr_content_matches = length hits,
                          sr_modified = (if IsZero modified then None else Some (From modified, To modified, phrase))\<rparr>))))"

section \<open>What is left of a query\<close>

lemma steps_valid: "valid_utf8 s \<Longrightarrow> list_all (\<lambda>p. valid_utf8 (snd p)) (rune_steps s)"
proof (induction rule: valid_utf8_induct)
  case (step s r w)
  have "valid_utf8 (take w s)" using decode_good_encode [OF step(3,2,4)] valid_encode [of r] by simp
  then show ?case using step by simp
qed simp

lemma concat_valid: "list_all valid_utf8 xs \<Longrightarrow> valid_utf8 (concat xs)"
  by (induction xs) (simp_all add: valid_utf8_appendI)

lemma slice_valid: "list_all (\<lambda>p. valid_utf8 (snd p)) st \<Longrightarrow> valid_utf8 (slice st i j)"
  unfolding slice_def
  by (rule concat_valid) (auto simp: list_all_iff dest!: in_set_takeD in_set_dropD)

lemma fields_steps_valid:
  "list_all (\<lambda>p. valid_utf8 (snd p)) st \<Longrightarrow> valid_utf8 acc \<Longrightarrow> list_all valid_utf8 (fields_steps P acc st)"
  by (induction P acc st rule: fields_steps.induct) (auto simp: valid_utf8_appendI)

lemma join_valid: "valid_utf8 sep \<Longrightarrow> list_all valid_utf8 xs \<Longrightarrow> valid_utf8 (join sep xs)"
  by (induction sep xs rule: join.induct) (auto simp: valid_utf8_appendI)

lemma Parse_valid:
  assumes "valid_utf8 q"
  shows "valid_utf8 (fst (Parse u z q now))"
proof -
  note st = slice_valid [OF steps_valid [OF assms]]
  have sp: "valid_utf8 '' ''" by (rule ascii_valid) simp
  have "valid_utf8 (join '' '' (GoStrings.fields (slice (rune_steps q) 0 i @ '' '' @ slice (rune_steps q) j n)))" for i j n
    unfolding GoStrings.fields_def fields_func_def
    by (intro join_valid sp fields_steps_valid steps_valid valid_utf8_appendI st valid_utf8_Nil)
  then show ?thesis using assms by (auto simp: Parse_def Let_def split: option.splits prod.splits)
qed

section \<open>What a search answers\<close>

lemma content_keep_match:
  assumes "plain_lower pg" "lower_valid pg" "valid_utf8 q"
  shows "content_keep pg vol q h m r \<longleftrightarrow> search_match pg vol [] h m (row_file r) \<and>
    \<not> contains (to_lower pg (fName r)) (to_lower pg q)"
proof -
  have "contains t (to_lower pg [])" for t
    using contains_iff [of t "[]"] by (auto simp: to_lower_def strings_map_def)
  then show ?thesis by (auto simp: content_keep_def search_match_def ilike_contains [OF assms] visible_path_iff)
qed

lemma row_key [simp]: "file_key (row_file r) = file_key r"
  by (simp add: file_key_def)

lemma search_limit_bounds: "0 < search_limit p \<and> search_limit p \<le> 500"
  by (simp add: search_limit_def Let_def)

lemma Search_rows:
  assumes "Search pg f1 vol q lim h m d = Inr fs" "0 < lim" "lim \<le> 500"
  shows "fs = take (nat lim) (map row_file (search_order m (filter (search_keep pg vol q h m) (files d))))"
  using assms by (auto simp: Search_def Let_def take_map split: option.splits)

lemma disjoint_hits:
  assumes "db_ok d" "r1 \<in> set (files d)" "r2 \<in> set (files d)" "search_keep pg vol q h m r1" "content_keep pg vol q h m r2"
  shows "file_key r1 \<noteq> file_key r2"
  using inj_onD [OF file_key_inj [OF assms(1)] _ assms(2,3)] assms(4,5) by (auto simp: search_keep_def content_keep_def)

text \<open>The entries as the two queries give them\<close>

lemma search_entries:
  assumes "handleSearch u pg fts load_location local_zone f1 f2 now p s = Inr (st, r)"
  obtains nq modified phrase vol found hits where
    "search_args u load_location local_zone now p = Inr (nq, modified, phrase, vol)"
    "Search pg f1 vol nq (search_limit p) (wantsHidden p) (TimeRange modified) (s_db s) = Inr found"
    "hits = [] \<or> (int (length found) < search_limit p \<and>
       SearchContent u pg fts f2 vol nq (search_limit p - int (length found)) (wantsHidden p) (TimeRange modified) (s_db s) = Inr hits)"
    "sr_entries r = map name_entry found @ map content_entry hits" "st = 200" "sr_content_matches r = length hits"
proof -
  obtain nq modified phrase vol where a: "search_args u load_location local_zone now p = Inr (nq, modified, phrase, vol)"
    using assms by (cases "search_args u load_location local_zone now p") (auto simp: handleSearch_def)
  let ?Q = "Search pg f1 vol nq (search_limit p) (wantsHidden p) (TimeRange modified) (s_db s)"
  obtain found where b: "?Q = Inr found"
    using assms by (cases ?Q) (auto simp: handleSearch_def a Let_def)
  let ?C = "if nq \<noteq> [] \<and> int (length found) < search_limit p
    then SearchContent u pg fts f2 vol nq (search_limit p - int (length found)) (wantsHidden p) (TimeRange modified) (s_db s)
    else Inr []"
  obtain hits where c: "?C = Inr hits"
    using assms by (cases ?C) (auto simp: handleSearch_def a b Let_def simp del: if_split)
  have "r = \<lparr>sr_query = p ''q'', sr_name_query = nq, sr_entries = map name_entry found @ map content_entry hits,
      sr_content_matches = length hits,
      sr_modified = (if IsZero modified then None else Some (From modified, To modified, phrase))\<rparr> \<and> st = 200"
    using assms unfolding handleSearch_def a b c sum.case prod.case Let_def by simp
  then show thesis using c by (intro that [OF a b]) (auto split: if_splits)
qed

lemma search_args_valid:
  assumes "search_args u load_location local_zone now p = Inr (nq, modified, phrase, vol)" "valid_utf8 (p ''q'')"
  shows "valid_utf8 nq"
proof -
  have "\<exists>z. fst (Parse u z (p ''q'') now) = nq"
    using assms(1) by (auto simp: search_args_def split: sum.splits prod.splits if_splits) (metis fst_conv)+
  then show ?thesis using Parse_valid [OF assms(2)] by blast
qed

lemma content_hits:
  assumes "db_ok d" "hits = [] \<or> (int n < lim \<and> SearchContent u pg fts f2 vol nq (lim - int n) h m d = Inr hits)"
    and "lim \<le> 500" "int n \<le> lim"
  shows "distinct (map (\<lambda>m. file_key (cm_file m)) hits) \<and>
    list_all (\<lambda>h'. matched_by fts (tsQuery u nq) d h' \<and>
      (\<exists>r \<in> set (files d). cm_file h' = row_file r \<and> content_keep pg vol nq h m r)) hits \<and>
    int (n + length hits) \<le> lim"
proof (cases "hits = []")
  case False
  then have "SearchContent u pg fts f2 vol nq (lim - int n) h m d = Inr hits" "int n < lim" using assms(2) by auto
  then show ?thesis using SearchContent_hits [OF assms(1), of u pg fts f2 vol nq "lim - int n" h m hits] assms(3) by auto
qed (use assms(4) in simp)

lemma entries_distinct:
  assumes "db_ok d" "fs = take k (map row_file (search_order m (filter (search_keep pg vol nq h m) (files d))))"
    and "distinct (map (\<lambda>h. file_key (cm_file h)) hits)"
    and "\<forall>x \<in> set hits. \<exists>r \<in> set (files d). cm_file x = row_file r \<and> content_keep pg vol nq h m r"
  shows "distinct (map (\<lambda>e. file_key (se_file e)) (map name_entry fs @ map content_entry hits))"
proof -
  let ?rows = "filter (search_keep pg vol nq h m) (files d)"
  have "distinct (map file_key ?rows)"
    using assms(1) by (auto simp: db_ok_def tbl_wf_def distinct_map intro: inj_on_subset)
  then have "distinct (map file_key (take k (search_order m ?rows)))"
    by (simp add: search_order_def distinct_take_sort)
  moreover have "map file_key fs = map file_key (take k (search_order m ?rows))" by (simp add: assms(2) take_map)
  ultimately have "distinct (map file_key fs)" by (simp only:)
  moreover have "set fs \<subseteq> row_file ` set ?rows"
    using search_order_props [of m ?rows, THEN conjunct1, THEN mset_eq_setD] by (auto simp: assms(2) take_map dest!: in_set_takeD)
  moreover have "file_key f \<noteq> file_key (cm_file x)" if "f \<in> row_file ` set ?rows" "x \<in> set hits" for f x
    using that assms(4) disjoint_hits [OF assms(1)] by fastforce
  ultimately have "set (map file_key fs) \<inter> set (map (\<lambda>h. file_key (cm_file h)) hits) = {}" "distinct (map file_key fs)"
    by fastforce+
  then show ?thesis using assms(3) by (simp add: name_entry_def content_entry_def o_def)
qed


definition letter_tables :: unicode where
  "letter_tables = ascii_tables\<lparr>uc_letter := \<lambda>r. 97 \<le> r \<and> r \<le> 122\<rparr>"

definition any_text :: text_search where
  "any_text = \<lparr>ft_match = \<lambda>q b. True, ft_rank = \<lambda>q b. int (length b), ft_headline = \<lambda>q b. b\<rparr>"

definition search_db :: db where
  "search_db = empty_db\<lparr>files := [queue_file ''x.txt'', queue_file ''abc.txt''],
     chunks := [\<lparr>ch_volume = 1, ch_path = ''x.txt'', ch_seq = 0, ch_body = ''abc''\<rparr>,
       \<lparr>ch_volume = 1, ch_path = ''x.txt'', ch_seq = 1, ch_body = ''the abc''\<rparr>]\<rparr>"

definition search_params :: params where
  "search_params k = (if k = ''q'' then ''abc'' else if k = ''limit'' then ''10'' else [])"

definition example_search :: "search_response resp" where
  "example_search = handleSearch letter_tables ascii_tables any_text (\<lambda>_. None) (\<lambda>t. (0, t, t + 1)) None None 0 search_params
     (new_server search_db)"


end
