(* ===== verification/ContentHeaders.thy ===== *)
theory ContentHeaders
  imports FileTypes SmbPaths
begin

text \<open>
  How a file is announced to the browser (internal/httpapi/content.go). \<open>mime.FormatMediaType\<close> of
  the standard library, with one parameter, is written out, with the parser a browser applies to it.
\<close>

section \<open>Media types with a parameter\<close>

definition tspecials :: "nat list" where
  "tspecials = [0x28, 0x29, 0x3C, 0x3E, 0x40, 0x2C, 0x3B, 0x3A, 0x5C, 0x22, 0x2F, 0x5B, 0x5D, 0x3F, 0x3D]"

definition token_char :: "char \<Rightarrow> bool" where
  "token_char c \<longleftrightarrow> 0x20 < bval c \<and> bval c < 0x7F \<and> bval c \<notin> set tspecials"

definition is_token :: "string \<Rightarrow> bool" where
  "is_token s \<longleftrightarrow> s \<noteq> [] \<and> list_all token_char s"

definition needs_encoding :: "string \<Rightarrow> bool" where
  "needs_encoding s \<longleftrightarrow> list_ex (\<lambda>r. (r < 0x20 \<or> 0x7E < r) \<and> r \<noteq> 9) (runes s)"

definition attr_char :: "char \<Rightarrow> bool" where
  "attr_char c \<longleftrightarrow> token_char c \<and> bval c \<notin> {0x2A, 0x27, 0x25}"

definition upper_hex :: "nat \<Rightarrow> char" where
  "upper_hex n = char_of (if n < 10 then 0x30 + n else 0x37 + n)"

definition dquote :: char where "dquote = CHR 0x22"
definition percent :: char where "percent = CHR 0x25"

definition pct_encode :: "string \<Rightarrow> string" where
  "pct_encode s =
     concat (map (\<lambda>c. if attr_char c then [c] else [percent, upper_hex (bval c div 16), upper_hex (bval c mod 16)]) s)"

definition quote_escape :: "string \<Rightarrow> string" where
  "quote_escape s = concat (map (\<lambda>c. if c = dquote \<or> c = backslash then [backslash, c] else [c]) s)"

definition FormatMediaType :: "unicode \<Rightarrow> string \<Rightarrow> string \<Rightarrow> string \<Rightarrow> string" where
  "FormatMediaType u t attr v =
     (if \<not> is_token t \<or> \<not> is_token attr then []
      else to_lower u t @ ''; '' @ to_lower u attr @
        (if needs_encoding v then ''*=utf-8'' @ [CHR 0x27, CHR 0x27] @ pct_encode v
         else CHR ''='' # (if is_token v then v else dquote # quote_escape v @ [dquote])))"

section \<open>The headers\<close>

definition setContentHeaders :: "unicode \<Rightarrow> string \<Rightarrow> bool \<Rightarrow> (string \<times> string) list" where
  "setContentHeaders u nm forceDownload =
     (let info = Lookup u nm;
          disposition = (if ft_inline info \<and> \<not> forceDownload then ''inline'' else ''attachment'')
      in [(''Content-Type'', ft_mime info),
          (''Content-Disposition'', FormatMediaType u disposition ''filename'' nm),
          (''X-Content-Type-Options'', ''nosniff''),
          (''Content-Security-Policy'', ''sandbox'')])"

text \<open>The response of \<open>handleFileTypes\<close>\<close>

definition handleFileTypes :: "(string \<times> string) \<times> (nat \<times> registry)" where
  "handleFileTypes = ((''Cache-Control'', ''public, max-age=3600''), (200, All))"

section \<open>Reading a disposition back\<close>

definition hex_val :: "char \<Rightarrow> nat" where
  "hex_val c = (if bval c < 0x40 then bval c - 0x30 else bval c - 0x37)"

fun pct_decode :: "string \<Rightarrow> string" where
  "pct_decode (c # h # l # s) =
     (if c = percent then char_of (16 * hex_val h + hex_val l) # pct_decode s else c # pct_decode (h # l # s))"
| "pct_decode s = s"

fun unquote :: "string \<Rightarrow> string" where
  "unquote (c # d # s) =
     (if c = dquote then [] else if c = backslash then d # unquote s else c # unquote (d # s))"
| "unquote [c] = (if c = dquote then [] else [c])"
| "unquote [] = []"

definition parse_disposition :: "string \<Rightarrow> string \<times> string" where
  "parse_disposition s =
     (let t = takeWhile (\<lambda>c. c \<noteq> CHR '';'') s;
          r = drop (length t + length ''; filename'') s
      in (t, if take 1 r = ''*'' then pct_decode (drop (length ''*=utf-8'' + 2) r)
             else if take 1 (drop 1 r) = [dquote] then unquote (drop 2 r)
             else drop 1 r))"

lemma upper_hex: "n < 16 \<Longrightarrow> hex_val (upper_hex n) = n \<and> token_char (upper_hex n)"
proof -
  assume "n < 16"
  then consider "n < 10" | "10 \<le> n" "n < 16" by linarith
  then show ?thesis by cases (auto simp: upper_hex_def hex_val_def token_char_def tspecials_def)
qed

lemma high_nibble: "bval c div 16 < 16"
  using bval_lt [of c] by linarith

lemma percent_not_attr: "attr_char c \<Longrightarrow> c \<noteq> percent"
  by (auto simp: attr_char_def percent_def)

lemma pct_decode_hex:
  "h < 16 \<Longrightarrow> l < 16 \<Longrightarrow> pct_decode (percent # upper_hex h # upper_hex l # s) = char_of (16 * h + l) # pct_decode s"
  by (simp add: upper_hex)

lemma pct_decode_other: "c \<noteq> percent \<Longrightarrow> pct_decode (c # s) = c # pct_decode s"
  by (cases s; cases "tl s") auto

lemma pct_roundtrip: "pct_decode (pct_encode s) = s"
proof (induction s)
  case (Cons c s)
  have "pct_decode (percent # upper_hex (bval c div 16) # upper_hex (bval c mod 16) # pct_encode s) = c # pct_decode (pct_encode s)"
    using high_nibble [of c] by (subst pct_decode_hex) simp_all
  then show ?case using Cons pct_decode_other [OF percent_not_attr] by (simp add: pct_encode_def)
qed (simp add: pct_encode_def)

lemma unquote_plain: "c \<noteq> dquote \<Longrightarrow> c \<noteq> backslash \<Longrightarrow> s \<noteq> [] \<Longrightarrow> unquote (c # s) = c # unquote s"
  by (cases s) auto

lemma quote_roundtrip: "unquote (quote_escape s @ [dquote]) = s"
proof (induction s)
  case Nil
  then show ?case by (simp add: quote_escape_def)
next
  case (Cons c s)
  have b: "backslash \<noteq> dquote" by (simp add: backslash_def dquote_def)
  show ?case
  proof (cases "c = dquote \<or> c = backslash")
    case True
    then show ?thesis using Cons b by (simp add: quote_escape_def)
  next
    case False
    then have "unquote (c # (quote_escape s @ [dquote])) = c # unquote (quote_escape s @ [dquote])"
      using unquote_plain by simp
    then show ?thesis using Cons False by (simp add: quote_escape_def)
  qed
qed

definition printable :: "char \<Rightarrow> bool" where
  "printable c \<longleftrightarrow> 0x20 \<le> bval c \<and> bval c < 0x7F \<or> bval c = 9"

lemma token_printable: "token_char c \<Longrightarrow> printable c"
  by (simp add: token_char_def printable_def)

lemma ascii_runes_bytes: "list_all (\<lambda>r. r < 0x80) (runes s) \<Longrightarrow> map bval s = runes s"
proof (induction s rule: rune_steps.induct)
  case (1 s)
  show ?case
  proof (cases s)
    case (Cons c cs)
    obtain r w where d: "decode_rune s = (r, w)" by fastforce
    have st: "rune_steps s = (r, take w s) # rune_steps (drop w s)" using d Cons by (simp add: rune_steps_unfold)
    then have "r < 0x80" using 1(2) by (simp add: runes_def)
    then have "bval c < 0x80" using decode_high [of c cs r w] d Cons by (metis not_le)
    then have "r = bval c" "w = 1" using d Cons decode_rune_ascii by auto
    then show ?thesis using 1(1) [OF _ d [symmetric]] 1(2) st Cons by (simp add: runes_def)
  qed simp
qed

lemma plain_printable: "\<not> needs_encoding s \<Longrightarrow> list_all printable s"
proof -
  assume n: "\<not> needs_encoding s"
  then have "list_all (\<lambda>r. r < 0x80) (runes s)" by (auto simp: needs_encoding_def list_all_iff list_ex_iff)
  then have b: "map bval s = runes s" by (rule ascii_runes_bytes)
  have "printable c" if "c \<in> set s" for c
  proof -
    have "bval c \<in> set (runes s)" using that b by (metis image_eqI set_map)
    with n show ?thesis by (auto simp: needs_encoding_def list_ex_iff printable_def)
  qed
  then show ?thesis by (simp add: list_all_iff)
qed

lemma pct_encode_printable: "list_all printable (pct_encode s)"
proof -
  have "printable percent" by (simp add: percent_def printable_def)
  moreover have "printable (upper_hex (bval c div 16))" "printable (upper_hex (bval c mod 16))" for c
    using high_nibble [of c] upper_hex token_printable by simp_all
  moreover have "attr_char c \<Longrightarrow> printable c" for c by (simp add: attr_char_def token_printable)
  ultimately show ?thesis by (auto simp: pct_encode_def list_all_iff)
qed

lemma quote_escape_printable: "list_all printable s \<Longrightarrow> list_all printable (quote_escape s)"
  by (auto simp: quote_escape_def list_all_iff printable_def backslash_def dquote_def)

definition dispositions :: "string list" where
  "dispositions = [''inline'', ''attachment'']"

lemma filename_lower: "to_lower u ''filename'' = ''filename''" "to_lower u ''inline'' = ''inline''"
    "to_lower u ''attachment'' = ''attachment''"
  by (simp_all add: to_lower_ascii lower_rune_def encode_rune_1) (simp_all add: char_of_eq_iff)

lemma disposition_parts:
  assumes "t \<in> set dispositions"
  shows "FormatMediaType u t ''filename'' v = t @ ''; filename'' @
      (if needs_encoding v then ''*=utf-8'' @ [CHR 0x27, CHR 0x27] @ pct_encode v
       else CHR ''='' # (if is_token v then v else dquote # quote_escape v @ [dquote]))"
proof -
  have "is_token t" "is_token ''filename''" "to_lower u t = t"
    using assms by (auto simp: dispositions_def is_token_def token_char_def tspecials_def filename_lower)
  then show ?thesis by (simp add: FormatMediaType_def filename_lower)
qed

lemma parse_format:
  assumes "t \<in> set dispositions"
  shows "parse_disposition (FormatMediaType u t ''filename'' v) = (t, v)"
proof -
  have tw: "takeWhile (\<lambda>c. c \<noteq> CHR '';'') (t @ CHR '';'' # x) = t" for x
    using assms by (auto simp: dispositions_def)
  have tk: "take 1 v \<noteq> [dquote]" if "is_token v"
    using that by (cases v) (auto simp: is_token_def token_char_def tspecials_def dquote_def)
  show ?thesis
    by (simp add: disposition_parts [OF assms] parse_disposition_def tw Let_def pct_roundtrip quote_roundtrip
        tk [unfolded One_nat_def])
qed

lemma format_printable:
  assumes "t \<in> set dispositions"
  shows "list_all printable (FormatMediaType u t ''filename'' v)"
proof -
  have "list_all printable t" using assms by (auto simp: dispositions_def printable_def)
  moreover have "list_all printable v" if "is_token v"
    using that by (auto simp: is_token_def list_all_iff token_printable)
  moreover have "list_all printable (quote_escape v)" if "\<not> needs_encoding v"
    using that quote_escape_printable plain_printable by blast
  moreover have "printable dquote" by (simp add: dquote_def printable_def)
  ultimately show ?thesis
    by (simp add: disposition_parts [OF assms] pct_encode_printable) (simp add: printable_def)
qed


end
