(* ===== verification/Api.thy ===== *)
theory Api
  imports SearchApi ContentHeaders
begin

text \<open>
  The other read handlers of the API (internal/httpapi/server.go), the settings handlers
  (internal/httpapi/settings.go) and the file text handler (internal/httpapi/filetext.go). As in VolumesApi a
  response is \<open>Inl\<close> a status and message, or \<open>Inr\<close> a status and the value that is written. Pings and opens of
  a volume's session are parameters, indexed by the address of its runtime.
\<close>

section \<open>Reading a volume's files\<close>

text \<open>The message of an invalid id ends before the colon and strconv's own words.\<close>

definition parseVolumeIDParam :: "params \<Rightarrow> (nat \<times> string) + int" where
  "parseVolumeIDParam p =
     (if p ''volume'' = [] then Inl (missing_param ''volume'')
      else case ParseInt (p ''volume'') of Inl _ \<Rightarrow> Inl (invalid_param ''volume'') | Inr i \<Rightarrow> Inr i)"

definition handleList :: "fault \<Rightarrow> params \<Rightarrow> server \<Rightarrow> (string \<times> File list) resp" where
  "handleList flt p s =
     (case parseVolumeIDParam p of
        Inl e \<Rightarrow> Inl e
      | Inr vol \<Rightarrow>
          (let dir = p ''path''
           in if \<not> ValidPath dir then Inl (invalid_param ''path'')
              else case List_files flt vol dir (wantsHidden p) (s_db s) of
                     Inl e \<Rightarrow> Inl (500, err_text e)
                   | Inr fs \<Rightarrow> Inr (200, (dir, fs))))"

record opened =
  op_name :: string
  op_mod_time :: int
  op_size :: nat
  op_reader :: read_at

type_synonym session_open = "nat \<Rightarrow> string \<Rightarrow> string + opened"

text \<open>The value is the headers and what \<open>http.ServeContent\<close> is given to serve.\<close>

definition handleContent :: "unicode \<Rightarrow> session_open \<Rightarrow> params \<Rightarrow> server \<Rightarrow> ((string \<times> string) list \<times> opened) resp" where
  "handleContent u smb_open p s =
     (case parseVolumeIDParam p of
        Inl e \<Rightarrow> Inl e
      | Inr vol \<Rightarrow>
          (let path = p ''path''
           in if path = [] then Inl (missing_param ''path'')
              else if \<not> ValidPath path then Inl (invalid_param ''path'')
              else case volumeRuntime vol s of
                     None \<Rightarrow> Inl (404, ''volume is not connected'')
                   | Some rt \<Rightarrow>
                       (case smb_open rt path of
                          Inl e \<Rightarrow> Inl (404, e)
                        | Inr f \<Rightarrow> Inr (200, (setContentHeaders u (op_name f) (p ''download'' = ''1''), f)))))"

section \<open>Health and statistics\<close>

record volume_health =
  vh_id :: int
  vh_name :: string
  vh_ok :: bool
  vh_error :: string

type_synonym session_ping = "nat \<Rightarrow> string option"

definition volume_health_of :: "session_ping \<Rightarrow> server \<Rightarrow> volume \<Rightarrow> volume_health" where
  "volume_health_of ping s v =
     (let vh = \<lparr>vh_id = vID v, vh_name = vName v, vh_ok = False, vh_error = []\<rparr>
      in case volumeRuntime (vID v) s of
           None \<Rightarrow> vh\<lparr>vh_error := ''not connected''\<rparr>
         | Some rt \<Rightarrow> (case ping rt of Some e \<Rightarrow> vh\<lparr>vh_error := e\<rparr> | None \<Rightarrow> vh\<lparr>vh_ok := True\<rparr>))"

definition handleHealth :: "session_ping \<Rightarrow> fault \<Rightarrow> server \<Rightarrow> (string \<times> volume_health list) resp" where
  "handleHealth ping flt s =
     (case ListVolumes flt (s_db s) of
        Inl e \<Rightarrow> Inl (500, err_text e)
      | Inr vols \<Rightarrow>
          (let results = map (volume_health_of ping s) (filter vEnabled vols)
           in Inr (200, (if list_all vh_ok results then ''ok'' else ''degraded'', results))))"

definition handleStats :: "fault \<Rightarrow> fault \<Rightarrow> server \<Rightarrow> stats resp" where
  "handleStats f1 f2 s = (case Stats f1 f2 (s_db s) of Inl e \<Rightarrow> Inl (500, err_text e) | Inr st \<Rightarrow> Inr (200, st))"

definition handleCrawlRuns :: "fault \<Rightarrow> string \<Rightarrow> params \<Rightarrow> server \<Rightarrow> crawl_run list resp" where
  "handleCrawlRuns flt rawID p s =
     (case parseVolumeID rawID of
        Inl _ \<Rightarrow> Inl (400, ''invalid volume id'')
      | Inr i \<Rightarrow>
          (case CrawlRuns flt i (atoi (p ''limit'')) (s_db s) of
             Inl e \<Rightarrow> Inl (500, err_text e)
           | Inr runs \<Rightarrow> Inr (200, runs)))"

definition handleVolumeInsights ::
  "(string \<Rightarrow> string) \<Rightarrow> fault \<Rightarrow> fault \<Rightarrow> string \<Rightarrow> params \<Rightarrow> server \<Rightarrow> (ext_stat list \<times> File list) resp" where
  "handleVolumeInsights coll f1 f2 rawID p s =
     (case parseVolumeID rawID of
        Inl _ \<Rightarrow> Inl (400, ''invalid volume id'')
      | Inr i \<Rightarrow>
          (let lim = atoi (p ''limit'')
           in case ExtensionBreakdown coll f1 i lim (s_db s) of
                Inl e \<Rightarrow> Inl (500, err_text e)
              | Inr extensions \<Rightarrow>
                  (case LargestFiles f2 i lim (s_db s) of
                     Inl e \<Rightarrow> Inl (500, err_text e)
                   | Inr largest \<Rightarrow> Inr (200, (extensions, largest)))))"

section \<open>Starting a crawl by hand\<close>

definition trigger_text :: "int \<Rightarrow> trigger_err \<Rightarrow> string" where
  "trigger_text i e =
     (case e of NotConnected \<Rightarrow> ''volume '' @ FormatInt i @ '' is not connected''
      | CrawlInProgress \<Rightarrow> ''a crawl is already in progress for this volume'')"

definition handleReindex :: "string \<Rightarrow> server \<Rightarrow> string resp \<times> server" where
  "handleReindex rawID s =
     (case parseVolumeID rawID of
        Inl _ \<Rightarrow> (Inl (400, ''invalid volume id''), s)
      | Inr i \<Rightarrow>
          (case triggerCrawl i triggerManual s of
             (Some e, s') \<Rightarrow> (Inl (if e = CrawlInProgress then 409 else 404, trigger_text i e), s')
           | (None, s') \<Rightarrow> (Inr (202, ''crawl started''), s')))"

section \<open>Settings\<close>

text \<open>
  The fields a settings object may give, and the values of the key \<open>content\<close> in the order the body has them
  (normally one): encoding/json applies them one after the other. An object is written into what the
  pointer points to, the settings just read or, after a null, new ones; a null makes the pointer nil.
\<close>

record settings_patch =
  pa_paused :: "bool option"
  pa_max_file_bytes :: "int option"
  pa_max_text_bytes :: "int option"
  pa_workers :: "int option"
  pa_delay_ms :: "int option"

datatype content_value = NullValue | Fields settings_patch

datatype content_ptr = NilPtr | CurPtr | NewPtr content_settings

definition or_old :: "'a option \<Rightarrow> 'a \<Rightarrow> 'a" where
  "or_old x old = (case x of None \<Rightarrow> old | Some v \<Rightarrow> v)"

definition patch :: "settings_patch \<Rightarrow> content_settings \<Rightarrow> content_settings" where
  "patch p cs = \<lparr>Paused = or_old (pa_paused p) (Paused cs),
     MaxFileBytes = or_old (pa_max_file_bytes p) (MaxFileBytes cs), MaxTextBytes = or_old (pa_max_text_bytes p) (MaxTextBytes cs),
     Workers = or_old (pa_workers p) (Workers cs), DelayMS = or_old (pa_delay_ms p) (DelayMS cs)\<rparr>"

definition zero_settings :: content_settings where
  "zero_settings = \<lparr>Paused = False, MaxFileBytes = 0, MaxTextBytes = 0, Workers = 0, DelayMS = 0\<rparr>"

definition content_step :: "content_value \<Rightarrow> content_settings \<times> content_ptr \<Rightarrow> content_settings \<times> content_ptr" where
  "content_step v = (\<lambda>(cur, ptr).
     case v of
       NullValue \<Rightarrow> (cur, NilPtr)
     | Fields p \<Rightarrow>
         (case ptr of
            NilPtr \<Rightarrow> (cur, NewPtr (patch p zero_settings))
          | CurPtr \<Rightarrow> (patch p cur, CurPtr)
          | NewPtr cs \<Rightarrow> (cur, NewPtr (patch p cs))))"

definition settingsBody :: "content_settings \<Rightarrow> content_value list \<Rightarrow> content_settings" where
  "settingsBody cur vs =
     (case fold content_step vs (cur, CurPtr) of
        (cur, ptr) \<Rightarrow> (case ptr of NewPtr cs \<Rightarrow> cs | _ \<Rightarrow> cur))"

definition handleGetSettings :: "fault \<Rightarrow> server \<Rightarrow> content_settings resp" where
  "handleGetSettings flt s =
     (case ContentSettings flt (s_db s) of Inl e \<Rightarrow> Inl (500, err_text e) | Inr cs \<Rightarrow> Inr (200, cs))"

definition is_invalid_settings :: "index_err \<Rightarrow> bool" where
  "is_invalid_settings e = (case e of ErrInvalidSettings _ \<Rightarrow> True | _ \<Rightarrow> False)"

definition handlePutSettings ::
  "fault \<Rightarrow> fault \<Rightarrow> int \<Rightarrow> content_value list body \<Rightarrow> server \<Rightarrow> content_settings resp \<times> server" where
  "handlePutSettings f1 f2 now body s =
     (case ContentSettings f1 (s_db s) of
        Inl e \<Rightarrow> (Inl (500, err_text e), s)
      | Inr cur \<Rightarrow>
          (case decodeJSON body of
             Inl e \<Rightarrow> (Inl e, s)
           | Inr vs \<Rightarrow>
               (let cs = settingsBody cur vs
                in case SetContentSettings f2 now cs (s_db s) of
                     (Inl e, d) \<Rightarrow> (Inl (if is_invalid_settings e then 400 else 500, err_text e), set_db d s)
                   | (Inr _, d) \<Rightarrow> (Inr (200, cs), kickContent (set_db d s)))))"

section \<open>A file's extracted text\<close>

definition noTextReason :: "content_info option \<Rightarrow> string" where
  "noTextReason info =
     (case info of
        None \<Rightarrow> ''this file'' @ apos @ ''s text hasn'' @ apos @ ''t been extracted: content search may be off for its volume, the file may be a type that can'' @
          apos @ ''t be read yet, or it may still be queued''
      | Some st \<Rightarrow>
          (if ci_status st = ContentDone then (if ci_chunks st \<noteq> [] then [] else ''this file has no extracted text'')
           else if ci_status st = ContentFailed then ''text extraction failed for this file: '' @ ci_reason st
           else if ci_reason st = too_large then ''this file is larger than the current size limit for content indexing''
           else if ci_reason st = ''unsupported'' then ''this file isn'' @ apos @ ''t readable as text''
           else if ci_reason st = ''no_text'' then ''this file contains no text''
           else if ci_reason st = ''encrypted'' then ''this file is password-protected, so its text can'' @ apos @ ''t be read''
           else ''this file was skipped: '' @ ci_reason st))"

datatype file_text = TextJSON int string string "string list" | TextPlain string

definition handleFileText :: "fault \<Rightarrow> fault \<Rightarrow> params \<Rightarrow> server \<Rightarrow> ((string \<times> string) list \<times> file_text) resp" where
  "handleFileText f1 f2 p s =
     (case parseVolumeIDParam p of
        Inl e \<Rightarrow> Inl e
      | Inr vol \<Rightarrow>
          (let path = trim_bytes (p ''path'') [sl]
           in if path = [] then Inl (missing_param ''path'')
              else if \<not> ValidPath path then Inl (invalid_param ''path'')
              else case ContentFor f1 f2 vol path (s_db s) of
                     Inl e \<Rightarrow> Inl (500, err_text e)
                   | Inr info \<Rightarrow>
                       (let msg = noTextReason info; chunks = (case info of None \<Rightarrow> [] | Some st \<Rightarrow> ci_chunks st);
                            h = [(''X-Content-Type-Options'', ''nosniff''), (''Content-Security-Policy'', ''sandbox'')]
                        in if msg \<noteq> [] then Inl (404, msg)
                           else if p ''format'' = ''json''
                           then Inr (200, ((''Content-Type'', ''application/json'') # h, TextJSON vol path (path_base path) chunks))
                           else Inr (200, ((''Content-Type'', ''text/plain; charset=utf-8'') # h,
                                  TextPlain (join [CHR 0x0A, CHR 0x0A] chunks @ [CHR 0x0A]))))))"

section \<open>What changes the settings\<close>

lemma SetContentSettings_errors:
  "SetContentSettings flt now cs d = (Inl e, d') \<Longrightarrow>
   d' = d \<and> (is_invalid_settings e = (Validate cs \<noteq> None))"
  by (auto simp: SetContentSettings_def is_invalid_settings_def Validate_def split: option.splits if_splits)

lemma SetContentSettings_done:
  "SetContentSettings flt now cs d = (Inr x, d') \<Longrightarrow>
   Validate cs = None \<and> SetContentSettings None now cs d = (Inr (), d')"
  by (auto simp: SetContentSettings_def split: option.splits)

text \<open>C22: a request to change the settings either fails and changes nothing, with a 400 for a body that is not
  JSON or values out of range, a 413 for a body that is too large and a 500 for the database; or it succeeds
  with valid settings, which are the ones loaded from then on, wakes the indexer and touches nothing else.
  Fields the body does not give keep the value they had.\<close>

theorem settings_request:
  assumes "db_ok (s_db s)"
  shows "case handlePutSettings f1 f2 now body s of
      (Inl (st, msg), s') \<Rightarrow> s' = s \<and>
        (if st = 413 then body = TooLarge
         else if st = 400 then body = BadJSON \<or> (\<exists>cur vs. ContentSettings f1 (s_db s) = Inr cur \<and> body = Decoded vs \<and> Validate (settingsBody cur vs) \<noteq> None)
         else st = 500 \<and> (is_err (ContentSettings f1 (s_db s)) \<or> f2 \<noteq> None))
    | (Inr (st, cs), s') \<Rightarrow> st = 200 \<and> Validate cs = None \<and> ContentSettings None (s_db s') = Inr cs \<and>
        s' = s\<lparr>s_kick := True, s_db := (s_db s)\<lparr>settings := settings (s_db s')\<rparr>\<rparr> \<and>
        (\<exists>cur. ContentSettings f1 (s_db s) = Inr cur \<and>
          (case body of Decoded [Fields p] \<Rightarrow> cs = patch p cur | Decoded [] \<Rightarrow> cs = cur | _ \<Rightarrow> True))"
proof (cases "ContentSettings f1 (s_db s)")
  case (Inl e)
  then show ?thesis by (simp add: handlePutSettings_def)
next
  case (Inr cur)
  show ?thesis
  proof (cases "decodeJSON body")
    case (Inl e)
    then show ?thesis using Inr by (auto simp: handlePutSettings_def decodeJSON_def split: body.splits)
  next
    case d: (Inr vs)
    then have b: "body = Decoded vs" by (auto simp: decodeJSON_def split: body.splits)
    let ?cs = "settingsBody cur vs"
    have one: "settingsBody cur [Fields p] = patch p cur" "settingsBody cur [] = cur" for p
      by (simp_all add: settingsBody_def content_step_def)
    obtain res d' where r: "SetContentSettings f2 now ?cs (s_db s) = (res, d')" by fastforce
    show ?thesis
    proof (cases res)
      case (Inl e)
      then show ?thesis using SetContentSettings_errors [OF r [unfolded Inl]] Inr d b r
        by (auto simp: handlePutSettings_def Let_def set_db_def SetContentSettings_def split: option.splits)
    next
      case ok: (Inr x)
      have v: "Validate ?cs = None" "SetContentSettings None now ?cs (s_db s) = (Inr (), d')"
        using SetContentSettings_done [OF r [unfolded ok]] by auto
      have "ContentSettings None d' = Inr ?cs" using settings_roundtrip [OF assms v(1), of now] v(2) by simp
      moreover have "d' = (s_db s)\<lparr>settings := settings d'\<rparr>" using v by (auto simp: SetContentSettings_def)
      ultimately show ?thesis using Inr d b r ok v(1) one
        by (auto simp: handlePutSettings_def Let_def set_db_def kickContent_def split: list.split content_value.split)
    qed
  qed
qed

definition pause_body :: "content_value list body" where
  "pause_body = Decoded [Fields \<lparr>pa_paused = Some True, pa_max_file_bytes = None, pa_max_text_bytes = None, pa_workers = Some 4,
     pa_delay_ms = None\<rparr>]"

definition too_many_workers :: "content_value list body" where
  "too_many_workers = Decoded [Fields \<lparr>pa_paused = None, pa_max_file_bytes = None, pa_max_text_bytes = None, pa_workers = Some 5,
     pa_delay_ms = None\<rparr>]"

theorem settings_request_witness:
  "snd (handlePutSettings None None 7 too_many_workers (new_server empty_db)) = new_server empty_db \<and>
   ContentSettings None (s_db (snd (handlePutSettings None None 7 pause_body (new_server empty_db)))) =
     Inr (DefaultContentSettings\<lparr>Paused := True, Workers := 4\<rparr>)"
proof -
  let ?s = "new_server empty_db"
  let ?bad = "handlePutSettings None None 7 too_many_workers ?s" and ?good = "handlePutSettings None None 7 pause_body ?s"
  have d: "db_ok (s_db ?s)" by (simp add: new_server_def db_ok_empty)
  have "case fst ?bad of Inl _ \<Rightarrow> True | Inr _ \<Rightarrow> False" by code_simp
  then obtain st msg s' where b: "?bad = (Inl (st, msg), s')"
    by (cases ?bad; cases "fst ?bad") (auto split: sum.splits)
  have "case fst ?good of Inl _ \<Rightarrow> False | Inr (st, cs) \<Rightarrow> cs = DefaultContentSettings\<lparr>Paused := True, Workers := 4\<rparr>" by code_simp
  then obtain st' cs s'' where g: "?good = (Inr (st', cs), s'')" "cs = DefaultContentSettings\<lparr>Paused := True, Workers := 4\<rparr>"
    by (cases ?good; cases "fst ?good") (auto split: sum.splits)
  show ?thesis
    using settings_request [OF d, where ?f1.0 = None and ?f2.0 = None and now = 7 and body = too_many_workers] settings_request [OF d, where ?f1.0 = None and ?f2.0 = None and now = 7 and body = pause_body]
    unfolding b g(1) by (simp add: g(2))
qed

section \<open>From the share to the viewer\<close>

lemma join_ink:
  "valid_utf8 sep \<Longrightarrow> ink sep = [] \<Longrightarrow> list_all valid_utf8 xs \<Longrightarrow> valid_utf8 (join sep xs) \<and> ink (join sep xs) = concat (map ink xs)"
  by (induction sep xs rule: join.induct) (auto simp: ink_append valid_utf8_appendI)

lemma noText_done: "noTextReason (Some \<lparr>ci_status = ContentDone, ci_reason = r, ci_chunks = x # xs\<rparr>) = []"
  by (simp add: noTextReason_def)

text \<open>What the index holds about a file whose extraction gave a text\<close>

lemma text_recorded:
  assumes "db_ok (s_db s)" "r \<in> set (files (s_db s))" "indexOne u cs je (pending_of r) s = (True, s')"
    and "extractFile u je cs (pending_of r) = Inr t" "fSize r \<le> MaxFileBytes cs"
  shows "ContentFor None None (fVolume r) (fPath r) (s_db s') = Inr (Some
    (if trim_space t = [] then \<lparr>ci_status = ContentSkipped, ci_reason = ''no_text'', ci_chunks = []\<rparr>
     else \<lparr>ci_status = ContentDone, ci_reason = [], ci_chunks = Chunk t ChunkSize\<rparr>))"
proof -
  let ?f = "pending_of r"
  have f: "pf_volume ?f = fVolume r" "pf_path ?f = fPath r" "pf_size ?f = fSize r" by (simp_all add: pending_of_def)
  have "s_db s' = saved_outcome u cs je ?f (s_db s)"
    using indexOne_cases [OF assms(1,2), of u cs je] assms(3) by (auto simp: set_db_def)
  then have rec: "recorded u cs (\<lambda>_. je) {r} (s_db s) (s_db s')"
    using recorded_one [OF assms(1,2), of u cs "\<lambda>_. je"] by simp
  have "content_at (s_db s') (fVolume r, fPath r) = Some (outcome_row u cs je ?f)"
    "chunks_at (s_db s') (fVolume r, fPath r) = outcome_chunks u cs je ?f"
    using recordedD(5,6) [OF rec, of r] by (simp_all add: file_key_def)
  moreover have "sort_key ch_seq (chunk_rows v q xs) = chunk_rows v q xs" for v q xs
    by (rule sort_key_id_if_sorted) (simp add: chunk_rows_facts)
  ultimately show ?thesis using assms(4,5)
    by (simp add: ContentFor_def outcome_row_def outcome_chunks_def outcome_def f chunk_rows_facts null_if_empty_def or_empty_def)
qed

text \<open>C4: the text the viewer gets of a file just indexed is the text that was extracted from it, with only white
  space changed, whole and in order, as trimmed chunks or as one plain text, never executable on this origin;
  a file with a blank text is answered with a 404 that says so.\<close>

theorem indexed_text_served:
  assumes "db_ok (s_db s)" "r \<in> set (files (s_db s))" "indexOne u cs je (pending_of r) s = (True, s')"
    and "extractFile u je cs (pending_of r) = Inr t" "valid_utf8 t" "fSize r \<le> MaxFileBytes cs"
    and "parseVolumeIDParam p = Inr (fVolume r)" "trim_bytes (p ''path'') [sl] = fPath r" "fPath r \<noteq> []" "ValidPath (fPath r)"
  shows "case handleFileText None None p s' of
      Inl (st, msg) \<Rightarrow> st = 404 \<and> trim_space t = [] \<and> msg = ''this file contains no text''
    | Inr (st, h, answer) \<Rightarrow> st = 200 \<and> trim_space t \<noteq> [] \<and>
        (''X-Content-Type-Options'', ''nosniff'') \<in> set h \<and> (''Content-Security-Policy'', ''sandbox'') \<in> set h \<and>
        (case answer of
           TextJSON v q nm cks \<Rightarrow> p ''format'' = ''json'' \<and> (v, q, nm) = (fVolume r, fPath r, path_base (fPath r)) \<and>
             concat (map ink cks) = ink t \<and> list_all (\<lambda>c. valid_utf8 c \<and> trim_space c = c) cks
         | TextPlain x \<Rightarrow> p ''format'' \<noteq> ''json'' \<and> valid_utf8 x \<and> ink x = ink t)"
proof (cases "trim_space t = []")
  case True
  then show ?thesis using text_recorded [OF assms(1-4,6)] assms(7-10)
    by (simp add: handleFileText_def Let_def noTextReason_def ContentSkipped_def ContentDone_def ContentFailed_def too_large_def)
next
  case False
  have c: "concat (map ink (Chunk t ChunkSize)) = ink t \<and> list_all (\<lambda>c. valid_utf8 c \<and> trim_space c = c) (Chunk t ChunkSize)"
    by (rule chunk_ink_aux [OF assms(5)])
  have "ink t \<noteq> []" using False trim_space_Nil_iff [OF assms(5)] by simp
  then obtain x xs where x: "Chunk t ChunkSize = x # xs" using c by (cases "Chunk t ChunkSize") auto
  have nl: "valid_utf8 [CHR 0x0A]" "valid_utf8 [CHR 0x0A, CHR 0x0A]" "ink [CHR 0x0A] = []" "ink [CHR 0x0A, CHR 0x0A] = []"
    by code_simp+
  have v: "list_all valid_utf8 (Chunk t ChunkSize)" using c by (simp add: list_all_iff)
  have plain: "valid_utf8 (join [CHR 0x0A, CHR 0x0A] (Chunk t ChunkSize) @ [CHR 0x0A])"
    "ink (join [CHR 0x0A, CHR 0x0A] (Chunk t ChunkSize) @ [CHR 0x0A]) = ink t"
    using join_ink [OF nl(2,4) v] nl(1,3) c by (simp_all add: valid_utf8_appendI ink_append)
  show ?thesis using text_recorded [OF assms(1-4,6)] assms(7-10) False c plain
    by (simp add: handleFileText_def Let_def x noText_done)
qed

definition text_params :: params where
  "text_params k = (if k = ''volume'' then ''1'' else if k = ''path'' then ''/a.txt'' else [])"

theorem indexed_text_served_witness:
  "case handleFileText None None text_params (snd (indexOne ascii_tables DefaultContentSettings
       (queue_env (pending_of (queue_file ''a.txt''))) (pending_of (queue_file ''a.txt'')) queue_server)) of
     Inl _ \<Rightarrow> False
   | Inr (st, h, answer) \<Rightarrow> (case answer of TextJSON _ _ _ _ \<Rightarrow> False | TextPlain x \<Rightarrow> ink x = ink ''hello'')"
proof -
  let ?r = "queue_file ''a.txt''"
  let ?je = "queue_env (pending_of ?r)"
  have r: "?r \<in> set (files (s_db queue_server))"
    by (simp add: queue_server_def start_finish_def registerVolumeRuntime_def new_server_def empty_db_def Let_def)
  have "volumeRuntime (fVolume ?r) queue_server \<noteq> None"
    by (simp add: queue_server_def start_finish_def registerVolumeRuntime_def new_server_def volumeRuntime_def Let_def)
  moreover have "job_runs ?je" by (simp add: job_runs_def queue_env_def)
  ultimately obtain s' where i: "indexOne ascii_tables DefaultContentSettings ?je (pending_of ?r) queue_server = (True, s')"
    using indexOne_cases [OF queue_db_ok r, of ascii_tables DefaultContentSettings ?je] by blast
  have "''txt'' \<in> set all_exts" by (simp add: all_exts_def add_calls_def row_exts_def)
  moreover have "with_extractor extractor_calls ''txt'' [] = ''text''" by code_simp
  moreover have "map_of (extractors example_packages) ''text'' = Some extractText"
    by (simp add: extractors_def ExtText_def)
  ultimately have x: "Extract example_packages ''txt'' = extractText" by (rule Extract_by_table) simp
  have "extractText (file_read_at ''hello'') (nat 5) (nat (MaxTextBytes DefaultContentSettings)) = Inr ''hello''" by code_simp
  moreover have "to_lower ascii_tables ''txt'' = ''txt''" by code_simp
  moreover have "pf_path (pending_of ?r) = ''a.txt''" "pf_ext (pending_of ?r) = ''txt''" "pf_size (pending_of ?r) = 5"
    by (simp_all add: pending_of_def)
  ultimately have t: "extractFile ascii_tables ?je DefaultContentSettings (pending_of ?r) = Inr ''hello''"
    by (simp add: extractFile_def queue_env_def x)
  have p: "parseVolumeIDParam text_params = Inr (fVolume ?r)" "trim_bytes (text_params ''path'') [sl] = fPath ?r" 
    "fPath ?r \<noteq> []" "ValidPath (fPath ?r)" "valid_utf8 ''hello''" "trim_space ''hello'' \<noteq> []"
    unfolding queue_file_simps by code_simp+
  have f: "text_params ''format'' \<noteq> ''json''" "fSize ?r \<le> MaxFileBytes DefaultContentSettings" 
    by (simp_all add: text_params_def DefaultContentSettings_def)
  from indexed_text_served [OF queue_db_ok r i t p(5) f(2) p(1-4)] p(6) f(1) show ?thesis
    by (auto simp: i split: sum.splits prod.splits file_text.splits)
qed

end
