(* ===== verification/Version.thy ===== *)
theory Version
  imports GoNumbers
begin

text \<open>
  The update check (internal/httpapi/version.go): parsing and comparing release versions, choosing the
  release to offer, the cache in front of the release list, and the /version answer. The GitHub API is a
  parameter: the answer a lookup would get. Times are nanoseconds; \<^term>\<open>None\<close> is the zero time.
\<close>

section \<open>Versions\<close>

datatype semver = Semver (v_major: int) (v_minor: int) (v_patch: int)

fun semverLess :: "semver \<Rightarrow> semver \<Rightarrow> bool" where
  "semverLess (Semver a b c) (Semver x y z) =
     (if a \<noteq> x then a < x else if b \<noteq> y then b < y else if c \<noteq> z then c < z else False)"

instantiation semver :: linorder
begin

definition less_semver :: "semver \<Rightarrow> semver \<Rightarrow> bool" where
  "less_semver = semverLess"

definition less_eq_semver :: "semver \<Rightarrow> semver \<Rightarrow> bool" where
  "less_eq_semver v w = (semverLess v w \<or> v = w)"

instance
proof
  fix u v w :: semver
  show "(v < w) = (v \<le> w \<and> \<not> w \<le> v)"
    by (cases v; cases w) (auto simp: less_semver_def less_eq_semver_def split: if_splits)
  show "v \<le> v" by (simp add: less_eq_semver_def)
  show "u \<le> v \<Longrightarrow> v \<le> w \<Longrightarrow> u \<le> w"
    by (cases u; cases v; cases w) (auto simp: less_eq_semver_def split: if_splits)
  show "v \<le> w \<Longrightarrow> w \<le> v \<Longrightarrow> v = w"
    by (cases v; cases w) (auto simp: less_eq_semver_def split: if_splits)
  show "v \<le> w \<or> w \<le> v"
    by (cases v; cases w) (auto simp: less_eq_semver_def)
qed

end

definition version_part :: "string \<Rightarrow> int option" where
  "version_part p = (case ParseInt p of Inl _ \<Rightarrow> None | Inr n \<Rightarrow> if n < 0 then None else Some n)"

text \<open>\<^term>\<open>None\<close> is a false second result\<close>

definition cut_suffix :: "string \<Rightarrow> string" where
  "cut_suffix s = takeWhile (\<lambda>c. c \<noteq> CHR ''-'' \<and> c \<noteq> CHR ''+'') s"

definition parseSemver :: "string \<Rightarrow> semver option" where
  "parseSemver s =
     (case map version_part (split_on ''.'' (cut_suffix (trim_prefix s ''v''))) of
        [Some a, Some b, Some c] \<Rightarrow> Some (Semver a b c)
      | _ \<Rightarrow> None)"

definition isNewer :: "string \<Rightarrow> string \<Rightarrow> bool" where
  "isNewer latest current =
     (case (parseSemver latest, parseSemver current) of
        (Some l, Some c) \<Rightarrow> semverLess c l
      | _ \<Rightarrow> False)"

section \<open>Choosing a release\<close>

record release =
  r_tag :: string
  r_url :: string
  r_prerelease :: bool
  r_draft :: bool

definition no_release :: release where
  "no_release = \<lparr>r_tag = [], r_url = [], r_prerelease = False, r_draft = False\<rparr>"

definition pick_step :: "bool \<Rightarrow> (release \<times> semver) option \<Rightarrow> release \<Rightarrow> (release \<times> semver) option" where
  "pick_step includePre best r =
     (if r_draft r \<or> (r_prerelease r \<and> \<not> includePre) then best
      else case parseSemver (r_tag r) of
             None \<Rightarrow> best
           | Some v \<Rightarrow>
               (case best of
                  None \<Rightarrow> Some (r, v)
                | Some (b, bestV) \<Rightarrow> if \<not> semverLess bestV v then best else Some (r, v)))"

definition pickLatest :: "release list \<Rightarrow> bool \<Rightarrow> release option" where
  "pickLatest releases includePre = map_option fst (foldl (pick_step includePre) None releases)"

datatype http_reply = Unreachable string | Answered nat "release list option"

definition github :: string where
  "github = ''https://github.com/''"

definition fetchLatestRelease :: "http_reply \<Rightarrow> bool \<Rightarrow> string + release" where
  "fetchLatestRelease reply includePre =
     (case reply of
        Unreachable e \<Rightarrow> Inl e
      | Answered status body \<Rightarrow>
          (if status \<noteq> 200 then Inl ''github releases''
           else case body of
             None \<Rightarrow> Inl ''invalid JSON''
           | Some releases \<Rightarrow>
               (case pickLatest releases includePre of
                  None \<Rightarrow> Inl ''github releases: none published''
                | Some rel \<Rightarrow> Inr (if has_prefix (r_url rel) github then rel else rel\<lparr>r_url := []\<rparr>))))"

section \<open>The cache\<close>

definition releaseTTL :: int where
  "releaseTTL = 6 * 3600 * 10 ^ 9"

definition releaseRetryTTL :: int where
  "releaseRetryTTL = 3600 * 10 ^ 9"

record checker =
  u_checked :: "int option"
  u_rel :: release
  u_ok :: bool

definition newUpdateChecker :: checker where
  "newUpdateChecker = \<lparr>u_checked = None, u_rel = no_release, u_ok = False\<rparr>"

text \<open>A lookup starts at \<open>t\<close>; when it has to fetch, the answer arrives at \<open>t'\<close>.\<close>

definition is_fresh :: "checker \<Rightarrow> int \<Rightarrow> bool" where
  "is_fresh u t = (case u_checked u of None \<Rightarrow> False
     | Some c \<Rightarrow> t - c < (if u_ok u then releaseTTL else releaseRetryTTL))"

definition latest :: "bool \<Rightarrow> checker \<Rightarrow> int \<Rightarrow> int \<Rightarrow> http_reply \<Rightarrow> release option \<times> checker" where
  "latest includePre u t t' reply =
     (if is_fresh u t then (if u_ok u then Some (u_rel u) else None, u)
      else case fetchLatestRelease reply includePre of
             Inl _ \<Rightarrow> (None, \<lparr>u_checked = Some t', u_rel = no_release, u_ok = False\<rparr>)
           | Inr rel \<Rightarrow> (Some rel, \<lparr>u_checked = Some t', u_rel = rel, u_ok = True\<rparr>))"

record version_info =
  vi_current :: string
  vi_latest :: string
  vi_update :: bool
  vi_url :: string

definition include_pre :: "string \<Rightarrow> bool" where
  "include_pre version = (case parseSemver version of Some v \<Rightarrow> v_major v = 0 | None \<Rightarrow> False)"

definition handleVersion :: "string \<Rightarrow> checker \<Rightarrow> int \<Rightarrow> int \<Rightarrow> http_reply \<Rightarrow> version_info \<times> checker" where
  "handleVersion version u t t' reply =
     (let info = \<lparr>vi_current = version, vi_latest = [], vi_update = False, vi_url = []\<rparr>
      in if parseSemver version = None then (info, u)
         else case latest (include_pre version) u t t' reply of
                (None, u') \<Rightarrow> (info, u')
              | (Some rel, u') \<Rightarrow>
                  (info\<lparr>vi_latest := r_tag rel, vi_update := isNewer (r_tag rel) version, vi_url := r_url rel\<rparr>, u'))"

section \<open>What is chosen\<close>

definition offered :: "bool \<Rightarrow> release \<Rightarrow> bool" where
  "offered includePre r \<longleftrightarrow> \<not> r_draft r \<and> (r_prerelease r \<longrightarrow> includePre) \<and> parseSemver (r_tag r) \<noteq> None"

definition ver :: "release \<Rightarrow> semver" where
  "ver r = the (parseSemver (r_tag r))"

lemma pick_step_offered:
  "pick_step pre best r = (if offered pre r then (case best of None \<Rightarrow> Some (r, ver r)
     | Some (b, bv) \<Rightarrow> if bv < ver r then Some (r, ver r) else best) else best)"
  by (auto simp: pick_step_def offered_def ver_def less_semver_def split: option.splits)

definition best_of :: "bool \<Rightarrow> release list \<Rightarrow> release \<Rightarrow> bool" where
  "best_of pre rs r \<longleftrightarrow> (\<exists>xs ys. rs = xs @ r # ys \<and> offered pre r \<and>
     (\<forall>x \<in> set xs. offered pre x \<longrightarrow> ver x < ver r) \<and> (\<forall>y \<in> set ys. offered pre y \<longrightarrow> ver y \<le> ver r))"

lemma best_of_snoc_new:
  "offered pre y \<Longrightarrow> (\<And>x. x \<in> set rs \<Longrightarrow> offered pre x \<Longrightarrow> ver x < ver y) \<Longrightarrow> best_of pre (rs @ [y]) y"
  unfolding best_of_def by (intro exI [of _ rs] exI [of _ "[]"]) simp

lemma best_of_snoc_old:
  assumes "best_of pre rs r" "\<not> (offered pre y \<and> ver r < ver y)"
  shows "best_of pre (rs @ [y]) r"
proof -
  obtain xs ys where "rs = xs @ r # ys" "offered pre r" "\<forall>x \<in> set xs. offered pre x \<longrightarrow> ver x < ver r"
    "\<forall>z \<in> set ys. offered pre z \<longrightarrow> ver z \<le> ver r" using assms(1) by (auto simp: best_of_def)
  then show ?thesis unfolding best_of_def using assms(2)
    by (intro exI [of _ xs] exI [of _ "ys @ [y]"]) auto
qed

lemma best_of_max: "best_of pre rs r \<Longrightarrow> x \<in> set rs \<Longrightarrow> offered pre x \<Longrightarrow> ver x \<le> ver r"
  by (auto simp: best_of_def order_le_less)

lemma pick_fold:
  "case foldl (pick_step pre) None rs of
     None \<Rightarrow> \<forall>r \<in> set rs. \<not> offered pre r
   | Some (r, v) \<Rightarrow> v = ver r \<and> best_of pre rs r"
proof (induction rs rule: rev_induct)
  case (snoc y rs)
  show ?case
  proof (cases "foldl (pick_step pre) None rs")
    case None
    then have no: "\<forall>r \<in> set rs. \<not> offered pre r" using snoc by simp
    have "offered pre y \<Longrightarrow> best_of pre (rs @ [y]) y" by (rule best_of_snoc_new) (use no in auto)
    then show ?thesis using None no pick_step_offered [of pre None y] by auto
  next
    case (Some p)
    obtain r v where p: "p = (r, v)" by (cases p)
    have r: "v = ver r" "best_of pre rs r" using snoc Some p by auto
    show ?thesis
    proof (cases "offered pre y \<and> ver r < ver y")
      case True
      have "best_of pre (rs @ [y]) y"
        by (rule best_of_snoc_new) (use True r(2) best_of_max [of pre rs r] in \<open>auto intro: le_less_trans\<close>)
      then show ?thesis using True Some p r pick_step_offered [of pre "Some (r, v)" y] by simp
    next
      case False
      then show ?thesis using Some p r best_of_snoc_old [OF r(2) False] pick_step_offered [of pre "Some (r, v)" y]
        by auto
    qed
  qed
qed simp

text \<open>The release picked is published, is not a pre-release unless those are wanted, has the highest
  version of all such releases and is the first with that version in the list; nothing is picked exactly
  when no release qualifies.\<close>

theorem pickLatest_correct:
  "case pickLatest rs pre of
     None \<Rightarrow> filter (offered pre) rs = []
   | Some r \<Rightarrow> (\<exists>xs ys. rs = xs @ r # ys \<and> offered pre r \<and> list_all (\<lambda>x. ver x < ver r) (filter (offered pre) xs) \<and>
       list_all (\<lambda>y. ver y \<le> ver r) (filter (offered pre) ys))"
  using pick_fold [where pre = pre and rs = rs]
  by (auto simp: pickLatest_def best_of_def list_all_iff filter_empty_conv split: option.splits)

section \<open>Over a sequence of requests\<close>

type_synonym poll = "int \<times> int \<times> http_reply"

fun checks :: "bool \<Rightarrow> checker \<Rightarrow> poll list \<Rightarrow> checker" where
  "checks pre u [] = u"
| "checks pre u ((t, t', reply) # ps) = checks pre (snd (latest pre u t t' reply)) ps"

text \<open>The lookups that went out to GitHub: start and end\<close>

fun fetches :: "bool \<Rightarrow> checker \<Rightarrow> poll list \<Rightarrow> (int \<times> int) list" where
  "fetches pre u [] = []"
| "fetches pre u ((t, t', reply) # ps) =
     (if is_fresh u t then [] else [(t, t')]) @ fetches pre (snd (latest pre u t t' reply)) ps"

text \<open>A release that an answer of GitHub, one of those in \<open>R\<close>, gave\<close>

definition from_answer :: "bool \<Rightarrow> http_reply set \<Rightarrow> release \<Rightarrow> bool" where
  "from_answer pre R rel \<longleftrightarrow> (\<exists>rs r. Answered 200 (Some rs) \<in> R \<and> r \<in> set rs \<and> offered pre r \<and> r_tag rel = r_tag r \<and>
     (r_url rel = [] \<or> r_url rel = r_url r \<and> has_prefix (r_url r) github))"

lemma fetched_from_answer:
  assumes "fetchLatestRelease reply pre = Inr rel"
  shows "from_answer pre {reply} rel"
proof -
  obtain rs r where r: "reply = Answered 200 (Some rs)" "pickLatest rs pre = Some r"
      "rel = (if has_prefix (r_url r) github then r else r\<lparr>r_url := []\<rparr>)"
    using assms by (auto simp: fetchLatestRelease_def split: http_reply.splits if_splits option.splits)
  have "offered pre r" "r \<in> set rs" using pick_fold [where pre = pre and rs = rs] r(2)
    by (auto simp: pickLatest_def best_of_def)
  then show ?thesis unfolding from_answer_def using r by (intro exI [of _ rs] exI [of _ r]) simp
qed

lemma from_answer_mono: "from_answer pre R rel \<Longrightarrow> R \<subseteq> S \<Longrightarrow> from_answer pre S rel"
  unfolding from_answer_def by (metis subsetD)

definition held :: "bool \<Rightarrow> http_reply set \<Rightarrow> checker \<Rightarrow> bool" where
  "held pre R u \<longleftrightarrow> (u_ok u \<longrightarrow> from_answer pre R (u_rel u))"

lemma latest_held:
  assumes "held pre R u"
  shows "held pre (insert reply R) (snd (latest pre u t t' reply))"
    and "fst (latest pre u t t' reply) = Some rel \<Longrightarrow> from_answer pre (insert reply R) rel"
proof -
  have m: "from_answer pre R x \<Longrightarrow> from_answer pre (insert reply R) x"
    "from_answer pre {reply} x \<Longrightarrow> from_answer pre (insert reply R) x" for x
    by (erule from_answer_mono, blast)+
  show "held pre (insert reply R) (snd (latest pre u t t' reply))"
    using assms m fetched_from_answer [of reply pre] by (auto simp: latest_def held_def split: sum.splits)
  show "fst (latest pre u t t' reply) = Some rel \<Longrightarrow> from_answer pre (insert reply R) rel"
    using assms m fetched_from_answer [of reply pre] by (auto simp: latest_def held_def split: sum.splits if_splits)
qed

lemma checks_held: "held pre R u \<Longrightarrow> held pre (R \<union> (\<lambda>(t, t', reply). reply) ` set ps) (checks pre u ps)"
proof (induction pre u ps arbitrary: R rule: checks.induct)
  case (2 pre u t t' reply ps)
  show ?case using 2(1) [OF latest_held(1) [OF 2(2), of reply t t']] by simp
qed simp

lemma held_new: "held pre {} newUpdateChecker"
  by (simp add: held_def newUpdateChecker_def)

text \<open>C34: after any sequence of requests, a version answer that announces an update names a published
  release of a list GitHub answered with; it is strictly newer than the running one, is a pre-release
  only for a running 0.x, and its link is empty or the release's own on GitHub.\<close>

theorem update_offer:
  assumes "handleVersion version (checks (include_pre version) newUpdateChecker ps) t t' reply = (info, u)"
    and "vi_update info"
  shows "\<exists>cur new rs r. parseSemver version = Some cur \<and> parseSemver (vi_latest info) = Some new \<and> cur < new \<and>
    Answered 200 (Some rs) \<in> insert reply ((\<lambda>(t, t', reply). reply) ` set ps) \<and> r \<in> set rs \<and>
    r_tag r = vi_latest info \<and> \<not> r_draft r \<and> (r_prerelease r \<longrightarrow> v_major cur = 0) \<and>
    (vi_url info = [] \<or> vi_url info = r_url r \<and> has_prefix (r_url r) github)"
proof -
  let ?u = "checks (include_pre version) newUpdateChecker ps"
  obtain rel where rel: "fst (latest (include_pre version) ?u t t' reply) = Some rel" "parseSemver version \<noteq> None"
      "vi_latest info = r_tag rel" "vi_url info = r_url rel" "isNewer (r_tag rel) version"
    using assms by (auto simp: handleVersion_def Let_def split: if_splits option.splits prod.splits)
  obtain cur new where v: "parseSemver version = Some cur" "parseSemver (r_tag rel) = Some new" "cur < new"
    using rel(2,5) by (auto simp: isNewer_def less_semver_def split: option.splits)
  have "from_answer (include_pre version) (insert reply ((\<lambda>(t, t', reply). reply) ` set ps)) rel"
    using latest_held(2) [OF checks_held [OF held_new] rel(1)] by simp
  then obtain rs r where r: "Answered 200 (Some rs) \<in> insert reply ((\<lambda>(t, t', reply). reply) ` set ps)" "r \<in> set rs"
      "offered (include_pre version) r" "r_tag rel = r_tag r" "r_url rel = [] \<or> r_url rel = r_url r \<and> has_prefix (r_url r) github"
    unfolding from_answer_def by blast
  show ?thesis
    by (rule exI [of _ cur], rule exI [of _ new], rule exI [of _ rs], rule exI [of _ r])
      (use rel(3,4) v r in \<open>simp add: offered_def include_pre_def\<close>)
qed

definition example_releases :: "release list" where
  "example_releases =
     [\<lparr>r_tag = ''v1.3.0-rc1'', r_url = ''https://github.com/x/rc'', r_prerelease = True, r_draft = False\<rparr>,
      \<lparr>r_tag = ''v1.1.9'', r_url = ''https://github.com/x/a'', r_prerelease = False, r_draft = False\<rparr>,
      \<lparr>r_tag = ''v1.2.10'', r_url = ''http://example.org/b'', r_prerelease = False, r_draft = False\<rparr>]"

theorem update_offer_witness:
  "\<exists>cur new. parseSemver ''1.2.9'' = Some cur \<and> parseSemver ''v1.2.10'' = Some new \<and> cur < new"
proof -
  let ?r = "Answered 200 (Some example_releases)"
  have "handleVersion ''1.2.9'' (checks (include_pre ''1.2.9'') newUpdateChecker [(0, 1, Unreachable ''x'')]) (4 * 3600 * 10 ^ 9) 2 ?r =
    (\<lparr>vi_current = ''1.2.9'', vi_latest = ''v1.2.10'', vi_update = True, vi_url = []\<rparr>,
     \<lparr>u_checked = Some 2, u_rel = (example_releases ! 2)\<lparr>r_url := []\<rparr>, u_ok = True\<rparr>)" by code_simp
  from update_offer [OF this] show ?thesis by auto
qed

text \<open>
  The lookups that reach GitHub are apart by at least the retry interval, counted from the end of one
  to the start of the next.
\<close>

fun spaced :: "int \<Rightarrow> (int \<times> int) list \<Rightarrow> bool" where
  "spaced gap ((s, e) # (s', e') # xs) = (gap \<le> s' - e \<and> spaced gap ((s', e') # xs))"
| "spaced gap _ = True"

lemma fetches_after:
  assumes "u_checked u = Some c"
  shows "case fetches pre u ps of [] \<Rightarrow> True | (s, e) # _ \<Rightarrow> releaseRetryTTL \<le> s - c"
  using assms
proof (induction pre u ps rule: fetches.induct)
  case (2 pre u t t' reply ps)
  show ?case
  proof (cases "is_fresh u t")
    case True
    then have "snd (latest pre u t t' reply) = u" by (simp add: latest_def)
    then show ?thesis using 2 True by simp
  next
    case False
    then show ?thesis using 2(2) by (auto simp: is_fresh_def releaseTTL_def releaseRetryTTL_def split: if_splits)
  qed
qed simp

text \<open>Whatever is requested and whatever GitHub answers, two lookups that reach GitHub are at least an
  hour apart.\<close>

theorem lookups_spaced: "spaced releaseRetryTTL (fetches pre u ps)"
proof (induction pre u ps rule: fetches.induct)
  case (2 pre u t t' reply ps)
  show ?case
  proof (cases "is_fresh u t")
    case False
    let ?u = "snd (latest pre u t t' reply)"
    have "u_checked ?u = Some t'" using False by (auto simp: latest_def split: sum.split)
    from fetches_after [OF this, of pre ps] show ?thesis using 2 False
      by (cases "fetches pre ?u ps") (auto split: prod.splits)
  qed (use 2 in simp)
qed simp

end
