(* ===== verification/Routes.thy ===== *)
theory Routes
  imports Api Version HostGuard
begin

text \<open>
  The whole API as one function: the browser guard in front, the routing table of \<open>Routes\<close>
  (internal/httpapi/server.go) and the handler a request reaches. A request has the segments of its path,
  cleaned and unescaped by net/http, a trailing slash being the segment of a slash alone; the routing of
  \<open>http.ServeMux\<close> is defined: literal segments before wildcards, a wildcard for the rest last, GET patterns
  for HEAD too. What the server does not decide itself (the database's faults, the answers of sessions and of
  the release page, time and random bytes) is an environment that comes with each request.
\<close>

section \<open>Patterns\<close>

datatype seg = Lit string | One | Rest

definition children :: "seg \<Rightarrow> (seg list \<times> 'r) list \<Rightarrow> (seg list \<times> 'r) list" where
  "children x ps = List.map_filter (\<lambda>(p, r). case p of [] \<Rightarrow> None | y # q \<Rightarrow> if y = x then Some (q, r) else None) ps"

text \<open>The second result is what the single wildcards matched\<close>

fun match_path :: "(seg list \<times> 'r) list \<Rightarrow> string list \<Rightarrow> string list \<Rightarrow> ('r \<times> string list) option" where
  "match_path ps [] caps = map_option (\<lambda>(p, r). (r, caps)) (find (\<lambda>(p, r). p = []) ps)"
| "match_path ps (s # ss) caps =
     (case match_path (children (Lit s) ps) ss caps of
        Some x \<Rightarrow> Some x
      | None \<Rightarrow>
          (case (if s = [sl] then None else match_path (children One ps) ss (caps @ [s])) of
             Some x \<Rightarrow> Some x
           | None \<Rightarrow> map_option (\<lambda>(p, r). (r, caps)) (find (\<lambda>(p, r). p = [Rest]) ps)))"

definition of_method :: "string \<Rightarrow> (string \<times> seg list \<times> 'r) list \<Rightarrow> (seg list \<times> 'r) list" where
  "of_method m table = map snd (filter (\<lambda>(m', _). m' = m) table)"

definition find_route :: "(string \<times> seg list \<times> 'r) list \<Rightarrow> string \<Rightarrow> string list \<Rightarrow> ('r \<times> string list) option" where
  "find_route table m segs =
     (case match_path (of_method m table) segs [] of
        Some x \<Rightarrow> Some x
      | None \<Rightarrow> (if m = ''HEAD'' then match_path (of_method ''GET'' table) segs [] else None))"

section \<open>The routing table\<close>

datatype route = ToHealth | ToVersion | ToStats | ToFileTypes | ToGetSettings | ToPutSettings | ToContentStatus
  | ToContentRetry | ToList | ToSearch | ToFileText | ToContent | ToListVolumes | ToCreateVolume | ToUpdateVolume
  | ToDeleteVolume | ToTestVolumeInput | ToTestVolume | ToReindex | ToCrawlRuns | ToVolumeInsights | ToRedirect | ToDashboard

definition routes :: "(string \<times> seg list \<times> route) list" where
  "routes =
     [(''GET'', [Lit ''health''], ToHealth),
      (''GET'', [Lit ''version''], ToVersion),
      (''GET'', [Lit ''stats''], ToStats),
      (''GET'', [Lit ''filetypes''], ToFileTypes),
      (''GET'', [Lit ''settings''], ToGetSettings),
      (''PUT'', [Lit ''settings''], ToPutSettings),
      (''GET'', [Lit ''content'', Lit ''status''], ToContentStatus),
      (''POST'', [Lit ''volumes'', One, Lit ''content'', Lit ''retry''], ToContentRetry),
      (''GET'', [Lit ''files''], ToList),
      (''GET'', [Lit ''search''], ToSearch),
      (''GET'', [Lit ''files'', Lit ''text''], ToFileText),
      (''GET'', [Lit ''files'', Lit ''content''], ToContent),
      (''GET'', [Lit ''files'', Lit ''content'', Rest], ToContent),
      (''GET'', [Lit ''volumes''], ToListVolumes),
      (''POST'', [Lit ''volumes''], ToCreateVolume),
      (''PUT'', [Lit ''volumes'', One], ToUpdateVolume),
      (''DELETE'', [Lit ''volumes'', One], ToDeleteVolume),
      (''POST'', [Lit ''volumes'', Lit ''test''], ToTestVolumeInput),
      (''POST'', [Lit ''volumes'', One, Lit ''test''], ToTestVolume),
      (''POST'', [Lit ''volumes'', One, Lit ''reindex''], ToReindex),
      (''GET'', [Lit ''volumes'', One, Lit ''crawl-runs''], ToCrawlRuns),
      (''GET'', [Lit ''volumes'', One, Lit ''insights''], ToVolumeInsights),
      (''GET'', [Lit ''search.html''], ToRedirect),
      (''GET'', [Rest], ToDashboard)]"

section \<open>Requests and replies\<close>

record request =
  rq_method :: string
  rq_host :: string
  rq_origin :: string
  rq_segs :: "string list"
  rq_params :: params
  rq_volume :: "volume_input body"
  rq_settings :: "content_value list body"

text \<open>What stays the same while the server runs, and what comes with one request\<close>

record api_config =
  g_seal :: sealer
  g_open :: opener
  g_key :: string
  g_version :: string
  g_allowed :: "string list"
  g_url_host :: "string \<Rightarrow> string option"
  g_u :: unicode
  g_pg :: unicode
  g_coll :: "string \<Rightarrow> string"
  g_fts :: text_search
  g_zones :: "string \<Rightarrow> zone option"
  g_zone :: zone

record api_env =
  e_rand :: string
  e_faults :: "nat \<Rightarrow> fault"
  e_now :: int
  e_later :: int
  e_ping :: session_ping
  e_open :: session_open
  e_test_connect :: session_answer
  e_test_ping :: session_answer
  e_releases :: http_reply

datatype payload = PHealth "string \<times> volume_health list" | PVersion version_info | PStats stats
  | PFileTypes "(string \<times> string) \<times> registry" | PSettings content_settings | PContentStatus "bool \<times> content_progress list"
  | PCount int | PList "string \<times> File list" | PSearch search_response | PText "(string \<times> string) list \<times> file_text"
  | PContent "(string \<times> string) list \<times> opened" | PVolumes "volume_status list" | PVolume volume_status | PNothing unit
  | PTest "string option" | PStarted string | PRuns "crawl_run list" | PInsights "ext_stat list \<times> File list"

datatype reply = Failed nat string | Answer nat payload | Redirect nat string | Page

definition reply_of :: "('a \<Rightarrow> payload) \<Rightarrow> 'a resp \<Rightarrow> reply" where
  "reply_of f r = (case r of Inl (st, msg) \<Rightarrow> Failed st msg | Inr (st, v) \<Rightarrow> Answer st (f v))"

type_synonym app = "server \<times> checker"

definition unchanged :: "app \<Rightarrow> reply \<Rightarrow> reply \<times> app" where
  "unchanged a rep = (rep, a)"

definition with_server :: "checker \<Rightarrow> ('a \<Rightarrow> payload) \<Rightarrow> 'a resp \<times> server \<Rightarrow> reply \<times> app" where
  "with_server c f out = (case out of (r, s) \<Rightarrow> (reply_of f r, s, c))"

section \<open>The handler a request reaches\<close>

text \<open>\<open>wild\<close> is the value of the wildcard \<open>{id}\<close>. Database faults are numbered in the order of the calls.\<close>

fun dispatch :: "api_config \<Rightarrow> api_env \<Rightarrow> route \<Rightarrow> string \<Rightarrow> request \<Rightarrow> app \<Rightarrow> reply \<times> app" where
  "dispatch g e ToHealth wild rq (s, c) = unchanged (s, c) (reply_of PHealth (handleHealth (e_ping e) (e_faults e 0) s))"
| "dispatch g e ToVersion wild rq (s, c) =
     (case handleVersion (g_version g) c (e_now e) (e_later e) (e_releases e) of
        (info, c') \<Rightarrow> (Answer 200 (PVersion info), s, c'))"
| "dispatch g e ToStats wild rq (s, c) = unchanged (s, c) (reply_of PStats (handleStats (e_faults e 0) (e_faults e 1) s))"
| "dispatch g e ToFileTypes wild rq (s, c) =
     unchanged (s, c) (case handleFileTypes of (h, st, r) \<Rightarrow> Answer st (PFileTypes (h, r)))"
| "dispatch g e ToGetSettings wild rq (s, c) = unchanged (s, c) (reply_of PSettings (handleGetSettings (e_faults e 0) s))"
| "dispatch g e ToPutSettings wild rq (s, c) =
     with_server c PSettings (handlePutSettings (e_faults e 0) (e_faults e 1) (e_now e) (rq_settings rq) s)"
| "dispatch g e ToContentStatus wild rq (s, c) =
     unchanged (s, c) (reply_of PContentStatus
       (handleContentStatus (g_pg g) (g_coll g) (e_faults e 0) (e_faults e 1) (e_faults e 2) (e_faults e 3) s))"
| "dispatch g e ToContentRetry wild rq (s, c) = with_server c PCount (handleContentRetry (e_faults e 0) wild s)"
| "dispatch g e ToList wild rq (s, c) = unchanged (s, c) (reply_of PList (handleList (e_faults e 0) (rq_params rq) s))"
| "dispatch g e ToSearch wild rq (s, c) =
     unchanged (s, c) (reply_of PSearch
       (handleSearch (g_u g) (g_pg g) (g_fts g) (g_zones g) (g_zone g) (e_faults e 0) (e_faults e 1) (e_now e) (rq_params rq) s))"
| "dispatch g e ToFileText wild rq (s, c) =
     unchanged (s, c) (reply_of PText (handleFileText (e_faults e 0) (e_faults e 1) (rq_params rq) s))"
| "dispatch g e ToContent wild rq (s, c) =
     unchanged (s, c) (reply_of PContent (handleContent (g_u g) (e_open e) (rq_params rq) s))"
| "dispatch g e ToListVolumes wild rq (s, c) = unchanged (s, c) (reply_of PVolumes (handleListVolumes (e_faults e) s))"
| "dispatch g e ToCreateVolume wild rq (s, c) =
     with_server c PVolume (handleCreateVolume (g_seal g) (e_rand e) (g_key g) (g_pg g) (e_faults e) (e_now e) (rq_volume rq) s)"
| "dispatch g e ToUpdateVolume wild rq (s, c) =
     with_server c PVolume (handleUpdateVolume (g_seal g) (e_rand e) (g_key g) (g_pg g) (e_faults e) (e_now e) wild (rq_volume rq) s)"
| "dispatch g e ToDeleteVolume wild rq (s, c) = with_server c PNothing (handleDeleteVolume (e_faults e) wild s)"
| "dispatch g e ToTestVolumeInput wild rq (s, c) =
     unchanged (s, c) (reply_of PTest (fst (handleTestVolumeInput (e_test_connect e) (e_test_ping e) (rq_volume rq))))"
| "dispatch g e ToTestVolume wild rq (s, c) =
     (case handleTestVolume (g_open g) (g_key g) (e_test_connect e) (e_test_ping e) (e_faults e) (e_now e) wild s of
        (r, _, s') \<Rightarrow> (reply_of PTest r, s', c))"
| "dispatch g e ToReindex wild rq (s, c) = with_server c PStarted (handleReindex wild s)"
| "dispatch g e ToCrawlRuns wild rq (s, c) =
     unchanged (s, c) (reply_of PRuns (handleCrawlRuns (e_faults e 0) wild (rq_params rq) s))"
| "dispatch g e ToVolumeInsights wild rq (s, c) =
     unchanged (s, c) (reply_of PInsights (handleVolumeInsights (g_coll g) (e_faults e 0) (e_faults e 1) wild (rq_params rq) s))"
| "dispatch g e ToRedirect wild rq (s, c) = unchanged (s, c) (Redirect 301 ''/'')"
| "dispatch g e ToDashboard wild rq (s, c) = unchanged (s, c) Page"

text \<open>Without a route, some other method has one for the path (GET has one for every path).\<close>

definition Routes :: "api_config \<Rightarrow> api_env \<Rightarrow> request \<Rightarrow> app \<Rightarrow> reply \<times> app" where
  "Routes g e rq a =
     (case find_route routes (rq_method rq) (rq_segs rq) of
        None \<Rightarrow> unchanged a (Failed 405 ''Method Not Allowed'')
      | Some (r, caps) \<Rightarrow> dispatch g e r (case caps of [] \<Rightarrow> [] | i # _ \<Rightarrow> i) rq a)"

text \<open>The handler the process serves: the guard, then the routes\<close>

definition serve :: "api_config \<Rightarrow> api_env \<Rightarrow> request \<Rightarrow> app \<Rightarrow> reply \<times> app" where
  "serve g e rq a =
     (case HostGuard (g_u g) (g_url_host g) (g_allowed g) (rq_host rq) (rq_method rq) (rq_origin rq) (Routes g e rq a) of
        Inl (st, msg) \<Rightarrow> (Failed st msg, a)
      | Inr out \<Rightarrow> out)"

section \<open>Routing\<close>

lemma no_children [simp]: "children x [] = []"
  by (simp add: children_def List.map_filter_def)

lemma no_patterns [simp]: "match_path [] ss caps = None"
  by (induction ss arbitrary: caps) (simp_all split: option.split)

lemma get_pages: "find_route routes ''GET'' (s # ss) \<noteq> None"
proof -
  have "find (\<lambda>(p, r). p = [Rest]) (of_method ''GET'' routes) \<noteq> None" by code_simp
  then show ?thesis by (auto simp: find_route_def split: option.split)
qed

lemma volume_routes:
  assumes "i \<noteq> [sl]"
  shows "find_route routes ''PUT'' [''volumes'', i] = Some (ToUpdateVolume, [i])"
    "find_route routes ''DELETE'' [''volumes'', i] = Some (ToDeleteVolume, [i])"
    "find_route routes ''POST'' [''volumes'', i, ''reindex''] = Some (ToReindex, [i])"
    "find_route routes ''POST'' [''volumes'', i, ''test''] = Some (ToTestVolume, [i])"
    "find_route routes ''POST'' [''volumes'', i, ''content'', ''retry''] = Some (ToContentRetry, [i])"
    "find_route routes ''GET'' [''volumes'', i, ''crawl-runs''] = Some (ToCrawlRuns, [i])"
    "find_route routes ''HEAD'' [''volumes'', i, ''insights''] = Some (ToVolumeInsights, [i])"
  using assms
  by (auto simp: find_route_def of_method_def routes_def children_def List.map_filter_def)

lemma file_routes:
  "find_route routes ''GET'' [''files''] = Some (ToList, [])"
  "find_route routes ''GET'' [''files'', ''text''] = Some (ToFileText, [])"
  "find_route routes ''GET'' [''files'', ''content''] = Some (ToContent, [])"
  "find_route routes ''GET'' (''files'' # ''content'' # nm # rest) = Some (ToContent, [])"
  "find_route routes ''POST'' [''volumes'', ''test''] = Some (ToTestVolumeInput, [])"
  "find_route routes ''POST'' [''files''] = None"
  by (auto simp: find_route_def of_method_def routes_def children_def List.map_filter_def)

section \<open>Who may change anything\<close>

text \<open>The routes whose handlers write\<close>

definition writes :: "route \<Rightarrow> bool" where
  "writes r \<longleftrightarrow> r \<in> {ToPutSettings, ToContentRetry, ToCreateVolume, ToUpdateVolume, ToDeleteVolume, ToTestVolume, ToReindex}"

lemma dispatch_reads: "\<not> writes r \<Longrightarrow> fst (snd (dispatch g e r wild rq (s, c))) = s"
  by (cases r) (simp_all add: writes_def unchanged_def split: prod.split)

lemma children_route: "(q, r) \<in> set (children x ps) \<Longrightarrow> (x # q, r) \<in> set ps"
  by (auto simp: children_def List.map_filter_def split: list.splits if_splits)

lemma match_path_route: "match_path ps ss caps = Some (r, caps') \<Longrightarrow> \<exists>p. (p, r) \<in> set ps"
proof (induction ps ss caps rule: match_path.induct)
  case (2 ps s ss caps)
  then show ?case
    by (auto split: option.splits if_splits dest!: find_hit dest: children_route)
qed (auto dest: find_hit)

lemma found_method:
  assumes "find_route routes m segs = Some (r, caps)" "writes r"
  shows "m \<in> {''POST'', ''PUT'', ''DELETE''}"
proof -
  have g: "\<not> writes r" if "(p, r) \<in> set (of_method ''GET'' routes)" for p
    using that by (auto simp: of_method_def routes_def writes_def)
  have "\<exists>p. (m, p, r) \<in> set routes"
    using assms(1) match_path_route [of "of_method ''GET'' routes" segs "[]" r caps] g assms(2)
      match_path_route [of "of_method m routes" segs "[]" r caps]
    by (auto simp: find_route_def of_method_def split: option.splits if_splits)
  then show ?thesis using assms(2) by (auto simp: routes_def writes_def)
qed

text \<open>C9: a request whose Host is not one the server is meant to be reached by, or that would change something
  and comes from another origin, is answered with a 403 and changes nothing, whatever its path and body; and
  among the requests let through none but a POST, PUT or DELETE changes the server (the database, the
  sessions, the crawls under way).\<close>

theorem only_own_pages_write:
  "case serve g e rq (s, c) of
     (rep, s', c') \<Rightarrow>
       (if hostAllowed (g_u g) (rq_host rq) (extra_hosts (g_u g) (g_allowed g)) \<and>
           (isSafeMethod (rq_method rq) \<or> rq_origin rq = [] \<or> sameOrigin (g_u g) (g_url_host g) (rq_origin rq) (rq_host rq))
        then s' = s \<or> rq_method rq \<in> {''POST'', ''PUT'', ''DELETE''}
        else s' = s \<and> c' = c \<and> (\<exists>msg. rep = Failed 403 msg))"
proof -
  have "fst (snd (Routes g e rq (s, c))) = s \<or> rq_method rq \<in> {''POST'', ''PUT'', ''DELETE''}"
  proof (cases "find_route routes (rq_method rq) (rq_segs rq)")
    case None
    then show ?thesis by (simp add: Routes_def unchanged_def)
  next
    case (Some x)
    then obtain r caps where x: "find_route routes (rq_method rq) (rq_segs rq) = Some (r, caps)" by (cases x) simp
    show ?thesis
    proof (cases "writes r")
      case True
      then show ?thesis using found_method [OF x] by blast
    next
      case False
      then show ?thesis by (simp add: Routes_def x dispatch_reads)
    qed
  qed
  then show ?thesis by (auto simp: serve_def HostGuard_def split: prod.splits)
qed

section \<open>What every request keeps\<close>

lemma with_server_state [simp]: "fst (snd (with_server c f out)) = snd out"
  by (cases out) (simp add: with_server_def)

text \<open>
  The handlers write to the database through seven operations of the index. What these keep, the sessions
  being owned, every request keeps.
\<close>

definition keeps :: "(db \<Rightarrow> bool) \<Rightarrow> server \<Rightarrow> bool" where
  "keeps Q s \<longleftrightarrow> Q (s_db s) \<and> owned s"

lemma keeps_db: "keeps Q s \<Longrightarrow> Q (s_db s)"
  by (simp add: keeps_def)

lemma keeps_steps:
  "keeps Q s \<Longrightarrow> Q d \<Longrightarrow> keeps Q (set_db d s)"
  "keeps Q s \<Longrightarrow> keeps Q (kickContent s)"
  "keeps Q s \<Longrightarrow> keeps Q (startVolumeAsync vol s)"
  "keeps Q s \<Longrightarrow> keeps Q (stopVolume vol s)"
  by (simp_all add: keeps_def owned_stop)
    (simp_all add: set_db_def kickContent_def startVolumeAsync_def)

lemmas keeps_simple = keeps_steps(2-4)

locale request_writes =
  fixes pg :: unicode and Q :: "db \<Rightarrow> bool"
  assumes settings: "Q d \<Longrightarrow> Q (snd (SetContentSettings flt now cs d))"
    and retry: "Q d \<Longrightarrow> Q (snd (RetryFailedContent flt vol d))"
    and create: "Q d \<Longrightarrow> Q (snd (CreateVolume pg flt now nm host share user pw d))"
    and update: "Q d \<Longrightarrow> Q (snd (UpdateVolume pg flt now vol u d))"
    and content_index: "Q d \<Longrightarrow> Q (snd (SetVolumeContentIndex flt vol on d))"
    and delete: "Q d \<Longrightarrow> Q (snd (DeleteVolume flt vol d))"
    and test_result: "Q d \<Longrightarrow> Q (snd (SetVolumeTestResult flt now vol ok msg d))"
begin

lemma kept: "keeps Q s \<Longrightarrow> (\<And>d. Q d \<Longrightarrow> Q (snd (f d))) \<Longrightarrow> f (s_db s) = (res, d) \<Longrightarrow> keeps Q (set_db d s)"
  using keeps_steps(1) keeps_db by (metis snd_conv)

lemmas kept_settings = kept [OF _ settings]
  and kept_retry = kept [OF _ retry]
  and kept_create = kept [OF _ create]
  and kept_update = kept [OF _ update]
  and kept_content_index = kept [OF _ content_index]
  and kept_delete = kept [OF _ delete]
  and kept_test_result = kept [OF _ test_result]

lemmas kept_content_index2 = kept_content_index [where s = "set_db d' s" for d' s, simplified]

lemma settings_keeps: "keeps Q s \<Longrightarrow> keeps Q (snd (handlePutSettings f1 f2 now body s))"
  by (auto simp: handlePutSettings_def Let_def intro!: keeps_simple intro: kept_settings split: sum.splits prod.splits)

lemma retry_keeps: "keeps Q s \<Longrightarrow> keeps Q (snd (handleContentRetry flt raw s))"
  by (auto simp: handleContentRetry_def intro!: keeps_simple intro: kept_retry split: sum.splits prod.splits)

lemma create_keeps: "keeps Q s \<Longrightarrow> keeps Q (snd (handleCreateVolume seal rand key pg flts now body s))"
  by (auto simp: handleCreateVolume_def Let_def intro!: keeps_simple intro: kept_create kept_content_index2
      split: sum.splits prod.splits if_splits)

lemma update_apply_keeps: "keeps Q s \<Longrightarrow> keeps Q (snd (update_apply pg flts now i u content s))"
  by (auto simp: update_apply_def Let_def intro!: keeps_simple intro: kept_update kept_content_index2
      split: sum.splits prod.splits option.splits if_splits)

lemma update_keeps: "keeps Q s \<Longrightarrow> keeps Q (snd (handleUpdateVolume seal rand key pg flts now raw body s))"
  by (auto simp: handleUpdateVolume_def update_apply_keeps split: sum.splits prod.splits)

lemma delete_keeps: "keeps Q s \<Longrightarrow> keeps Q (snd (handleDeleteVolume flts raw s))"
  by (auto simp: handleDeleteVolume_def Let_def keeps_simple intro: kept_delete split: sum.splits prod.splits)

lemma test_keeps:
  "keeps Q s \<Longrightarrow> handleTestVolume opn key connect ping flts now raw s = (r, conns, s') \<Longrightarrow> keeps Q s'"
  by (auto simp: handleTestVolume_def Let_def intro!: keeps_steps(1) test_result intro: keeps_db split: sum.splits)

lemma reindex_keeps: "keeps Q s \<Longrightarrow> keeps Q (snd (handleReindex raw s))"
proof -
  assume s: "keeps Q s"
  have "keeps Q (begin_crawl i trig s)" for i trig
    using s by (simp add: keeps_def owned_begin) (simp add: begin_crawl_def upd_rt_def)
  then show ?thesis using s
    by (auto simp: handleReindex_def triggerCrawl_def split: sum.splits option.splits prod.splits if_splits)
qed

lemma dispatch_keeps:
  assumes "keeps Q s" "g_pg g = pg"
  shows "keeps Q (fst (snd (dispatch g e r wild rq (s, c))))"
proof (cases "writes r")
  case True
  then show ?thesis using assms
    by (cases r) (simp_all add: writes_def settings_keeps retry_keeps create_keeps update_keeps delete_keeps
        reindex_keeps test_keeps split: prod.split)
qed (use assms in \<open>simp add: dispatch_reads\<close>)

lemma serve_keeps:
  assumes "keeps Q s" "g_pg g = pg" "serve g e rq (s, c) = (rep, s', c')"
  shows "keeps Q s'"
proof -
  have "keeps Q (fst (snd (Routes g e rq (s, c))))"
    using dispatch_keeps [OF assms(1,2)] assms(1) by (simp add: Routes_def unchanged_def split: option.split)
  then have "keeps Q (fst (snd (serve g e rq (s, c))))" using assms(1) by (simp add: serve_def HostGuard_def)
  then show ?thesis by (simp add: assms(3))
qed

end

text \<open>The index's own invariant is kept,\<close>

interpretation index_kept: request_writes pg "index_ok pg" for pg
  by unfold_locales (rule set_settings_index_ok retry_index_ok create_index_ok update_index_ok set_index_index_ok
      delete_volume_index_ok test_result_index_ok, assumption)+

text \<open>and no file, no text and no crawl run comes in or changes.\<close>

definition within :: "db \<Rightarrow> db \<Rightarrow> bool" where
  "within d0 d \<longleftrightarrow> set (files d) \<subseteq> set (files d0) \<and> set (content_state d) \<subseteq> set (content_state d0) \<and>
     set (chunks d) \<subseteq> set (chunks d0) \<and> set (crawl_runs d) \<subseteq> set (crawl_runs d0)"

interpretation only_removed: request_writes pg "within d0" for pg d0
  by unfold_locales
    (auto simp: within_def SetContentSettings_def RetryFailedContent_def CreateVolume_def UpdateVolume_def
      SetVolumeContentIndex_def DeleteVolume_def SetVolumeTestResult_def sql_delete_files_def Let_def
      split: option.splits if_splits)

lemma set_db_simps [simp]: "s_db (set_db d s) = d" "set_db d2 (set_db d1 s) = set_db d2 s" "set_db (s_db s) s = s"
  by (simp_all add: set_db_def)

definition app_ok :: "unicode \<Rightarrow> server \<Rightarrow> bool" where
  "app_ok pg s \<longleftrightarrow> index_ok pg (s_db s) \<and> owned s"

lemma app_ok_keeps: "app_ok pg = keeps (index_ok pg)"
  by (intro ext) (simp add: app_ok_def keeps_def)

lemmas app_steps = keeps_steps [of "index_ok pg" for pg, folded app_ok_keeps]

lemma app_index: "app_ok pg s \<Longrightarrow> index_ok pg (s_db s)"
  by (simp add: app_ok_def)

lemma app_serve: "app_ok (g_pg g) s \<Longrightarrow> serve g e rq (s, c) = (rep, s', c') \<Longrightarrow> app_ok (g_pg g) s'"
  using index_kept.serve_keeps by (simp add: app_ok_keeps)

definition example_config :: api_config where
  "example_config = \<lparr>g_seal = example_seal, g_open = example_open, g_key = example_key, g_version = ''1.0.0'', g_allowed = [],
     g_url_host = Some, g_u = ascii_tables, g_pg = ascii_tables, g_coll = id, g_fts = any_text, g_zones = (\<lambda>_. None),
     g_zone = (\<lambda>t. (0, t, t + 1))\<rparr>"

definition example_env :: api_env where
  "example_env = \<lparr>e_rand = example_rand, e_faults = (\<lambda>_. None), e_now = 1, e_later = 2, e_ping = (\<lambda>_. None),
     e_open = (\<lambda>_ _. Inl ''gone''), e_test_connect = (\<lambda>_. None), e_test_ping = (\<lambda>_. None), e_releases = Unreachable []\<rparr>"

definition create_request :: request where
  "create_request = \<lparr>rq_method = ''POST'', rq_host = ''localhost:8080'', rq_origin = [], rq_segs = [''volumes''],
     rq_params = (\<lambda>_. []), rq_volume = Decoded example_input, rq_settings = BadJSON\<rparr>"

text \<open>C15: a request removes rows at most: whatever it asks for, every file, text and crawl run in the index
  after it was there before it, unchanged.\<close>

theorem requests_only_remove:
  assumes "owned s" "serve g e rq (s, c) = (rep, s', c')"
  shows "set (files (s_db s')) \<subseteq> set (files (s_db s)) \<and> set (content_state (s_db s')) \<subseteq> set (content_state (s_db s)) \<and>
    set (chunks (s_db s')) \<subseteq> set (chunks (s_db s)) \<and> set (crawl_runs (s_db s')) \<subseteq> set (crawl_runs (s_db s))"
proof -
  have "keeps (within (s_db s)) s" using assms(1) by (simp add: keeps_def within_def)
  from only_removed.serve_keeps [OF this refl assms(2)] show ?thesis by (simp add: keeps_def within_def)
qed

definition delete_request_of :: "string \<Rightarrow> request" where
  "delete_request_of i = create_request\<lparr>rq_method := ''DELETE'', rq_segs := [''volumes'', i]\<rparr>"

theorem requests_only_remove_witness:
  "case serve example_config example_env (delete_request_of ''1'') (new_server example_db, newUpdateChecker) of
     (rep, s', c') \<Rightarrow> files (s_db (new_server example_db)) \<noteq> [] \<and> files (s_db s') = [] \<and>
       set (crawl_runs (s_db s')) \<subseteq> set (crawl_runs (s_db (new_server example_db)))"
proof -
  let ?out = "serve example_config example_env (delete_request_of ''1'') (new_server example_db, newUpdateChecker)"
  obtain rep s' c' where o: "?out = (rep, s', c')" by (metis prod_cases3)
  have "files (s_db (fst (snd ?out))) = []" "files (s_db (new_server example_db)) \<noteq> []" by code_simp+
  then show ?thesis using requests_only_remove [OF owned_new o] by (simp add: o)
qed

text \<open>
  Everything the running service does: answering a request; a write of a crawl, of a live update or of the
  content indexer to the index; and a step of the goroutines that hold sessions.
\<close>

inductive service_step :: "api_config \<Rightarrow> app \<Rightarrow> app \<Rightarrow> bool" for g where
  request: "serve g e rq a = (rep, a') \<Longrightarrow> service_step g a a'"
| index_write: "index_step (g_pg g) (s_db s) d \<Longrightarrow> service_step g (s, c) (set_db d s, c)"
| live: "runtime_step s s' \<Longrightarrow> s_db s' = s_db s \<Longrightarrow> service_step g (s, c) (s', c)"

lemma service_step_ok: "service_step g a a' \<Longrightarrow> app_ok (g_pg g) (fst a) \<Longrightarrow> app_ok (g_pg g) (fst a')"
proof (induction rule: service_step.induct)
  case (request e rq a rep a')
  then show ?case using app_serve by (cases a; cases a') auto
next
  case (index_write s d c)
  then show ?case using index_step_ok app_steps(1) [of "g_pg g" s d] by (simp add: app_ok_def)
next
  case (live s s' c)
  then show ?case using owned_step by (simp add: app_ok_def)
qed

lemma service_run_ok: "(service_step g)\<^sup>*\<^sup>* a a' \<Longrightarrow> app_ok (g_pg g) (fst a) \<Longrightarrow> app_ok (g_pg g) (fst a')"
  by (induction rule: rtranclp_induct) (auto intro: service_step_ok)

text \<open>C3: from the start with an empty database on, whatever requests are answered and whatever crawls, live
  updates, text extractions, connections and tear-downs happen between them, in any order and with any
  faults: keys and volume names stay unique, contents belong to files that exist and are whole, and every
  connected volume has an open session of its own while every other session ever made is closed.\<close>

theorem service_invariant:
  assumes "(service_step g)\<^sup>*\<^sup>* (new_server empty_db, newUpdateChecker) (s, c)"
  shows "index_ok (g_pg g) (s_db s) \<and> owned s"
proof -
  have "app_ok (g_pg g) (fst (new_server empty_db, newUpdateChecker))"
    using empty_index_ok by (simp add: app_ok_def owned_new) (simp add: new_server_def)
  from service_run_ok [OF assms this] show ?thesis by (simp add: app_ok_def)
qed

theorem service_invariant_witness:
  "case serve example_config example_env create_request (new_server empty_db, newUpdateChecker) of
     (rep, s', c') \<Rightarrow> map v_name (volumes (s_db s')) = [''nas''] \<and> index_ok ascii_tables (s_db s') \<and> owned s'"
proof -
  let ?out = "serve example_config example_env create_request (new_server empty_db, newUpdateChecker)"
  obtain rep s' c' where o: "?out = (rep, s', c')" by (metis prod_cases3)
  have "(service_step example_config)\<^sup>*\<^sup>* (new_server empty_db, newUpdateChecker) (s', c')"
    by (rule r_into_rtranclp) (rule service_step.request [OF o])
  from service_invariant [OF this] have "index_ok ascii_tables (s_db s') \<and> owned s'" by (simp add: example_config_def)
  moreover have "map v_name (volumes (s_db (fst (snd ?out)))) = [''nas'']" by code_simp
  ultimately show ?thesis by (simp add: o)
qed

end
