(* ===== verification/Config.thy ===== *)
theory Config
  imports Crypto GoIP HostGuard
begin

text \<open>
  Configuration (internal/config/config.go) and the listen address in the startup log
  (cmd/findo-server/main.go). The process environment is a map; the .env file is its bytes,
  \<open>NoFile\<close> if it does not exist, and opening it may fail.
\<close>

type_synonym env = "string \<Rightarrow> string option"

datatype config_err = EnvFile string | LineTooLong | MissingKey | BadKey crypto_err

record config =
  HTTPAddr :: string
  DatabaseURL :: string
  MasterKey :: string
  AllowedHosts :: "string list"

section \<open>Small parts\<close>

definition splitList :: "string \<Rightarrow> string list" where
  "splitList s = filter (\<lambda>p. p \<noteq> []) (map trim_space (split_on '','' s))"

definition getEnvDefault :: "env \<Rightarrow> string \<Rightarrow> string \<Rightarrow> string" where
  "getEnvDefault e key def = (case e key of Some v \<Rightarrow> if v \<noteq> [] then v else def | None \<Rightarrow> def)"

definition ListensBeyondLoopback :: "string \<Rightarrow> bool" where
  "ListensBeyondLoopback addr =
     (let host = (case SplitHostPort addr of Some (h, _) \<Rightarrow> h | None \<Rightarrow> addr);
          host = trim_bytes host [lbracket, rbracket]
      in if host = [] then True
         else if host = ''localhost'' then False
         else case ParseIP host of None \<Rightarrow> True | Some ip \<Rightarrow> \<not> IsLoopback ip)"

definition listenURL :: "string \<Rightarrow> string" where
  "listenURL addr =
     (case SplitHostPort addr of
        None \<Rightarrow> addr
      | Some (host, port) \<Rightarrow>
          (let host = (if host = [] \<or> host = ''0.0.0.0'' \<or> host = ''::'' then ''localhost'' else host)
           in ''http://'' @ JoinHostPort host port @ ''/''))"

section \<open>The .env file\<close>

text \<open>
  \<open>bufio.ScanLines\<close>: lines end at a newline, one carriage return before it is dropped, and a last line
  may lack its newline. A line of 64 KiB or more ends the scan with an error.
\<close>

definition lf :: char where "lf = CHR 0x0A"
definition cr :: char where "cr = CHR 0x0D"

definition raw_lines :: "string \<Rightarrow> string list" where
  "raw_lines s = (let ls = split_on [lf] s in if last ls = [] then butlast ls else ls)"

definition maxScanToken :: nat where
  "maxScanToken = 65536"

definition setenv :: "string \<Rightarrow> string \<Rightarrow> env \<Rightarrow> env" where
  "setenv key v e =
     (if key = [] \<or> CHR ''='' \<in> set key \<or> CHR 0x00 \<in> set key \<or> CHR 0x00 \<in> set v then e else e(key \<mapsto> v))"

definition quotes :: string where
  "quotes = [CHR 0x22, CHR 0x27]"

definition env_entry :: "string \<Rightarrow> (string \<times> string) option" where
  "env_entry raw =
     (let line = trim_space (trim_suffix raw [cr])
      in if line = [] \<or> has_prefix line ''#'' then None
         else case index_of ''='' line of
                None \<Rightarrow> None
              | Some i \<Rightarrow> Some (trim_space (take i line), trim_bytes (trim_space (drop (i + 1) line)) quotes))"

definition env_line :: "string \<Rightarrow> env \<Rightarrow> env" where
  "env_line raw e =
     (case env_entry raw of
        None \<Rightarrow> e
      | Some (key, v) \<Rightarrow> if e key = None then setenv key v e else e)"

fun scan_env :: "string list \<Rightarrow> env \<Rightarrow> config_err option \<times> env" where
  "scan_env [] e = (None, e)"
| "scan_env (l # ls) e = (if maxScanToken \<le> length l then (Some LineTooLong, e) else scan_env ls (env_line l e))"

datatype env_file = NoFile | Unreadable string | EnvBytes string

definition loadDotEnv :: "env_file \<Rightarrow> env \<Rightarrow> config_err option \<times> env" where
  "loadDotEnv envf e =
     (case envf of
        NoFile \<Rightarrow> (None, e)
      | Unreadable msg \<Rightarrow> (Some (EnvFile msg), e)
      | EnvBytes s \<Rightarrow> scan_env (raw_lines s) e)"

definition Load :: "env_file \<Rightarrow> env \<Rightarrow> config_err + config" where
  "Load envf e0 =
     (case loadDotEnv envf e0 of
        (Some err, _) \<Rightarrow> Inl err
      | (None, e) \<Rightarrow>
          (let keyB64 = getEnvDefault e ''FINDO_MASTER_KEY'' []
           in if keyB64 = [] then Inl MissingKey
              else case ParseKey keyB64 of
                     Inl err \<Rightarrow> Inl (BadKey err)
                   | Inr key \<Rightarrow>
                       Inr \<lparr>HTTPAddr = getEnvDefault e ''HTTP_ADDR'' ''127.0.0.1:8080'',
                            DatabaseURL = getEnvDefault e ''DATABASE_URL'' ''postgres:///findo'',
                            MasterKey = key,
                            AllowedHosts = splitList (getEnvDefault e ''FINDO_ALLOWED_HOSTS'' [])\<rparr>))"

section \<open>Precedence\<close>

definition valid_entry :: "string \<times> string \<Rightarrow> bool" where
  "valid_entry kv \<longleftrightarrow> fst kv \<noteq> [] \<and> CHR ''='' \<notin> set (fst kv) \<and> CHR 0x00 \<notin> set (fst kv) \<and> CHR 0x00 \<notin> set (snd kv)"

text \<open>What the file says for a variable: its first usable line\<close>

definition entries_of :: "string list \<Rightarrow> (string \<times> string) list" where
  "entries_of ls = filter valid_entry (List.map_filter env_entry ls)"

lemma env_line_eq:
  "env_line l e k = (case e k of Some v \<Rightarrow> Some v | None \<Rightarrow>
     (case env_entry l of Some kv \<Rightarrow> if fst kv = k \<and> valid_entry kv then Some (snd kv) else None | None \<Rightarrow> None))"
  by (auto simp: env_line_def setenv_def valid_entry_def split: option.splits prod.splits)

lemma entries_Cons:
  "map_of (entries_of (l # ls)) k = (case env_entry l of
     Some kv \<Rightarrow> if fst kv = k \<and> valid_entry kv then Some (snd kv) else map_of (entries_of ls) k
   | None \<Rightarrow> map_of (entries_of ls) k)"
  by (auto simp: entries_of_def List.map_filter_def split: option.splits prod.splits)

lemma scan_env_eq:
  "fst (scan_env ls e) = None \<Longrightarrow>
   snd (scan_env ls e) k = (case e k of Some v \<Rightarrow> Some v | None \<Rightarrow> map_of (entries_of ls) k)"
proof (induction ls arbitrary: e)
  case Nil
  then show ?case by (simp add: entries_of_def List.map_filter_def split: option.split)
next
  case (Cons l ls)
  then have "snd (scan_env (l # ls) e) k = (case env_line l e k of Some v \<Rightarrow> Some v | None \<Rightarrow> map_of (entries_of ls) k)"
    by (auto split: if_splits)
  moreover have "(case env_line l e k of Some v \<Rightarrow> Some v | None \<Rightarrow> map_of (entries_of ls) k) =
    (case e k of Some v \<Rightarrow> Some v | None \<Rightarrow> map_of (entries_of (l # ls)) k)"
    unfolding env_line_eq entries_Cons by (cases "e k"; cases "env_entry l") simp_all
  ultimately show ?case by metis
qed

definition file_says :: "env_file \<Rightarrow> string \<Rightarrow> string option" where
  "file_says envf k = (case envf of EnvBytes s \<Rightarrow> map_of (entries_of (raw_lines s)) k | _ \<Rightarrow> None)"

lemma loadDotEnv_eq:
  "fst (loadDotEnv envf e) = None \<Longrightarrow>
   snd (loadDotEnv envf e) k = (case e k of Some v \<Rightarrow> Some v | None \<Rightarrow> file_says envf k)"
  by (cases envf) (simp_all add: loadDotEnv_def file_says_def scan_env_eq split: option.split)

definition setting_of :: "env_file \<Rightarrow> env \<Rightarrow> string \<Rightarrow> string \<Rightarrow> string" where
  "setting_of envf e k def =
     (case (case e k of Some v \<Rightarrow> Some v | None \<Rightarrow> file_says envf k) of
        Some v \<Rightarrow> if v = [] then def else v | None \<Rightarrow> def)"

lemma getEnvDefault_after:
  "loadDotEnv envf e = (None, e') \<Longrightarrow> getEnvDefault e' k def = setting_of envf e k def"
  using loadDotEnv_eq [of envf e k] by (simp add: getEnvDefault_def setting_of_def split: option.split)

lemma default_local: "\<not> ListensBeyondLoopback ''127.0.0.1:8080''"
  by code_simp

text \<open>A configuration that loads takes every value from the environment first, then from the first
  usable line of the file, then from the default; its key has 32 bytes; and without an address in either
  place the server listens on this machine only.\<close>

theorem Load_correct:
  assumes "Load envf e = Inr c"
  shows "HTTPAddr c = setting_of envf e ''HTTP_ADDR'' ''127.0.0.1:8080'' \<and>
    DatabaseURL c = setting_of envf e ''DATABASE_URL'' ''postgres:///findo'' \<and>
    ParseKey (setting_of envf e ''FINDO_MASTER_KEY'' []) = Inr (MasterKey c) \<and> length (MasterKey c) = KeySize \<and>
    AllowedHosts c = splitList (setting_of envf e ''FINDO_ALLOWED_HOSTS'' []) \<and> [] \<notin> set (AllowedHosts c) \<and>
    (e ''HTTP_ADDR'' = None \<and> file_says envf ''HTTP_ADDR'' = None \<longrightarrow> \<not> ListensBeyondLoopback (HTTPAddr c))"
proof -
  obtain e' where l: "loadDotEnv envf e = (None, e')"
    using assms by (auto simp: Load_def split: prod.splits option.splits)
  have "length k = KeySize" if "ParseKey s = Inr k" for s k
    using that by (auto simp: ParseKey_def split: option.splits if_splits)
  moreover have "setting_of envf e ''HTTP_ADDR'' def = def"
    if "e ''HTTP_ADDR'' = None \<and> file_says envf ''HTTP_ADDR'' = None" for def
    using that by (simp add: setting_of_def)
  ultimately show ?thesis
    using assms by (auto simp: Load_def l getEnvDefault_after [OF l] Let_def splitList_def default_local
        split: if_splits sum.splits)
qed

definition example_env_file :: env_file where
  "example_env_file = EnvBytes (''# dev'' @ [cr, lf] @ '' HTTP_ADDR = :9090'' @ [lf] @ ''FINDO_MASTER_KEY='' @ [CHR 0x22] @
     EncodeToString (replicate 32 CHR ''k'') @ [CHR 0x22, lf] @ ''HTTP_ADDR=:1'' @ [lf] @ ''FINDO_ALLOWED_HOSTS=a, ,b'')"

theorem Load_correct_witness:
  "\<exists>c. Load example_env_file (\<lambda>k. None) = Inr c \<and> HTTPAddr c = '':9090'' \<and> AllowedHosts c = [''a'', ''b'']"
proof -
  have e: "case Load example_env_file (\<lambda>k. None) of Inr c \<Rightarrow> HTTPAddr c = '':9090'' | Inl _ \<Rightarrow> False" by code_simp
  then obtain c where c: "Load example_env_file (\<lambda>k. None) = Inr c" "HTTPAddr c = '':9090''" by (auto split: sum.splits)
  have "splitList (setting_of example_env_file (\<lambda>k. None) ''FINDO_ALLOWED_HOSTS'' []) = [''a'', ''b'']" by code_simp
  with Load_correct [OF c(1)] c show ?thesis by auto
qed

end
