(* ===== verification/Watch.thy ===== *)
theory Watch
  imports Crawl
begin

text \<open>
  \<open>internal/httpapi/watch.go\<close>: the change listener between crawls. \<open>Stat\<close> of
  \<open>smbclient.go\<close> reads one path from the share (\<open>raw\<close>, a parameter); an event is applied by
  deleting and upserting single rows under run 0. Database faults are given per statement.
\<close>

section \<open>\<open>Client.Stat\<close>\<close>

datatype stat_err = NotExist | StatFailed string

type_synonym raw_stat = "string \<Rightarrow> stat_err + info"

definition Client_Stat :: "raw_stat \<Rightarrow> string \<Rightarrow> string + entry option" where
  "Client_Stat raw p =
     (case raw (toSMBPath p) of
        Inl NotExist \<Rightarrow> Inr None
      | Inl (StatFailed m) \<Rightarrow> Inl (''stat '' @ Quote p @ '': '' @ m)
      | Inr i \<Rightarrow> Inr (Some \<lparr>e_path = trim_bytes p [sl], e_name = i_name i, e_dir = i_dir i, e_size = i_size i,
                             e_mod = i_mod i\<rparr>))"

section \<open>Applying an event\<close>

definition upsertPath :: "bool \<Rightarrow> raw_stat \<Rightarrow> fault \<Rightarrow> int \<Rightarrow> string \<Rightarrow> db \<Rightarrow> db" where
  "upsertPath connected raw flt vol p d =
     (if \<not> connected then d
      else
        (case Client_Stat raw p of
           Inl _ \<Rightarrow> d
         | Inr None \<Rightarrow> d
         | Inr (Some e) \<Rightarrow> snd (Upsert flt (entry_file vol e) 0 d)))"

fun applyChangeEvent :: "bool \<Rightarrow> raw_stat \<Rightarrow> fault \<Rightarrow> fault \<Rightarrow> int \<Rightarrow> change_event \<Rightarrow> db \<Rightarrow> db" where
  "applyChangeEvent connected raw flt1 flt2 vol (ChangeRemoved p) d = snd (Delete flt1 vol p d)"
| "applyChangeEvent connected raw flt1 flt2 vol (ChangeRenamed old new) d =
     upsertPath connected raw flt2 vol new (snd (Delete flt1 vol old d))"
| "applyChangeEvent connected raw flt1 flt2 vol (ChangeUpserted p) d = upsertPath connected raw flt2 vol p d"

section \<open>What a sequence of events does to one path\<close>

text \<open>The single-row operations of an event, in order: \<^term>\<open>Inl p\<close> deletes, \<^term>\<open>Inr p\<close> re-reads.\<close>

fun event_ops :: "change_event \<Rightarrow> (string + string) list" where
  "event_ops (ChangeRemoved p) = [Inl p]"
| "event_ops (ChangeRenamed old new) = [Inl old, Inr new]"
| "event_ops (ChangeUpserted p) = [Inr p]"

definition row_now :: "raw_stat \<Rightarrow> int \<Rightarrow> string \<Rightarrow> file_row option" where
  "row_now raw vol p = (case Client_Stat raw p of Inr (Some e) \<Rightarrow> Some (mk_row 0 (entry_file vol e)) | _ \<Rightarrow> None)"

text \<open>The row of path \<open>q\<close> after one operation: other paths do not matter, a path that cannot be read
  keeps its row.\<close>

definition op_row :: "raw_stat \<Rightarrow> int \<Rightarrow> string \<Rightarrow> string + string \<Rightarrow> file_row option \<Rightarrow> file_row option" where
  "op_row raw vol q opn r =
     (case opn of
        Inl p \<Rightarrow> if trim_bytes p [sl] = q then None else r
      | Inr p \<Rightarrow> if trim_bytes p [sl] = q then (case row_now raw vol p of Some x \<Rightarrow> Some x | None \<Rightarrow> r) else r)"

lemma Delete_file_at:
  assumes "db_ok d"
  shows "file_at (snd (Delete None vol p d)) (vol, q) = op_row raw vol q (Inl p) (file_at d (vol, q))"
proof -
  have "fPath r = q \<and> fVolume r = vol" if "file_at d (vol, q) = Some r" for r
    using file_at_stored [OF assms that] by (simp add: file_key_def)
  then show ?thesis
    by (auto simp: Delete_def file_at_delete [OF assms] op_row_def slash_def sl_def split: option.splits)
qed

lemma upsertPath_file_at:
  assumes "db_ok d"
  shows "file_at (upsertPath True raw None vol p d) (vol, q) = op_row raw vol q (Inr p) (file_at d (vol, q))"
proof (cases "row_now raw vol p")
  case None
  then show ?thesis
    by (auto simp: row_now_def upsertPath_def op_row_def split: sum.splits option.splits)
next
  case (Some x)
  then obtain e where e: "Client_Stat raw p = Inr (Some e)" "x = mk_row 0 (entry_file vol e)"
    by (auto simp: row_now_def split: sum.splits option.splits)
  have "e_path e = trim_bytes p [sl]" using e(1) by (auto simp: Client_Stat_def split: sum.splits stat_err.splits)
  then have k: "file_key (entry_file vol e) = (vol, trim_bytes p [sl])"
    by (simp add: entry_file_def file_key_def split: prod.split)
  show ?thesis using e Some k
    by (simp add: upsertPath_def Upsert_def UpsertBatch_file_at [OF assms] last_for_def op_row_def)
qed

lemma upsertPath_ok: "db_ok d \<Longrightarrow> db_ok (upsertPath c raw flt vol p d)"
  by (auto simp: upsertPath_def Upsert_def UpsertBatch_ok split: sum.split option.split)

lemma applyChangeEvent_ok: "db_ok d \<Longrightarrow> db_ok (applyChangeEvent c raw f1 f2 vol ev d)"
  by (cases ev) (simp_all add: upsertPath_ok Delete_ok)

lemma applyChangeEvent_file_at:
  assumes "db_ok d"
  shows "file_at (applyChangeEvent True raw None None vol ev d) (vol, q) =
    foldl (\<lambda>r opn. op_row raw vol q opn r) (file_at d (vol, q)) (event_ops ev)"
  using assms
  by (cases ev) (simp_all add: Delete_file_at [where raw = raw] upsertPath_file_at Delete_ok)


definition example_stat :: raw_stat where
  "example_stat p = (if p = ''new'' then Inr \<lparr>i_name = ''new'', i_dir = False, i_size = 3, i_mod = 8\<rparr> else Inl NotExist)"


section \<open>Where live updates and crawls collide\<close>

text \<open>
  A directory that is removed or renamed on the NAS is one event; only its own row goes, the rows
  below it stay until the next crawl.
\<close>

definition tree_db :: db where
  "tree_db = empty_db\<lparr>files := [mk_row 1 (entry_file 1 \<lparr>e_path = ''old'', e_name = ''old'', e_dir = True, e_size = 0, e_mod = 1\<rparr>),
     mk_row 1 (entry_file 1 \<lparr>e_path = ''old/x'', e_name = ''x'', e_dir = False, e_size = 1, e_mod = 1\<rparr>)], next_run := 2\<rparr>"

lemma removed_directory_keeps_children:
  "map fPath (files (applyChangeEvent True example_stat None None 1 (ChangeRemoved ''old'') tree_db)) = [''old/x'']"
  by code_simp

text \<open>A live update that arrives while a crawl is running, for a file the walk does not list (it
  was created in a directory already walked), is deleted by that crawl's sweep although the file
  exists: the row carries run 0. The second state is that of the same steps without the crawl.\<close>

theorem live_update_swept:
  "(let f = example_file ''new'' 3;
        (run, d1) = StartCrawlRun None 0 1 ''periodic'' empty_db;
        d2 = snd (snd (StreamUpsert (\<lambda>_. None) [example_file ''a'' 1] 1 crawlWriteBatch d1));
        d3 = snd (Upsert None f 0 d2);
        d4 = snd (Sweep None 1 1 d3)
    in run = Inr 1 \<and> file_at d3 (1, ''new'') = Some (mk_row 0 f) \<and> file_at d4 (1, ''new'') = None) \<and>
   file_at (snd (Upsert None (example_file ''new'' 3) 0 empty_db)) (1, ''new'') \<noteq> None"
proof -
  let ?f = "example_file ''new'' 3" and ?a = "example_file ''a'' 1"
  let ?d1 = "snd (StartCrawlRun None 0 1 ''periodic'' empty_db)"
  have d1: "StartCrawlRun None 0 1 ''periodic'' empty_db = (Inr 1, ?d1)" "db_ok ?d1"
    by (simp add: StartCrawlRun_def empty_db_def, rule StartCrawlRun_ok [OF db_ok_empty])
  obtain w e d2 where s: "StreamUpsert (\<lambda>_. None) [?a] 1 crawlWriteBatch ?d1 = (w, e, d2)" by (metis prod_cases3)
  have d2: "db_ok d2" using write_batches_file_at [OF d1(2)] s by (metis StreamUpsert_batches)
  have d3: "db_ok (snd (Upsert None ?f 0 d2))" "file_at (snd (Upsert None ?f 0 d2)) (1, ''new'') = Some (mk_row 0 ?f)"
    using UpsertBatch_ok [OF d2] UpsertBatch_file_at [OF d2, of "[?f]" 0 "(1, ''new'')"]
    by (simp_all add: Upsert_def last_for_def example_file_def file_key_def)
  have "file_at (snd (Sweep None 1 1 (snd (Upsert None ?f 0 d2)))) (1, ''new'') = None"
    by (simp add: Sweep_file_at [OF d3(1)] d3(2)) (simp add: example_file_def)
  moreover have "file_at (snd (Upsert None ?f 0 empty_db)) (1, ''new'') \<noteq> None"
    using UpsertBatch_file_at [OF db_ok_empty, of "[?f]" 0 "(1, ''new'')"]
    by (simp add: Upsert_def last_for_def example_file_def file_key_def)
  moreover have "fst (StartCrawlRun None 0 1 ''periodic'' empty_db) = Inr 1" by (subst d1(1)) simp
  ultimately show ?thesis using s d3(2) by (simp add: Let_def case_prod_beta)
qed

text \<open>
  Two crawls of one volume at once (the guard is a flag of the runtime, and the initial crawl sets it
  without testing it): when each has streamed the same unchanged files, the sweep of the first
  deletes all of them, because they now carry the run of the second.
\<close>

lemma concurrent_crawls_empty_volume:
  assumes "db_ok d" "list_all (\<lambda>f. fVolume f = vol) fs" "run1 \<noteq> run2"
    and "StreamUpsert (\<lambda>_. None) fs run1 n d = (w1, e1, d1)" "StreamUpsert (\<lambda>_. None) fs run2 n d1 = (w2, e2, d2)"
    and "k \<in> file_key ` set fs"
  shows "file_at (snd (Sweep None vol run1 d2)) k = None"
proof -
  have d1: "db_ok d1" using write_batches_file_at [OF assms(1)] assms(4) by (metis StreamUpsert_batches)
  obtain f where f: "last_for k fs = Some f" using assms(6) last_for_None by (metis not_Some_eq)
  have d2: "db_ok d2 \<and> file_at d2 k = Some (mk_row run2 f)"
    using write_batches_file_at [OF d1, of 0 "batches n fs" run2 w2 e2 d2 k] assms(5) f
    by (simp add: StreamUpsert_batches)
  have "fVolume f = vol" using last_for_Some [OF f] assms(2) by (simp add: list_all_iff)
  then show ?thesis using d2 assms(3) by (simp add: Sweep_file_at)
qed

end
