(* ===== verification/SmbSession.thy ===== *)
theory SmbSession
  imports SmbPaths GoNet
begin

text \<open>
  The session of an SMB client (\<open>Connect\<close>, \<open>Close\<close>, \<open>do\<close> and \<open>reconnect\<close> of
  \<open>internal/smbclient/smbclient.go\<close>) and the retry loop of its change watch (\<open>watch.go\<close>). Sessions
  are numbered as they are dialled, so "the handle changed" is a comparison of numbers. Any number
  of callers run \<open>do\<close> at once; a step of the relation is one critical section or one remote
  operation. What the server answers is a choice of the step: an operation may succeed, fail with
  a transport error or fail otherwise, and a dial may succeed or fail, except that the owner's
  \<open>Close\<close> may come at any time.
\<close>

section \<open>Addresses\<close>

definition splitHost :: "string \<Rightarrow> string \<times> string" where
  "splitHost host =
     (case SplitHostPort host of Some (h, _) \<Rightarrow> (h, host) | None \<Rightarrow> (host, JoinHostPort host ''445''))"

section \<open>Callers and the client\<close>

datatype op_result = OpOk | OpTransport | OpError

datatype outcome = Succeeded | Failed_op | NotConnected | ReconnectFailed

text \<open>Where a caller of \<open>do\<close> is: before reading the handle, in the first operation, about to
  reconnect, in the retry, or returned.\<close>

datatype caller =
    Begin
  | First nat
  | Reconnecting nat
  | Retry nat
  | Returned outcome

record client =
  cl_fs :: "nat option"
  cl_next :: nat
  cl_callers :: "caller list"
  cl_redialled :: "nat list"

definition client_init :: "nat \<Rightarrow> client" where
  "client_init n = \<lparr>cl_fs = None, cl_next = 0, cl_callers = replicate n Begin, cl_redialled = []\<rparr>"

definition Connect :: "bool \<Rightarrow> client \<Rightarrow> client" where
  "Connect dial_ok c = (if dial_ok then c\<lparr>cl_fs := Some (cl_next c), cl_next := Suc (cl_next c)\<rparr> else c)"

definition Close :: "client \<Rightarrow> client" where
  "Close c = c\<lparr>cl_fs := None\<rparr>"

text \<open>\<open>reconnect\<close>: the caller's next position and the client, one critical section.\<close>

definition reconnect :: "bool \<Rightarrow> nat \<Rightarrow> client \<Rightarrow> caller \<times> client" where
  "reconnect dial_ok dead c =
     (case cl_fs c of
        None \<Rightarrow> (Returned ReconnectFailed, c)
      | Some fs \<Rightarrow>
          if fs \<noteq> dead then (Retry fs, c)
          else if \<not> dial_ok then (Returned ReconnectFailed, c)
          else (Retry (cl_next c),
                c\<lparr>cl_fs := Some (cl_next c), cl_next := Suc (cl_next c), cl_redialled := cl_redialled c @ [dead]\<rparr>))"

definition set_caller :: "nat \<Rightarrow> caller \<Rightarrow> client \<Rightarrow> client" where
  "set_caller i p c = c\<lparr>cl_callers := (cl_callers c)[i := p]\<rparr>"

definition first_result :: "nat \<Rightarrow> op_result \<Rightarrow> caller" where
  "first_result fs r = (case r of OpOk \<Rightarrow> Returned Succeeded | OpError \<Rightarrow> Returned Failed_op | OpTransport \<Rightarrow> Reconnecting fs)"

definition retry_result :: "op_result \<Rightarrow> caller" where
  "retry_result r = (case r of OpOk \<Rightarrow> Returned Succeeded | _ \<Rightarrow> Returned Failed_op)"

inductive client_step :: "client \<Rightarrow> client \<Rightarrow> bool" where
  connect: "client_step c (Connect ok c)"
| close: "client_step c (Close c)"
| begin_none: "i < length (cl_callers c) \<Longrightarrow> cl_callers c ! i = Begin \<Longrightarrow> cl_fs c = None \<Longrightarrow>
      client_step c (set_caller i (Returned NotConnected) c)"
| begin_some: "i < length (cl_callers c) \<Longrightarrow> cl_callers c ! i = Begin \<Longrightarrow> cl_fs c = Some fs \<Longrightarrow>
      client_step c (set_caller i (First fs) c)"
| first: "i < length (cl_callers c) \<Longrightarrow> cl_callers c ! i = First fs \<Longrightarrow>
      client_step c (set_caller i (first_result fs r) c)"
| redial: "i < length (cl_callers c) \<Longrightarrow> cl_callers c ! i = Reconnecting fs \<Longrightarrow> reconnect ok fs c = (p, c') \<Longrightarrow>
      client_step c (set_caller i p c')"
| retry: "i < length (cl_callers c) \<Longrightarrow> cl_callers c ! i = Retry fs \<Longrightarrow>
      client_step c (set_caller i (retry_result r) c)"

section \<open>One redial per dead session\<close>

fun caller_ok :: "nat \<Rightarrow> caller \<Rightarrow> bool" where
  "caller_ok n (First fs) = (fs < n)"
| "caller_ok n (Reconnecting fs) = (fs < n)"
| "caller_ok n (Retry fs) = (fs < n)"
| "caller_ok n _ = True"

definition client_ok :: "client \<Rightarrow> bool" where
  "client_ok c \<longleftrightarrow>
     (case cl_fs c of None \<Rightarrow> True | Some fs \<Rightarrow> fs < cl_next c \<and> fs \<notin> set (cl_redialled c)) \<and>
     list_all (caller_ok (cl_next c)) (cl_callers c) \<and>
     list_all (\<lambda>fs. fs < cl_next c) (cl_redialled c) \<and> distinct (cl_redialled c)"

lemma caller_ok_mono: "caller_ok n p \<Longrightarrow> caller_ok (Suc n) p"
  by (cases p) auto

lemma callers_mono: "list_all (caller_ok n) ps \<Longrightarrow> list_all (caller_ok (Suc n)) ps"
  by (auto simp: list_all_iff caller_ok_mono)

lemma set_caller_ok: "client_ok c \<Longrightarrow> caller_ok (cl_next c) p \<Longrightarrow> client_ok (set_caller i p c)"
  by (simp add: client_ok_def set_caller_def list_all_update split: option.splits)

lemma reconnect_ok:
  assumes "client_ok c" "dead < cl_next c" "reconnect ok dead c = (p, c')"
  shows "client_ok c' \<and> caller_ok (cl_next c') p"
proof (cases "cl_fs c")
  case None
  then show ?thesis using assms by (auto simp: reconnect_def)
next
  case (Some fs)
  have "fs < cl_next c" "fs \<notin> set (cl_redialled c)" using assms(1) Some by (auto simp: client_ok_def)
  then show ?thesis
    using assms Some callers_mono [of "cl_next c" "cl_callers c"]
    by (auto simp: reconnect_def client_ok_def list_all_iff less_Suc_eq split: if_splits)
qed

lemma client_step_ok: "client_step c c' \<Longrightarrow> client_ok c \<Longrightarrow> client_ok c'"
proof (induction rule: client_step.induct)
  case (connect c ok)
  then show ?case using callers_mono [of "cl_next c" "cl_callers c"]
    by (auto simp: Connect_def client_ok_def list_all_iff less_Suc_eq)
next
  case (close c)
  then show ?case by (simp add: Close_def client_ok_def)
next
  case (begin_some i c fs)
  then show ?case by (intro set_caller_ok) (auto simp: client_ok_def)
next
  case (first i c fs r)
  have "caller_ok (cl_next c) (cl_callers c ! i)" using first(1,3) by (simp add: client_ok_def list_all_length)
  then show ?case using first by (intro set_caller_ok) (auto simp: first_result_def split: op_result.split)
next
  case (redial i c fs ok p c')
  have "caller_ok (cl_next c) (cl_callers c ! i)" using redial(1,4) by (simp add: client_ok_def list_all_length)
  then show ?case using redial reconnect_ok [of c fs ok p c'] by (auto intro!: set_caller_ok)
next
  case (retry i c fs r)
  then show ?case by (intro set_caller_ok) (auto simp: retry_result_def split: op_result.split)
qed (simp add: set_caller_ok)



section \<open>The watch loop\<close>

text \<open>
  \<open>watchLoop\<close> over the outcomes of its iterations. Each iteration runs \<open>watchOnce\<close>, which dials a
  session of its own and streams batches of notify entries until the transport fails; the loop
  then reports that a resync is needed and sleeps. What the loop sends is a list.
\<close>

datatype notify_result = Batch "notify_info list" | EnumDir | NotifyError

datatype sent = Event change_event | NeedsResync | Sleep nat

text \<open>\<open>watchOnce\<close>: the server's answers to successive \<open>NotifyChange\<close> calls on one handle\<close>

fun watchOnce :: "notify_result list \<Rightarrow> sent list" where
  "watchOnce [] = []"
| "watchOnce (Batch is # rs) = map Event (translateChanges is) @ watchOnce rs"
| "watchOnce (EnumDir # rs) = NeedsResync # watchOnce rs"
| "watchOnce (NotifyError # rs) = []"

definition baseBackoff :: nat where "baseBackoff = 1000"
definition maxBackoff :: nat where "maxBackoff = 60000"

definition next_backoff :: "nat \<Rightarrow> nat" where
  "next_backoff b = (let b = b * 2 in if maxBackoff < b then maxBackoff else b)"

text \<open>A session that could not be opened (\<^term>\<open>None\<close>) streams nothing.\<close>

fun watch_from :: "nat \<Rightarrow> notify_result list option list \<Rightarrow> sent list" where
  "watch_from b [] = []"
| "watch_from b (s # ss) =
     (case s of None \<Rightarrow> [] | Some rs \<Rightarrow> watchOnce rs) @ [NeedsResync, Sleep b] @ watch_from (next_backoff b) ss"

definition watchLoop :: "notify_result list option list \<Rightarrow> sent list" where
  "watchLoop ss = watch_from baseBackoff ss"

definition sleeps :: "sent list \<Rightarrow> nat list" where
  "sleeps xs = concat (map (\<lambda>x. case x of Sleep n \<Rightarrow> [n] | _ \<Rightarrow> []) xs)"

lemma sleeps_simps [simp]: "sleeps (xs @ ys) = sleeps xs @ sleeps ys" "sleeps [] = []"
    "sleeps (NeedsResync # xs) = sleeps xs" "sleeps (Sleep n # xs) = n # sleeps xs" "sleeps (Event e # xs) = sleeps xs"
  by (simp_all add: sleeps_def)

lemma sleeps_once [simp]: "sleeps (watchOnce rs) = []"
proof (induction rs rule: watchOnce.induct)
  case (2 "is" rs)
  have "sleeps (map Event es) = []" for es by (induction es) simp_all
  then show ?case using 2 by simp
qed simp_all

lemma sleeps_watch: "b \<le> maxBackoff \<Longrightarrow> baseBackoff \<le> b \<Longrightarrow>
    length (sleeps (watch_from b ss)) = length ss \<and> sorted (sleeps (watch_from b ss)) \<and>
    list_all (\<lambda>n. b \<le> n \<and> n \<le> maxBackoff) (sleeps (watch_from b ss))"
proof (induction b ss rule: watch_from.induct)
  case (2 b s ss)
  have n: "b \<le> next_backoff b" "next_backoff b \<le> maxBackoff" "baseBackoff \<le> next_backoff b"
    using 2(2,3) by (auto simp: next_backoff_def Let_def maxBackoff_def baseBackoff_def)
  have "sleeps (watch_from b (s # ss)) = b # sleeps (watch_from (next_backoff b) ss)" by (simp split: option.split)
  then show ?case using 2(1) [OF n(2,3)] 2(2) n(1) by (auto simp: list_all_iff)
qed simp

text \<open>After every session of the change watch, however it ended, a resync is requested; the pauses
  between sessions start at one second, never shrink and never exceed a minute.\<close>

theorem watchLoop_backoff:
  "length (sleeps (watchLoop ss)) = length ss \<and> sorted (sleeps (watchLoop ss)) \<and>
   list_all (\<lambda>n. baseBackoff \<le> n \<and> n \<le> maxBackoff) (sleeps (watchLoop ss)) \<and>
   length ss \<le> count_list (watchLoop ss) NeedsResync"
proof -
  have "length ss \<le> count_list (watch_from b ss) NeedsResync" for b
    by (induction b ss rule: watch_from.induct) auto
  then show ?thesis using sleeps_watch [of baseBackoff ss] by (simp add: watchLoop_def baseBackoff_def maxBackoff_def)
qed

end
