(* ===== verification/Migrate.thy ===== *)
theory Migrate
  imports GoNumbers "HOL-Library.List_Lexorder" "HOL-Library.Char_ord"
begin

text \<open>
  Schema migrations (internal/index/migrate.go). The database executing a script is a parameter, a function
  on a schema of any type; the table \<open>schema_migrations\<close> is a list of versions with a unique key. Every
  statement can fail, and a transaction that fails leaves what was there. The scripts embedded in the binary
  are a list of names and bodies.
\<close>

section \<open>The database while it is migrated\<close>

record 'd mig_db =
  mg_versions :: "int list"
  mg_schema :: 'd

record mig_faults =
  mf_create :: "string option"
  mf_query :: "string option"
  mf_dir :: "string option"
  mf_read :: "string \<Rightarrow> string option"
  mf_begin :: "int \<Rightarrow> string option"
  mf_insert :: "int \<Rightarrow> string option"
  mf_commit :: "int \<Rightarrow> string option"

type_synonym 'd exec = "string \<Rightarrow> 'd \<Rightarrow> string + 'd"

definition applyMigration :: "mig_faults \<Rightarrow> 'd exec \<Rightarrow> int \<Rightarrow> string \<Rightarrow> 'd mig_db \<Rightarrow> string option \<times> 'd mig_db" where
  "applyMigration flt exec v body d =
     (case mf_begin flt v of
        Some e \<Rightarrow> (Some e, d)
      | None \<Rightarrow>
          (case exec body (mg_schema d) of
             Inl e \<Rightarrow> (Some e, d)
           | Inr sc \<Rightarrow>
               (case (if v \<in> set (mg_versions d) then Some ''duplicate key'' else mf_insert flt v) of
                  Some e \<Rightarrow> (Some e, d)
                | None \<Rightarrow>
                    (case mf_commit flt v of
                       Some e \<Rightarrow> (Some e, d)
                     | None \<Rightarrow> (None, \<lparr>mg_versions = mg_versions d @ [v], mg_schema = sc\<rparr>)))))"

definition mig_version :: "string \<Rightarrow> num_err + int" where
  "mig_version nm = ParseInt (takeWhile (\<lambda>c. c \<noteq> CHR ''_'') nm)"

text \<open>\<open>applied\<close> is read once, before the loop.\<close>

fun run_migrations ::
  "mig_faults \<Rightarrow> 'd exec \<Rightarrow> int list \<Rightarrow> (string \<times> string) list \<Rightarrow> 'd mig_db \<Rightarrow> string option \<times> 'd mig_db" where
  "run_migrations flt exec applied [] d = (None, d)"
| "run_migrations flt exec applied ((nm, body) # fs) d =
     (case mig_version nm of
        Inl _ \<Rightarrow> (Some (''migration '' @ Quote nm @ '': file name must start with a number''), d)
      | Inr v \<Rightarrow>
          (if v \<in> set applied then run_migrations flt exec applied fs d
           else case mf_read flt nm of
                  Some e \<Rightarrow> (Some e, d)
                | None \<Rightarrow>
                    (case applyMigration flt exec v body d of
                       (Some e, d') \<Rightarrow> (Some (''migration '' @ nm @ '': '' @ e), d')
                     | (None, d') \<Rightarrow> run_migrations flt exec applied fs d')))"

definition migrate :: "mig_faults \<Rightarrow> 'd exec \<Rightarrow> (string \<times> string) list \<Rightarrow> 'd mig_db \<Rightarrow> string option \<times> 'd mig_db" where
  "migrate flt exec scripts d =
     (case mf_create flt of
        Some e \<Rightarrow> (Some (''create schema_migrations: '' @ e), d)
      | None \<Rightarrow>
          (case mf_query flt of
             Some e \<Rightarrow> (Some e, d)
           | None \<Rightarrow>
               (case mf_dir flt of
                  Some e \<Rightarrow> (Some e, d)
                | None \<Rightarrow> run_migrations flt exec (mg_versions d) (sort_key fst scripts) d)))"

section \<open>What a run does\<close>

fun exec_all :: "'d exec \<Rightarrow> string list \<Rightarrow> 'd \<Rightarrow> string + 'd" where
  "exec_all exec [] x = Inr x"
| "exec_all exec (b # bs) x = (case exec b x of Inl e \<Rightarrow> Inl e | Inr y \<Rightarrow> exec_all exec bs y)"

text \<open>The scripts not applied yet, with their versions\<close>

fun todo :: "int list \<Rightarrow> (string \<times> string) list \<Rightarrow> (int \<times> string) list" where
  "todo applied [] = []"
| "todo applied ((nm, body) # fs) =
     (case mig_version nm of
        Inl _ \<Rightarrow> todo applied fs
      | Inr v \<Rightarrow> if v \<in> set applied then todo applied fs else (v, body) # todo applied fs)"

text \<open>\<open>after_scripts exec xs d d'\<close>: exactly the scripts \<open>xs\<close> ran, in order, and are recorded\<close>

definition after_scripts :: "'d exec \<Rightarrow> (int \<times> string) list \<Rightarrow> 'd mig_db \<Rightarrow> 'd mig_db \<Rightarrow> bool" where
  "after_scripts exec xs d d' \<longleftrightarrow>
     mg_versions d' = mg_versions d @ map fst xs \<and> exec_all exec (map snd xs) (mg_schema d) = Inr (mg_schema d')"

lemma after_none: "after_scripts exec [] d d"
  by (simp add: after_scripts_def)

lemma apply_failed: "applyMigration flt exec v body d = (Some e, d') \<Longrightarrow> d' = d"
  by (auto simp: applyMigration_def split: option.splits sum.splits if_splits)

lemma apply_done:
  "applyMigration flt exec v body d = (None, d') \<Longrightarrow> v \<notin> set (mg_versions d) \<and> after_scripts exec [(v, body)] d d'"
  by (auto simp: applyMigration_def after_scripts_def split: option.splits sum.splits if_splits)

lemma after_more:
  "after_scripts exec [(v, body)] d d1 \<Longrightarrow> after_scripts exec xs d1 d' \<Longrightarrow> after_scripts exec ((v, body) # xs) d d'"
  by (auto simp: after_scripts_def split: sum.splits)

lemma run_steps:
  assumes "run_migrations flt exec applied fs d = (res, d')"
  shows "case res of
      Some e \<Rightarrow> \<exists>k. after_scripts exec (take k (todo applied fs)) d d'
    | None \<Rightarrow> after_scripts exec (todo applied fs) d d' \<and> list_all (\<lambda>f. \<not> is_err (mig_version (fst f))) fs"
  using assms
proof (induction flt exec applied fs d rule: run_migrations.induct)
  case (1 flt exec applied d)
  then show ?case by (auto simp: after_none)
next
  case (2 flt exec applied nm body fs d)
  have stop: "\<exists>k. after_scripts exec (take k xs) d d" for xs :: "(int \<times> string) list"
    by (rule exI [of _ 0]) (simp add: after_none)
  show ?case
  proof (cases "mig_version nm")
    case (Inl e)
    then show ?thesis using 2(3) stop by auto
  next
    case v: (Inr v)
    show ?thesis
    proof (cases "v \<in> set applied")
      case True
      then show ?thesis using 2(1) [OF v True] 2(3) v by (simp split: option.splits)
    next
      case False
      show ?thesis
      proof (cases "mf_read flt nm")
        case (Some e)
        then show ?thesis using 2(3) v False stop [of "todo applied ((nm, body) # fs)"] by (auto simp: Some)
      next
        case None
        obtain r d1 where a: "applyMigration flt exec v body d = (r, d1)" by fastforce
        show ?thesis
        proof (cases r)
          case (Some e)
          then show ?thesis using 2(3) v False None a apply_failed [OF a [unfolded Some]] stop by auto
        next
          case r: None
          have one: "after_scripts exec [(v, body)] d d1" using apply_done [OF a [unfolded r]] by simp
          have rec: "run_migrations flt exec applied fs d1 = (res, d')" using 2(3) v False None a r by simp
          show ?thesis
            using 2(2) [OF v False None _ _ rec] a r v False after_more [OF one]
            by (fastforce split: option.splits intro: exI [of _ "Suc _"])
        qed
      qed
    qed
  qed
qed

lemma todo_done:
  "list_all (\<lambda>f. \<not> is_err (mig_version (fst f))) fs \<Longrightarrow> set (map fst (todo applied fs)) \<subseteq> set vs \<Longrightarrow> set applied \<subseteq> set vs \<Longrightarrow>
   run_migrations flt exec vs fs d = (None, d)"
  by (induction fs) (auto simp: is_err_def split: sum.splits if_splits)

definition no_mig_faults :: mig_faults where
  "no_mig_faults = \<lparr>mf_create = None, mf_query = None, mf_dir = None, mf_read = \<lambda>_. None, mf_begin = \<lambda>_. None,
     mf_insert = \<lambda>_. None, mf_commit = \<lambda>_. None\<rparr>"

text \<open>C28: a migration that succeeds has run exactly the scripts whose version was not recorded, each once, in
  the order of their names, and recorded them, and running it again changes nothing; one that fails has run
  and recorded a whole number of them from the front, so that the next run goes on where it stopped.\<close>

theorem migrate_resumes:
  "let xs = todo (mg_versions d) (sort_key fst scripts)
   in case migrate flt exec scripts d of
        (None, d') \<Rightarrow> after_scripts exec xs d d' \<and> migrate no_mig_faults exec scripts d' = (None, d')
      | (Some e, d') \<Rightarrow> \<exists>k. after_scripts exec (take k xs) d d'"
proof -
  let ?fs = "sort_key fst scripts"
  let ?xs = "todo (mg_versions d) ?fs"
  have stop: "\<exists>k. after_scripts exec (take k ?xs) d d" by (rule exI [of _ 0]) (simp add: after_none)
  show ?thesis
  proof (cases "mf_create flt = None \<and> mf_query flt = None \<and> mf_dir flt = None")
    case True
    obtain res d' where r: "run_migrations flt exec (mg_versions d) ?fs d = (res, d')" by fastforce
    have again: "migrate no_mig_faults exec scripts d' = (None, d')"
      if "after_scripts exec ?xs d d'" "list_all (\<lambda>f. \<not> is_err (mig_version (fst f))) ?fs"
      unfolding migrate_def using todo_done [OF that(2), of "mg_versions d" "mg_versions d'"] that(1)
      by (simp add: no_mig_faults_def after_scripts_def)
    show ?thesis using run_steps [OF r] again True r by (auto simp: migrate_def Let_def split: option.splits)
  next
    case False
    then show ?thesis using stop by (auto simp: migrate_def Let_def split: option.splits)
  qed
qed

text \<open>Names are ordered as strings: a script numbered with fewer digits comes later than its number says.\<close>

lemma unpadded_order:
  "map fst (todo [] (sort_key fst [(''9_a.sql'', ''a''), (''10_b.sql'', ''b'')])) = [10, 9]"
  by code_simp

lemma repository_order:
  "map fst (todo [1] (sort_key fst [(''0002_content_settings.sql'', []), (''0001_init.sql'', []), (''0003_content_index.sql'', [])])) = [2, 3]"
  by code_simp

text \<open>Two scripts with one number never get past the second: the version is recorded by the first.\<close>

lemma twice_numbered:
  "fst (migrate no_mig_faults (\<lambda>b x. Inr (x @ b)) [(''0004_a.sql'', ''a''), (''0004_b.sql'', ''b'')] \<lparr>mg_versions = [], mg_schema = []\<rparr>) \<noteq> None"
  by code_simp

end
