(* ===== verification/Process.thy ===== *)
theory Process
  imports Routes Config Watch SmbSession Migrate
begin

text \<open>
  What ties the parts together: dialling a share and the reads of a session (internal/smbclient/smbclient.go),
  the listener that feeds a volume's change events to the index (\<open>Watch\<close> of internal/httpapi/watch.go) and its
  periodic crawl (\<open>PeriodicCrawl\<close> of internal/httpapi/crawl.go), opening the index (\<open>Open\<close> of
  internal/index/index.go) and the main program (cmd/findo-server/main.go).
\<close>

section \<open>Dialling\<close>

text \<open>What the network answers, and what was done to it\<close>

record dial_answers =
  da_tcp :: "string \<Rightarrow> string option"
  da_session :: "string \<Rightarrow> string \<Rightarrow> string option"
  da_mount :: "string \<Rightarrow> string option"

datatype net_event = Dialled string | SessionUp | Mounted string | Unmounted | LoggedOff | ConnClosed

definition share_path :: "string \<Rightarrow> string \<Rightarrow> string" where
  "share_path hostname share = backslash # backslash # hostname @ backslash # share"

definition dial :: "dial_answers \<Rightarrow> conn \<Rightarrow> (string + unit) \<times> net_event list" where
  "dial a c =
     (case splitHost (c_host c) of
        (hostname, addr) \<Rightarrow>
          (case da_tcp a addr of
             Some e \<Rightarrow> (Inl (''dial '' @ addr @ '': '' @ e), [])
           | None \<Rightarrow>
               (case da_session a (c_user c) (c_pass c) of
                  Some e \<Rightarrow> (Inl (''smb session setup: '' @ e), [Dialled addr, ConnClosed])
                | None \<Rightarrow>
                    (let p = share_path hostname (c_share c)
                     in case da_mount a p of
                          Some e \<Rightarrow> (Inl (''mount share '' @ Quote (c_share c) @ '': '' @ e), [Dialled addr, SessionUp, LoggedOff, ConnClosed])
                        | None \<Rightarrow> (Inr (), [Dialled addr, SessionUp, Mounted p])))))"

definition closeLocked :: "bool \<Rightarrow> net_event list" where
  "closeLocked connected = (if connected then [Unmounted, LoggedOff, ConnClosed] else [])"

fun opened_of :: "net_event \<Rightarrow> int" where
  "opened_of (Dialled _) = 1"
| "opened_of SessionUp = 1"
| "opened_of (Mounted _) = 1"
| "opened_of _ = - 1"

definition held :: "net_event list \<Rightarrow> int" where
  "held evs = sum_list (map opened_of evs)"

text \<open>A dial that fails holds nothing, one that succeeds holds what \<open>Close\<close> gives back.\<close>

lemma dial_leaks_nothing:
  "case dial a c of (Inl e, evs) \<Rightarrow> held evs = 0 | (Inr _, evs) \<Rightarrow> held (evs @ closeLocked True) = 0"
  by (simp add: dial_def held_def closeLocked_def Let_def split: prod.split option.split)

section \<open>Reads of a session\<close>

text \<open>
  \<open>do\<close> for one caller: whether the client is connected, the answer of the operation, whether a dead session
  could be replaced, and the answer of the retry. An answer is \<open>Inl\<close> an error, with whether it is a transport
  error, or the result.
\<close>

type_synonym 'a remote = "(bool \<times> string) + 'a"

definition client_do :: "bool \<Rightarrow> 'a remote \<Rightarrow> string option \<Rightarrow> 'a remote \<Rightarrow> string + 'a" where
  "client_do connected first redial second =
     (if \<not> connected then Inl ''not connected''
      else case first of
             Inr x \<Rightarrow> Inr x
           | Inl (transport, e) \<Rightarrow>
               (if \<not> transport then Inl e
                else case redial of
                       Some r \<Rightarrow> Inl (e @ '' (reconnect failed: '' @ r @ '')'')
                     | None \<Rightarrow> (case second of Inl (_, e') \<Rightarrow> Inl e' | Inr x \<Rightarrow> Inr x)))"

text \<open>The operations of one attempt on the share, by SMB path\<close>

record 'f share_ops =
  so_open :: "string \<Rightarrow> 'f remote"
  so_stat :: "string \<Rightarrow> unit remote"
  so_file_stat :: "'f \<Rightarrow> string + (string \<times> int)"

record 'f attempts =
  at_connected :: bool
  at_first :: "'f share_ops"
  at_redial :: "string option"
  at_second :: "'f share_ops"

definition Ping :: "'f attempts \<Rightarrow> string + unit" where
  "Ping a = client_do (at_connected a) (so_stat (at_first a) dot) (at_redial a) (so_stat (at_second a) dot)"

text \<open>The last result lists the files that were closed again.\<close>

definition Client_Open :: "'f attempts \<Rightarrow> string \<Rightarrow> (string + 'f \<times> string \<times> int) \<times> 'f list" where
  "Client_Open a p =
     (if \<not> ValidPath p then (Inl (''invalid path '' @ Quote p), [])
      else let q = toSMBPath p
           in case client_do (at_connected a) (so_open (at_first a) q) (at_redial a) (so_open (at_second a) q) of
                Inl e \<Rightarrow> (Inl (''open '' @ Quote p @ '': '' @ e), [])
              | Inr f \<Rightarrow>
                  (case so_file_stat (at_first a) f of
                     Inl e \<Rightarrow> (Inl (''stat '' @ Quote p @ '': '' @ e), [f])
                   | Inr (nm, mtime) \<Rightarrow> (Inr (f, nm, mtime), [])))"

lemma dotted_name: "CHR ''.'' \<in> set h \<Longrightarrow> contains (map lower_byte h) ''.''"
proof -
  assume "CHR ''.'' \<in> set h"
  then obtain a b where "h = a @ CHR ''.'' # b" by (meson split_list)
  then have "map lower_byte h = map lower_byte a @ ''.'' @ map lower_byte b" by (simp add: lower_byte_def)
  then show ?thesis unfolding contains_iff by blast
qed

section \<open>What a request can reach on a share\<close>

definition session_opens :: "(nat \<Rightarrow> (nat \<times> read_at) attempts) \<Rightarrow> session_open" where
  "session_opens a rt p =
     (case fst (Client_Open (a rt) p) of
        Inl e \<Rightarrow> Inl e
      | Inr (f, nm, mtime) \<Rightarrow> Inr \<lparr>op_name = nm, op_mod_time = mtime, op_size = fst f, op_reader = snd f\<rparr>)"

text \<open>A share that does not answer to paths with a NUL byte or a segment of two dots\<close>

definition inside :: "string \<Rightarrow> bool" where
  "inside q \<longleftrightarrow> CHR 0x00 \<notin> set q \<and> dotdot \<notin> set (split_on [backslash] q)"

definition confine :: "'f share_ops \<Rightarrow> 'f share_ops" where
  "confine so = so\<lparr>so_open := \<lambda>q. if inside q then so_open so q else Inl (False, ''outside the share'')\<rparr>"

definition confined :: "'f attempts \<Rightarrow> 'f attempts" where
  "confined a = a\<lparr>at_first := confine (at_first a), at_second := confine (at_second a)\<rparr>"

lemma Client_Open_confined: "Client_Open (confined a) p = Client_Open a p"
proof (cases "ValidPath p")
  case True
  then have "inside (toSMBPath p)" using ValidPath_correct by (simp add: inside_def)
  then show ?thesis by (simp add: Client_Open_def confined_def confine_def Let_def split: sum.split)
next
  case False
  then show ?thesis by (simp add: Client_Open_def)
qed

text \<open>C16: whatever a request asks for, the service answers it exactly as it would if the shares refused to
  open any path with a NUL byte or a segment of two dots: no request makes it open such a path, however the
  path is written.\<close>

theorem requests_stay_inside:
  "serve g (e\<lparr>e_open := session_opens a\<rparr>) rq x = serve g (e\<lparr>e_open := session_opens (\<lambda>rt. confined (a rt))\<rparr>) rq x"
proof -
  have "session_opens (\<lambda>rt. confined (a rt)) = session_opens a"
    by (intro ext) (simp add: session_opens_def Client_Open_confined)
  then show ?thesis by simp
qed

section \<open>The change listener\<close>

text \<open>What the listener receives; with an event come the answers of the share and of the database.\<close>

record event_env =
  ev_now :: int
  ev_stat :: raw_stat
  ev_delete :: fault
  ev_upsert :: fault

datatype watch_msg = EventMsg event_env change_event | GapMsg | StreamClosed | CtxEnded

fun watch_msgs :: "int \<Rightarrow> nat \<Rightarrow> watch_msg list \<Rightarrow> server \<Rightarrow> server" where
  "watch_msgs vol i [] s = s"
| "watch_msgs vol i (EventMsg env ev # ms) s =
     (let s = upd_rt i (recordWatchEvent (ev_now env)) s;
          s = set_db (applyChangeEvent (volumeRuntime vol s \<noteq> None) (ev_stat env) (ev_delete env) (ev_upsert env) vol ev (s_db s)) s
      in watch_msgs vol i ms s)"
| "watch_msgs vol i (GapMsg # ms) s = watch_msgs vol i ms (resync vol triggerResync (upd_rt i recordResync s))"
| "watch_msgs vol i (StreamClosed # ms) s = upd_rt i (setWatchConnected False) s"
| "watch_msgs vol i (CtxEnded # ms) s = upd_rt i (setWatchConnected False) s"

definition Server_Watch :: "int \<Rightarrow> watch_msg list \<Rightarrow> server \<Rightarrow> server" where
  "Server_Watch vol ms s =
     (case volumeRuntime vol s of
        None \<Rightarrow> s
      | Some i \<Rightarrow> watch_msgs vol i ms (upd_rt i (setWatchConnected True) s))"

text \<open>One crawl per tick, until the context ends\<close>

fun PeriodicCrawl :: "int \<Rightarrow> nat \<Rightarrow> server \<Rightarrow> server" where
  "PeriodicCrawl vol 0 s = s"
| "PeriodicCrawl vol (Suc n) s = PeriodicCrawl vol n (resync vol triggerPeriodic s)"

text \<open>A resync that finds a crawl under way starts none, although that crawl may have listed the changed
  directory before the change.\<close>

lemma resync_dropped:
  "volumeRuntime vol s = Some i \<Longrightarrow> rt_crawling (s_rts s ! i) \<Longrightarrow> resync vol trig s = s"
  by (simp add: resync_def triggerCrawl_def)

lemma resync_crawls:
  assumes "owned s" "volumeRuntime vol s = Some i"
  shows "rt_crawling (s_rts (resync vol trig s) ! i) \<and> s_volumes (resync vol trig s) = s_volumes s \<and>
    s_db (resync vol trig s) = s_db s \<and> owned (resync vol trig s)"
proof -
  have "i < length (s_rts s)" using ownedD(1) [OF assms(1)] assms(2) by (simp add: volumeRuntime_def)
  then show ?thesis using assms
    by (auto simp: resync_def triggerCrawl_def owned_begin) (auto simp: begin_crawl_def upd_rt_def)
qed

lemma event_index_ok: "index_ok pg d \<Longrightarrow> index_ok pg (applyChangeEvent connected raw f1 f2 vol ev d)"
proof -
  have del: "index_ok pg d \<Longrightarrow> index_ok pg (snd (Delete flt vol p d))" for flt p d
    by (rule index_step_ok [OF index_step.delete])
  have ups: "index_ok pg d \<Longrightarrow> index_ok pg (upsertPath connected raw flt vol p d)" for flt p d
    using upsert_index_ok [of pg d 0] by (auto simp: upsertPath_def Upsert_def index_ok_def split: sum.split option.split)
  show "index_ok pg d \<Longrightarrow> ?thesis" by (cases ev) (simp_all add: del ups)
qed

lemma app_upd:
  assumes "app_ok pg s" "\<And>rt. rt_cancelled (f rt) = rt_cancelled rt \<and> rt_closed (f rt) = rt_closed rt"
  shows "app_ok pg (upd_rt i f s)"
  using owned_upd [of s f i] assms by (simp add: app_ok_def)

lemma app_resync: "app_ok pg s \<Longrightarrow> app_ok pg (resync vol trig s)"
  by (auto simp: resync_def triggerCrawl_def app_ok_def owned_begin begin_crawl_def upd_rt_def
      dest: owned_begin split: option.split)

lemma app_watch: "app_ok pg s \<Longrightarrow> app_ok pg (watch_msgs vol i ms s)"
proof (induction vol i ms s rule: watch_msgs.induct)
  case (2 vol i env ev ms s)
  have "app_ok pg (upd_rt i (recordWatchEvent (ev_now env)) s)"
    using 2(2) by (rule app_upd) (simp add: recordWatchEvent_def)
  then show ?case using 2(1) [OF refl refl] app_steps(1) [OF _ event_index_ok [OF app_index [OF 2(2)]]]
    by (simp add: Let_def)
next
  case (3 vol i ms s)
  have "app_ok pg (upd_rt i recordResync s)" using 3(2) by (rule app_upd) (simp add: recordResync_def)
  then show ?case using 3(1) app_resync by simp
qed (simp_all add: app_upd setWatchConnected_def)

section \<open>The main program\<close>

definition openIndex :: "string option \<Rightarrow> mig_faults \<Rightarrow> 'd exec \<Rightarrow> (string \<times> string) list \<Rightarrow> 'd mig_db \<Rightarrow> string option \<times> 'd mig_db" where
  "openIndex sqlErr flt exec scripts d =
     (case sqlErr of
        Some e \<Rightarrow> (Some (''open postgres: '' @ e), d)
      | None \<Rightarrow>
          (case migrate flt exec scripts d of
             (Some e, d') \<Rightarrow> (Some (''connect and migrate: '' @ e), d')
           | (None, d') \<Rightarrow> (None, d')))"

text \<open>Times in seconds; there is no limit on writing a response.\<close>

record http_limits =
  hl_addr :: string
  hl_read_header :: nat
  hl_read :: nat
  hl_idle :: nat
  hl_header_bytes :: nat

definition newHTTPServer :: "string \<Rightarrow> http_limits" where
  "newHTTPServer addr = \<lparr>hl_addr = addr, hl_read_header = 10, hl_read = 30, hl_idle = 120, hl_header_bytes = 32 * 1024\<rparr>"

record process =
  pr_http :: http_limits
  pr_url :: string
  pr_warns :: bool
  pr_key :: string
  pr_allowed :: "string list"
  pr_starts :: "(int \<times> nat) list"

datatype main_exit = FatalConfig config_err | FatalIndex string | FatalVolumes | Serving process

definition main_run :: "env_file \<Rightarrow> env \<Rightarrow> (string \<Rightarrow> string option) \<Rightarrow> fault \<Rightarrow> db \<Rightarrow> string option \<Rightarrow> main_exit" where
  "main_run envf e open_index flt d hostname =
     (case Load envf e of
        Inl err \<Rightarrow> FatalConfig err
      | Inr cfg \<Rightarrow>
          (case open_index (DatabaseURL cfg) of
             Some err \<Rightarrow> FatalIndex err
           | None \<Rightarrow>
               (case main_starts flt d of
                  Inl _ \<Rightarrow> FatalVolumes
                | Inr starts \<Rightarrow>
                    Serving \<lparr>pr_http = newHTTPServer (HTTPAddr cfg), pr_url = listenURL (HTTPAddr cfg),
                      pr_warns = ListensBeyondLoopback (HTTPAddr cfg), pr_key = MasterKey cfg,
                      pr_allowed = AllowedHosts cfg @ (case hostname of None \<Rightarrow> [] | Some h \<Rightarrow> [h]), pr_starts = starts\<rparr>)))"

text \<open>What the process serves\<close>

definition process_config :: "process \<Rightarrow> api_config \<Rightarrow> api_config" where
  "process_config pr g = g\<lparr>g_key := pr_key pr, g_allowed := pr_allowed pr\<rparr>"

text \<open>C23: a process that got as far as serving refuses every request addressed by a public DNS name that is
  neither in its configuration nor the machine's own name, whatever the request, and does nothing else.\<close>

theorem process_refuses_rebinding:
  assumes "main_run envf env0 open_index flt d hostname = Serving pr" "Load envf env0 = Inr cfg"
    and "plain_name h" "CHR ''.'' \<in> set h" "ParseIP (map lower_byte h) = None"
    and "\<not> list_ex (has_suffix (map lower_byte h)) privateSuffixes"
    and "\<forall>p. port = Some p \<longrightarrow> list_all is_dec p" "rq_host rq = host_header (h @ (if dotted then ''.'' else [])) port"
    and "map lower_byte h \<notin> normalizeHost (g_u g) ` set (AllowedHosts cfg @ (case hostname of None \<Rightarrow> [] | Some nm \<Rightarrow> [nm]))"
  shows "\<exists>msg. serve (process_config pr g) e rq x = (Failed 403 msg, x)"
proof -
  have n: "normalizeHost (g_u g) (rq_host rq) = map lower_byte h"
    using normalizeHost_name [OF assms(3,7), of "g_u g" dotted] assms(8) by simp
  have "map lower_byte h \<noteq> []" using assms(3) by (simp add: plain_name_def)
  moreover have "contains (map lower_byte h) ''.''" by (rule dotted_name [OF assms(4)])
  ultimately have "\<not> hostAllowed (g_u g) (rq_host rq) (extra_hosts (g_u g) (pr_allowed pr))"
    using n assms(1,2,5,6,9)
    by (auto simp: hostAllowed_def extra_hosts_def main_run_def image_iff split: option.splits sum.splits)
  then show ?thesis by (simp add: serve_def process_config_def HostGuard_def)
qed

definition evil_request :: request where
  "evil_request = create_request\<lparr>rq_host := ''Evil.Example.COM.:8080''\<rparr>"

theorem process_refuses_rebinding_witness:
  "case main_run example_env_file (\<lambda>_. None) (\<lambda>_. None) None empty_db (Some ''mini'') of
     Serving pr \<Rightarrow> \<exists>msg. serve (process_config pr example_config) example_env evil_request (new_server empty_db, newUpdateChecker) =
        (Failed 403 msg, new_server empty_db, newUpdateChecker)
   | _ \<Rightarrow> False"
proof -
  let ?m = "main_run example_env_file (\<lambda>_. None) (\<lambda>_. None) None empty_db (Some ''mini'')"
  have "case ?m of Serving _ \<Rightarrow> True | _ \<Rightarrow> False" by code_simp
  then obtain pr where pr: "?m = Serving pr" by (auto split: main_exit.splits)
  have "case Load example_env_file (\<lambda>_. None) of Inl _ \<Rightarrow> False | Inr cfg \<Rightarrow> AllowedHosts cfg = [''a'', ''b'']" by code_simp
  then obtain cfg where cfg: "Load example_env_file (\<lambda>_. None) = Inr cfg" "AllowedHosts cfg = [''a'', ''b'']" by (auto split: sum.splits)
  let ?e = "''Evil.Example.COM''"
  have h: "plain_name ?e" "CHR ''.'' \<in> set ?e" "ParseIP (map lower_byte ?e) = None" "\<not> list_ex (has_suffix (map lower_byte ?e)) privateSuffixes"
    "map lower_byte ?e \<notin> normalizeHost (g_u example_config) ` set ([''a'', ''b''] @ (case Some ''mini'' of None \<Rightarrow> [] | Some nm \<Rightarrow> [nm]))"
    by code_simp+
  have p: "\<forall>p. Some ''8080'' = Some p \<longrightarrow> list_all is_dec p" by (simp add: is_dec_def)
  have q: "rq_host evil_request = host_header (?e @ (if True then ''.'' else [])) (Some ''8080'')"
    by (simp add: host_header_def colon_def evil_request_def)
  show ?thesis using process_refuses_rebinding [OF pr cfg(1) h(1-4) p q] h(5) cfg(2) by (simp add: pr)
qed

end
