(* ===== verification/ShareClient.thy ===== *)
theory ShareClient
  imports Process
begin

text \<open>
  The two long-running operations of a client (internal/smbclient) and what the server makes of them:
  \<open>Walk\<close> (smbclient.go), whose directory reads are calls of \<open>do\<close> and whose result a crawl consumes, and
  \<open>Watch\<close> (watch.go), whose two channels the listener of internal/httpapi/watch.go reads.
\<close>

section \<open>\<open>Walk\<close>\<close>

text \<open>What each directory's read meets: whether the client is connected, the first answer, the outcome of
  replacing a dead session, and the answer of the retry\<close>

type_synonym dir_answers = "string \<Rightarrow> bool \<times> info list remote \<times> string option \<times> info list remote"

definition session_dir :: "dir_answers \<Rightarrow> read_dir" where
  "session_dir a d = (case a d of (connected, first, redial, second) \<Rightarrow> client_do connected first redial second)"

text \<open>One recorded error, and \<open>errors.Join\<close>\<close>

definition readdir_error :: "string \<times> string \<Rightarrow> string" where
  "readdir_error de = (case de of (d, e) \<Rightarrow> ''readdir '' @ Quote d @ '': '' @ e)"

definition walk_errors :: "(string \<times> string) list \<Rightarrow> string option" where
  "walk_errors errs =
     (if errs = [] then None
      else Some (join [CHR 0x0A] (map readdir_error errs)))"

text \<open>The entries in the order they were handed to the callback, and the joined errors, once every worker
  has returned\<close>

inductive Client_Walk :: "bool \<Rightarrow> dir_answers \<Rightarrow> string \<Rightarrow> entry list \<Rightarrow> string option \<Rightarrow> bool" where
  not_connected: "Client_Walk False a root [] (Some ''not connected'')"
| walked: "(walk_step (session_dir a))\<^sup>*\<^sup>* (walk_init walkConcurrency (toSMBPath root)) s \<Longrightarrow>
      list_all (\<lambda>w. w = Exited) (w_workers s) \<Longrightarrow> Client_Walk True a root (w_out s) (walk_errors (w_errs s))"

inductive_cases Client_Walk_connected: "Client_Walk True a root out res"

inductive_simps Client_Walk_closed: "Client_Walk False a root out res"

lemma walk_errors_none: "walk_errors errs = None \<longleftrightarrow> errs = []"
  by (simp add: walk_errors_def)

lemma walk_errors_text: "walk_errors errs \<noteq> Some []"
proof (cases errs)
  case (Cons x xs)
  then show ?thesis by (cases xs; cases x) (simp_all add: walk_errors_def readdir_error_def)
qed (simp add: walk_errors_def)

lemma exited_stuck: "list_all (\<lambda>w. w = Exited) (w_workers s) \<Longrightarrow> \<not> walk_step rd s s'"
  by (auto simp: list_all_length elim: walk_step.cases)

lemma Client_Walk_result:
  assumes "Client_Walk True a root out werr" "fits (session_dir a) N (toSMBPath root)"
  shows "mset out = mset (tree_entries (session_dir a) N (toSMBPath root)) \<and>
    (\<exists>errs. mset errs = mset (tree_errs (session_dir a) N (toSMBPath root)) \<and> werr = walk_errors errs)"
proof -
  obtain s where s: "out = w_out s" "werr = walk_errors (w_errs s)" "list_all (\<lambda>w. w = Exited) (w_workers s)"
    "(walk_step (session_dir a))\<^sup>*\<^sup>* (walk_init walkConcurrency (toSMBPath root)) s"
    using assms(1) by (rule Client_Walk_connected)
  have "accounted (session_dir a) N (toSMBPath root) s" "no_lost_wakeup s"
    using walk_reachable [OF assms(2) _ s(4)] by (simp_all add: walkConcurrency_def)
  from stuck_result [OF this] exited_stuck [OF s(3)] show ?thesis unfolding s(1,2) by blast
qed

section \<open>A crawl over a share that answers in part\<close>

lemma write_batches_runs: "write_batches flts i bs run d = (w, e, d') \<Longrightarrow> crawl_runs d' = crawl_runs d"
proof (induction bs arbitrary: i d w e d')
  case (Cons b bs)
  obtain res d1 where u: "UpsertBatch (flts i) b run d = (res, d1)" by fastforce
  obtain w1 e1 d2 where r: "write_batches flts (Suc i) bs run d1 = (w1, e1, d2)" by (metis prod_cases3)
  have "crawl_runs d1 = crawl_runs d"
    using u by (auto simp: UpsertBatch_def split: if_splits option.splits sum.splits)
  moreover have "d' = d2" using Cons.prems u r by (auto split: sum.splits)
  ultimately show ?case using Cons.IH [OF r] by simp
qed simp

lemma find_fresh:
  "list_all (\<lambda>x. key x \<noteq> k) xs \<Longrightarrow> key r = k \<Longrightarrow> (\<And>x. key (f x) = key x) \<Longrightarrow>
    find (\<lambda>x. key x = k) (map f (xs @ [r])) = Some (f r)"
  by (induction xs) simp_all

lemma Crawl_run_record:
  assumes "db_ok d" "Crawl no_faults t0 t1 vol trig True out (map_option ErrMsg werr) d = (err, d')" "werr \<noteq> Some []"
  shows "map_option (\<lambda>r. (cr_error r, cr_files_seen r)) (tbl_get cr_id (next_run d) (crawl_runs d')) =
    Some (werr, int (length out))"
proof -
  let ?run = "next_run d" and ?fs = "map (entry_file vol) out"
  obtain d1 r where st: "StartCrawlRun None t0 vol trig d = (Inr ?run, d1)" "crawl_runs d1 = crawl_runs d @ [r]" "cr_id r = ?run"
    by (simp add: StartCrawlRun_def)
  have ok1: "db_ok d1" using StartCrawlRun_ok [OF assms(1), of None t0 vol trig] st by simp
  obtain wr e d2 where s2: "StreamUpsert (\<lambda>_. None) ?fs ?run crawlWriteBatch d1 = (wr, e, d2)" by (metis prod_cases3)
  have wf: "e = None" "wr = length out" "crawl_runs d2 = crawl_runs d @ [r]"
    using write_batches_file_at [OF ok1, of 0 "batches crawlWriteBatch ?fs" ?run wr e d2] s2 write_batches_runs st(2)
    by (simp_all add: StreamUpsert_batches concat_batches crawlWriteBatch_def)
  have sw: "crawl_runs (snd (Sweep None vol ?run d2)) = crawl_runs d2" by (simp add: Sweep_def Let_def sql_delete_files_def)
  obtain res d3 where d': "d' = snd (FinishCrawlRun None t1 ?run res d3)" "crawl_runs d3 = crawl_runs d2"
    "res_error res = werr" "res_files_seen res = int wr"
  proof (cases werr)
    case None
    then show ?thesis using assms(2) st(1) s2 wf(1) sw that by (simp add: Crawl_def no_faults_def Sweep_def Let_def) fastforce
  next
    case (Some m)
    then show ?thesis using assms(2) st(1) s2 wf(1) that by (simp add: Crawl_def no_faults_def err_text_def Let_def) fastforce
  qed
  define f where "f = (\<lambda>x :: crawl_run. if cr_id x = ?run
     then x\<lparr>cr_finished := Some t1, cr_duration := Some (res_duration res), cr_error := null_if_empty (case werr of None \<Rightarrow> [] | Some m \<Rightarrow> m),
            cr_files_seen := int wr, cr_files_removed := res_files_removed res, cr_bytes := res_bytes res\<rparr> else x)"
  have "crawl_runs d' = map f (crawl_runs d @ [r])"
    unfolding d'(1) using d'(2-) wf(3) by (simp add: FinishCrawlRun_def f_def Let_def)
  moreover have "list_all (\<lambda>x. cr_id x \<noteq> ?run) (crawl_runs d)" using assms(1) by (auto simp: db_ok_def list_all_iff)
  ultimately have "tbl_get cr_id ?run (crawl_runs d') = Some (f r)"
    using find_fresh [of cr_id ?run "crawl_runs d" r f] st(3) by (simp add: tbl_get_def f_def)
  then show ?thesis using st(3) wf(2) assms(3) by (cases werr) (simp_all add: f_def null_if_empty_def)
qed

text \<open>C1: a crawl of a share that answers in part: everything the walk reached is in the index as last read;
  if every directory was listed, what it did not reach is gone, and otherwise nothing of the volume is
  removed and the crawl returns, and records in its run, an error with a line for each directory that could
  not be listed. Other volumes are left alone. A client without a session reaches nothing.\<close>

theorem crawl_best_effort:
  assumes "index_ok pg d" "fits (session_dir a) N (toSMBPath [])"
    "distinct (map e_path (tree_entries (session_dir a) N (toSMBPath [])))"
    "Client_Walk connected a [] out werr"
    "Crawl no_faults t0 t1 vol trig True out (map_option ErrMsg werr) d = (err, d')"
  shows "err = map_option ErrMsg werr \<and>
    (if connected
     then \<exists>errs. mset errs = mset (tree_errs (session_dir a) N (toSMBPath [])) \<and> werr = walk_errors errs
     else werr = Some ''not connected'') \<and>
    map_option (\<lambda>r. (cr_error r, cr_files_seen r)) (tbl_get cr_id (next_run d) (crawl_runs d')) =
      Some (werr, int (length out)) \<and>
    (\<forall>k. file_at d' k =
      (if fst k \<noteq> vol then file_at d k
       else case find (\<lambda>e. connected \<and> e_path e = snd k) (tree_entries (session_dir a) N (toSMBPath [])) of
              Some e \<Rightarrow> Some (mk_row (next_run d) (entry_file vol e))
            | None \<Rightarrow> if werr = None then None else file_at d k))"
proof -
  let ?es = "tree_entries (session_dir a) N (toSMBPath [])"
  have ok: "db_ok d" "seen_ok d" using assms(1) by (simp_all add: index_ok_def)
  have w: "if connected then set out = set ?es \<and> (\<exists>errs. mset errs = mset (tree_errs (session_dir a) N (toSMBPath [])) \<and> werr = walk_errors errs)
       else out = [] \<and> werr = Some ''not connected''"
  proof (cases connected)
    case True
    then show ?thesis using Client_Walk_result [OF _ assms(2), of out werr] assms(4) mset_eq_setD by simp blast
  next
    case False
    then show ?thesis using assms(4) by (simp add: Client_Walk_closed)
  qed
  have ne: "werr \<noteq> Some []" using w walk_errors_text by (auto split: if_splits)
  have l: "last_for (vol, p) (map (entry_file vol) out) = map_option (entry_file vol) (find (\<lambda>e. connected \<and> e_path e = p) ?es)" for p
  proof (cases connected)
    case True
    then show ?thesis using w last_listed [OF _ assms(3)] by simp
  next
    case False
    then show ?thesis using w by (simp add: last_for_def find_None_iff)
  qed
  show ?thesis
    using w Crawl_run_record [OF ok(1) assms(5) ne] Crawl_file_at [OF ok assms(5)] l
    by (auto split: option.split if_splits)
qed

definition example_dirs :: dir_answers where
  "example_dirs d = (True, (case example_share d of Inl e \<Rightarrow> Inl (False, e) | Inr is \<Rightarrow> Inr is), None, Inr [])"

theorem crawl_best_effort_witness:
  "\<exists>d out werr d'. Client_Walk True example_dirs [] out (Some werr) \<and>
     Crawl no_faults 0 1 1 ''manual'' True out (Some (ErrMsg werr)) d = (Some (ErrMsg werr), d') \<and>
     werr = ''readdir '' @ Quote ''a'' @ '': access denied'' \<and>
     file_at d (1, ''b'') = None \<and> file_at d' (1, ''b'') \<noteq> None \<and> file_at d' (1, ''a/old'') = file_at d (1, ''a/old'') \<and>
     file_at d (1, ''a/old'') \<noteq> None"
proof -
  let ?d = "snd (UpsertBatch None [example_file ''a/old'' 1] 0 example_db)"
  have ok: "db_ok example_db" "index_ok ascii_tables ?d"
    using example_db_ok upsert_index_ok [OF example_db_ok, of 0] by (auto simp: index_ok_def example_db_def empty_db_def)
  have ex: "file_at ?d (1, ''a/old'') = Some (mk_row 0 (example_file ''a/old'' 1))" "file_at ?d (1, ''b'') = None"
    by code_simp+
  have rd: "session_dir example_dirs = example_share"
    by (intro ext) (simp add: session_dir_def example_dirs_def client_do_def split: sum.split)
  have root: "toSMBPath [] = dot" by code_simp
  have n: "0 < walkConcurrency" by (simp add: walkConcurrency_def)
  obtain s where s: "(walk_step example_share)\<^sup>*\<^sup>* (walk_init walkConcurrency dot) s" "\<not> (\<exists>s'. walk_step example_share s s')"
    using walk_finishes walk_reachable [OF example_share_fits n rtranclp.rtrancl_refl] by metis
  have "accounted example_share 2 dot s" "no_lost_wakeup s" using walk_reachable [OF example_share_fits n s(1)] by auto
  moreover have "tree_errs example_share 2 dot = [(''a'', ''access denied'')]" by code_simp
  ultimately have st: "list_all (\<lambda>w. w = Exited) (w_workers s)" "mset (w_errs s) = {#(''a'', ''access denied'')#}"
    using stuck_result [OF _ _ s(2)] by simp_all
  let ?w = "''readdir '' @ Quote ''a'' @ '': access denied''"
  have "w_errs s = [(''a'', ''access denied'')]" using st(2) by simp
  then have we: "walk_errors (w_errs s) = Some ?w" by (simp add: walk_errors_def readdir_error_def)
  have w: "Client_Walk True example_dirs [] (w_out s) (Some ?w)"
    unfolding we [symmetric] using s(1) st(1) by (intro Client_Walk.walked) (simp_all add: rd root)
  obtain err d' where c: "Crawl no_faults 0 1 1 ''manual'' True (w_out s) (map_option ErrMsg (Some ?w)) ?d = (err, d')" by fastforce
  have es: "map e_path (tree_entries example_share 2 dot) = [''a'', ''b'']" by code_simp
  from crawl_best_effort [OF ok(2) _ _ w c, of 2]
  have r: "err = Some (ErrMsg ?w)" "file_at d' (1, ''a/old'') = file_at ?d (1, ''a/old'')" "file_at d' (1, ''b'') \<noteq> None"
    using es example_share_fits by (auto simp: rd root find_None_iff split: option.splits)
  then show ?thesis using w c ex by fastforce
qed

section \<open>\<open>Watch\<close>\<close>

text \<open>What the listener receives of the stream: the events, each with the answers it will meet, the requests
  to resync, and the closed channel once the context ended. Both channels are unbuffered and have one
  sender, so they keep its order; \<open>k\<close> is how much was sent before the context ended.\<close>

fun received :: "(nat \<Rightarrow> event_env) \<Rightarrow> nat \<Rightarrow> sent list \<Rightarrow> watch_msg list" where
  "received env n [] = [StreamClosed]"
| "received env n (Event ev # xs) = EventMsg (env n) ev # received env (Suc n) xs"
| "received env n (NeedsResync # xs) = GapMsg # received env n xs"
| "received env n (Sleep _ # xs) = received env n xs"

definition Client_Watch :: "(nat \<Rightarrow> event_env) \<Rightarrow> nat \<Rightarrow> notify_result list option list \<Rightarrow> watch_msg list" where
  "Client_Watch env k ss = received env 0 (take k (watchLoop ss))"

text \<open>The effect of the events alone on the index\<close>

fun apply_events :: "int \<Rightarrow> (nat \<Rightarrow> event_env) \<Rightarrow> nat \<Rightarrow> change_event list \<Rightarrow> db \<Rightarrow> db" where
  "apply_events vol env n [] d = d"
| "apply_events vol env n (ev # es) d =
     apply_events vol env (Suc n) es
       (applyChangeEvent True (ev_stat (env n)) (ev_delete (env n)) (ev_upsert (env n)) vol ev d)"

definition events_of :: "sent list \<Rightarrow> change_event list" where
  "events_of xs = concat (map (\<lambda>x. case x of Event ev \<Rightarrow> [ev] | _ \<Rightarrow> []) xs)"

lemma events_of_simps [simp]: "events_of [] = []" "events_of (Event ev # xs) = ev # events_of xs"
    "events_of (NeedsResync # xs) = events_of xs" "events_of (Sleep n # xs) = events_of xs"
  by (simp_all add: events_of_def)

lemma resync_rts:
  assumes "volumeRuntime vol s = Some i" "i < length (s_rts s)"
  shows "s_db (resync vol t s) = s_db s \<and> volumeRuntime vol (resync vol t s) = Some i \<and>
    length (s_rts (resync vol t s)) = length (s_rts s) \<and>
    rt_resyncs (s_rts (resync vol t s) ! i) = rt_resyncs (s_rts s ! i) \<and> rt_crawling (s_rts (resync vol t s) ! i)"
  using assms by (auto simp: resync_def triggerCrawl_def begin_crawl_def upd_rt_def volumeRuntime_def)

lemma watch_received:
  assumes "volumeRuntime vol s = Some i" "i < length (s_rts s)"
  shows "case watch_msgs vol i (received env n xs) s of s' \<Rightarrow>
    s_db s' = apply_events vol env n (events_of xs) (s_db s) \<and>
    rt_resyncs (s_rts s' ! i) = rt_resyncs (s_rts s ! i) + count_list xs NeedsResync \<and>
    \<not> rt_watching (s_rts s' ! i) \<and>
    (rt_crawling (s_rts s' ! i) \<longleftrightarrow> rt_crawling (s_rts s ! i) \<or> NeedsResync \<in> set xs)"
  using assms
proof (induction env n xs arbitrary: s rule: received.induct)
  case (1 env n)
  then show ?case by (simp add: upd_rt_def setWatchConnected_def)
next
  case (2 env n ev xs)
  show ?case using 2(1) [of "set_db d (upd_rt i (recordWatchEvent t) s)" for d t] 2(2,3)
    by (simp add: Let_def upd_rt_def set_db_def volumeRuntime_def recordWatchEvent_def)
next
  case (3 env n xs)
  let ?s = "upd_rt i recordResync s"
  have "volumeRuntime vol ?s = Some i" "i < length (s_rts ?s)" using 3(2,3) by (simp_all add: upd_rt_def volumeRuntime_def)
  from resync_rts [OF this, of triggerResync] 3(1) [of "resync vol triggerResync ?s"] 3(2,3)
  show ?case by (simp add: upd_rt_def recordResync_def Let_def)
qed simp



end
