(* ===== verification/Browse.thy ===== *)
theory Browse
  imports ShareTree ShareClient
begin

text \<open>
  From the share to the dashboard: what listing a directory (\<open>GET /api/files\<close>, internal/httpapi/server.go)
  answers after a crawl (crawl.go) of a walk (internal/smbclient) that met no error.
\<close>

lemma file_at_in: "db_ok d \<Longrightarrow> file_at d k = Some r \<longleftrightarrow> r \<in> set (files d) \<and> file_key r = k"
  using db_ok_wf(2) by (simp add: file_at_def tbl_get_eq)

lemma volume_rows:
  assumes "db_ok d" "distinct (map e_path es)"
    and "\<And>p. file_at d (vol, p) = map_option (mk_row run \<circ> entry_file vol) (find (\<lambda>e. e_path e = p) es)"
  shows "mset (filter (\<lambda>r. fVolume r = vol) (files d)) = mset (map (mk_row run \<circ> entry_file vol) es)"
proof -
  have k: "fVolume r = vol \<Longrightarrow> file_key r = (vol, fPath r)" for r :: file_row by (simp add: file_key_def)
  have hit: "find (\<lambda>e. e_path e = p) es = Some e \<longleftrightarrow> e \<in> set es \<and> e_path e = p" for p e
    using tbl_get_eq [of e_path es p e] assms(2) by (simp add: tbl_get_def tbl_wf_def)
  have "r \<in> set (filter (\<lambda>r. fVolume r = vol) (files d)) \<longleftrightarrow> r \<in> set (map (mk_row run \<circ> entry_file vol) es)" for r
  proof
    assume "r \<in> set (filter (\<lambda>r. fVolume r = vol) (files d))"
    then have "file_at d (vol, fPath r) = Some r" using file_at_in [OF assms(1)] k by auto
    then show "r \<in> set (map (mk_row run \<circ> entry_file vol) es)" using assms(3) [of "fPath r"] hit by auto
  next
    assume "r \<in> set (map (mk_row run \<circ> entry_file vol) es)"
    then obtain e where e: "e \<in> set es" "r = mk_row run (entry_file vol e)" by auto
    then have "file_at d (vol, e_path e) = Some r" using assms(3) [of "e_path e"] hit [of "e_path e" e] by simp
    then show "r \<in> set (filter (\<lambda>r. fVolume r = vol) (files d))" using file_at_in [OF assms(1)] e(2) by simp
  qed
  moreover have "distinct (files d)" using assms(1) by (simp add: db_ok_def tbl_wf_def distinct_map)
  moreover have "distinct (map (mk_row run \<circ> entry_file vol) es)"
    using assms(2) by (intro distinct_map [THEN iffD1, THEN conjunct1, of fPath]) (simp add: o_def mk_row_def)
  ultimately show ?thesis by (intro set_eq_iff_mset_eq_distinct [THEN iffD1]) auto
qed

lemma filed_entry:
  "filed (entry_file vol e) \<longleftrightarrow>
     list_all plain (split_on [sl] (e_path e)) \<and> no_dot_edge (butlast (split_on [sl] (e_path e)))"
  by (simp add: filed_def entry_file_def Let_def split: prod.split)


definition tidy_dirs :: dir_answers where
  "tidy_dirs d = (True, (if d = dot then Inr [\<lparr>i_name = ''docs'', i_dir = True, i_size = 0, i_mod = 1\<rparr>]
     else Inr [\<lparr>i_name = ''b.txt'', i_dir = False, i_size = 5, i_mod = 2\<rparr>, \<lparr>i_name = ''.x'', i_dir = False, i_size = 1, i_mod = 2\<rparr>,
               \<lparr>i_name = ''a.txt'', i_dir = False, i_size = 7, i_mod = 3\<rparr>]), None, Inr [])"


end
