(* ===== verification/RowTypes.thy ===== *)
theory RowTypes
  imports Process
begin

text \<open>
  The types of the stored rows that no column type states: how a file is filed, what a recorded extraction
  and a crawl run can say. They are kept by every write the program issues: a request, the statements of a
  crawl (internal/httpapi/crawl.go), a change event (watch.go) and one file of the content indexer
  (contentindex.go), in any order and with any faults.
\<close>

section \<open>The types\<close>

definition file_typed :: "file_row \<Rightarrow> bool" where
  "file_typed r \<longleftrightarrow> (fDir r, fExt r) = SplitPath (fPath r)"

definition skip_reasons :: "string list" where
  "skip_reasons = [too_large, ''encrypted'', ''unsupported'', ''no_text'']"

definition content_typed :: "content_row \<Rightarrow> bool" where
  "content_typed c \<longleftrightarrow>
     (if cs_status c = ContentDone then cs_reason c = None
      else cs_chunk_count c = 0 \<and>
        (if cs_status c = ContentSkipped then cs_reason c \<in> Some ` set skip_reasons
         else cs_status c = ContentFailed \<and> cs_reason c \<noteq> Some []))"

definition triggers :: "string list" where
  "triggers = [triggerManual, triggerStartup, triggerPeriodic, triggerResync]"

definition run_typed :: "crawl_run \<Rightarrow> bool" where
  "run_typed r \<longleftrightarrow> cr_trigger r \<in> set triggers \<and> (cr_finished r = None \<longleftrightarrow> cr_duration r = None) \<and>
     cr_error r \<noteq> Some [] \<and> (cr_finished r = None \<longrightarrow> cr_error r = None)"

definition volume_typed :: "volume_row \<Rightarrow> bool" where
  "volume_typed v \<longleftrightarrow> (v_test_ok v = None \<longleftrightarrow> v_test_at v = None) \<and> v_test_error v \<noteq> Some []"

definition typed_rows :: "db \<Rightarrow> bool" where
  "typed_rows d \<longleftrightarrow> list_all file_typed (files d) \<and> list_all content_typed (content_state d) \<and>
     list_all run_typed (crawl_runs d) \<and> list_all volume_typed (volumes d)"

lemma list_all_put: "list_all P t \<Longrightarrow> P r \<Longrightarrow> list_all P (tbl_put key r t)"
  by (auto simp: tbl_put_def list_all_iff)

lemma list_all_puts: "list_all P t \<Longrightarrow> list_all P rs \<Longrightarrow> list_all P (fold (tbl_put key) rs t)"
  by (induction rs arbitrary: t) (simp_all add: list_all_put)

lemma list_all_del: "list_all P t \<Longrightarrow> list_all P (tbl_del R t)"
  by (simp add: list_all_iff)

lemma typed_delete_files: "typed_rows d \<Longrightarrow> typed_rows (sql_delete_files P d)"
  by (simp add: typed_rows_def sql_delete_files_def list_all_del)

section \<open>Requests keep them\<close>

lemma typed_volume: "typed_rows d \<Longrightarrow> tbl_get v_id i (volumes d) = Some v \<Longrightarrow> volume_typed v"
  by (auto simp: typed_rows_def list_all_iff tbl_get_def find_Some_iff)

interpretation typed_kept: request_writes pg typed_rows for pg
proof
  fix d flt now cs
  show "typed_rows d \<Longrightarrow> typed_rows (snd (SetContentSettings flt now cs d))"
    by (simp add: SetContentSettings_def typed_rows_def split: option.split)
next
  fix d flt vol
  show "typed_rows d \<Longrightarrow> typed_rows (snd (RetryFailedContent flt vol d))"
    by (simp add: RetryFailedContent_def typed_rows_def Let_def list_all_del split: option.split)
next
  fix d flt now nm host share user pw
  show "typed_rows d \<Longrightarrow> typed_rows (snd (CreateVolume pg flt now nm host share user pw d))"
    by (simp add: CreateVolume_def typed_rows_def Let_def volume_typed_def split: option.split)
next
  fix d flt now vol u
  show "typed_rows d \<Longrightarrow> typed_rows (snd (UpdateVolume pg flt now vol u d))"
    using typed_volume [of d vol]
    by (auto simp: UpdateVolume_def typed_rows_def apply_update_def volume_typed_def Let_def intro!: list_all_put split: option.split)
next
  fix d flt vol on
  show "typed_rows d \<Longrightarrow> typed_rows (snd (SetVolumeContentIndex flt vol on d))"
    using typed_volume [of d vol]
    by (auto simp: SetVolumeContentIndex_def typed_rows_def volume_typed_def Let_def intro!: list_all_put list_all_del split: option.split)
next
  fix d flt vol
  show "typed_rows d \<Longrightarrow> typed_rows (snd (DeleteVolume flt vol d))"
    using typed_delete_files [of d]
    by (auto simp: DeleteVolume_def typed_rows_def Let_def intro!: list_all_del split: option.split)
next
  fix d flt now vol ok msg
  show "typed_rows d \<Longrightarrow> typed_rows (snd (SetVolumeTestResult flt now vol ok msg d))"
    by (auto simp: SetVolumeTestResult_def typed_rows_def list_all_iff volume_typed_def null_if_empty_def split: option.split)
qed

section \<open>The other writers\<close>

lemma entry_typed: "file_typed (mk_row run (entry_file vol e))"
  by (simp add: file_typed_def mk_row_def entry_file_def split: prod.split)

lemma typed_upsert: "typed_rows d \<Longrightarrow> typed_rows (snd (UpsertBatch flt (map (entry_file vol) es) run d))"
proof -
  assume d: "typed_rows d"
  have "set (keep_last fs) \<subseteq> set fs" for fs
    by (auto simp: keep_last_def in_set_enumerate_eq)
  then have rows: "list_all file_typed (map (mk_row run) (keep_last (map (entry_file vol) es)))"
    by (fastforce simp: list_all_iff entry_typed)
  show ?thesis using d rows
    by (auto simp: UpsertBatch_def typed_rows_def sql_upsert_def intro!: list_all_puts split: option.split sum.split if_splits)
qed

lemma typed_run_writes:
  "typed_rows d \<Longrightarrow> trig \<in> set triggers \<Longrightarrow> typed_rows (snd (StartCrawlRun flt now vol trig d))"
  "typed_rows d \<Longrightarrow> typed_rows (snd (FinishCrawlRun flt now i res d))"
  "typed_rows d \<Longrightarrow> typed_rows (snd (Sweep flt vol run d))"
  "typed_rows d \<Longrightarrow> typed_rows (snd (Delete flt vol p d))"
  by (auto simp: StartCrawlRun_def FinishCrawlRun_def Sweep_def Delete_def typed_rows_def run_typed_def list_all_iff
      null_if_empty_def Let_def sql_delete_files_def split: option.split)

lemma typed_event: "typed_rows d \<Longrightarrow> typed_rows (applyChangeEvent connected raw f1 f2 vol ev d)"
proof -
  have "typed_rows d \<Longrightarrow> typed_rows (upsertPath connected raw flt vol p d)" for flt p d
    using typed_upsert [of d flt vol "[e]" 0 for e] by (auto simp: upsertPath_def Upsert_def split: sum.split option.split)
  then show "typed_rows d \<Longrightarrow> ?thesis" by (cases ev) (simp_all add: typed_run_writes)
qed

lemma typed_state:
  assumes "typed_rows d" "upsertContentState now vol p sz mt status reason n d' = Inr d2"
    "files d' = files d" "content_state d' = content_state d" "crawl_runs d' = crawl_runs d" "volumes d' = volumes d"
    "content_typed \<lparr>cs_volume = vol, cs_path = p, cs_size = sz, cs_mod_time = mt, cs_status = status,
       cs_reason = null_if_empty reason, cs_chunk_count = n, cs_indexed_at = now\<rparr>"
  shows "typed_rows d2"
  using assms by (auto simp: upsertContentState_def sql_upsert_content_def typed_rows_def intro!: list_all_put split: if_splits)

lemma typed_skip:
  assumes "typed_rows d" "(if status = ContentSkipped then reason \<in> set skip_reasons else status = ContentFailed)"
  shows "typed_rows (snd (SaveContentSkip flt now vol p sz mt status reason d))"
proof -
  have "reason \<in> set skip_reasons \<Longrightarrow> reason \<noteq> []" by (auto simp: skip_reasons_def too_large_def)
  then have c: "content_typed \<lparr>cs_volume = vol, cs_path = p, cs_size = sz, cs_mod_time = mt, cs_status = status,
       cs_reason = null_if_empty reason, cs_chunk_count = 0, cs_indexed_at = now\<rparr>"
    using assms(2) by (auto simp: content_typed_def null_if_empty_def ContentDone_def ContentSkipped_def ContentFailed_def split: if_splits)
  show ?thesis using assms(1) typed_state [OF assms(1) _ _ _ _ _ c]
    by (auto simp: SaveContentSkip_def delete_file_chunks_def split: option.split sum.split)
qed

lemma typed_save: "typed_rows d \<Longrightarrow> typed_rows (snd (SaveContent flt now vol p sz mt cs d))"
proof -
  assume d: "typed_rows d"
  have c: "content_typed \<lparr>cs_volume = vol, cs_path = p, cs_size = sz, cs_mod_time = mt, cs_status = ContentDone,
       cs_reason = null_if_empty [], cs_chunk_count = n, cs_indexed_at = now\<rparr>" for n
    by (simp add: content_typed_def null_if_empty_def)
  show ?thesis using d typed_state [OF d _ _ _ _ _ c]
    by (auto simp: SaveContent_def delete_file_chunks_def sql_insert_chunks_def Let_def split: option.split sum.splits if_splits)
qed

lemma recordContent_db [simp]: "s_db (snd (recordContent out s)) = snd out"
  by (simp add: recordContent_def set_db_def split: prod.split)

lemma typed_indexOne: "typed_rows (s_db s) \<Longrightarrow> typed_rows (s_db (snd (indexOne u cs je f s)))"
  by (simp add: indexOne_def Let_def skip_reasons_def ContentSkipped_def ContentFailed_def typed_skip typed_save
      split: option.split sum.split extract_err.split)

section \<open>All writers together\<close>

inductive write_step :: "api_config \<Rightarrow> app \<Rightarrow> app \<Rightarrow> bool" for g where
  request: "serve g e rq a = (rep, a') \<Longrightarrow> write_step g a a'"
| crawl_starts: "trig \<in> set triggers \<Longrightarrow> write_step g (s, c) (set_db (snd (StartCrawlRun flt now vol trig (s_db s))) s, c)"
| crawl_writes: "write_step g (s, c) (set_db (snd (UpsertBatch flt (map (entry_file vol) es) run (s_db s))) s, c)"
| crawl_sweeps: "write_step g (s, c) (set_db (snd (Sweep flt vol run (s_db s))) s, c)"
| crawl_ends: "write_step g (s, c) (set_db (snd (FinishCrawlRun flt now run res (s_db s))) s, c)"
| change: "write_step g (s, c) (set_db (applyChangeEvent connected raw f1 f2 vol ev (s_db s)) s, c)"
| extraction: "write_step g (s, c) (snd (indexOne u cs je f s), c)"
| connection: "write_step g (s, c) (set_db (snd (SetVolumeTestResult flt now vol ok msg (s_db s))) s, c)"
| live: "runtime_step s s' \<Longrightarrow> s_db s' = s_db s \<Longrightarrow> write_step g (s, c) (s', c)"

lemma indexOne_owned: "owned s \<Longrightarrow> owned (snd (indexOne u cs je f s))"
  by (simp add: indexOne_def recordContent_def Let_def set_db_def split: option.split sum.split extract_err.split prod.split)

lemma write_step_typed: "write_step g a a' \<Longrightarrow> keeps typed_rows (fst a) \<Longrightarrow> keeps typed_rows (fst a')"
proof (induction rule: write_step.induct)
  case (request e rq a rep a')
  then show ?case using typed_kept.serve_keeps [OF _ refl] by (cases a; cases a') fastforce
next
  case (extraction s c u cs je f)
  then show ?case using typed_indexOne indexOne_owned by (simp add: keeps_def)
next
  case (live s s' c)
  then show ?case using owned_step by (simp add: keeps_def)
qed (simp_all add: keeps_steps(1) keeps_db typed_run_writes typed_upsert typed_event typed_kept.test_result)


definition crawled_app :: app where
  "crawled_app =
     (let d = snd (StartCrawlRun None 5 1 triggerManual empty_db);
          e = \<lparr>e_path = ''docs/a.TXT'', e_name = ''a.TXT'', e_dir = False, e_size = 3, e_mod = 4\<rparr>
      in (set_db (snd (UpsertBatch None (map (entry_file 1) [e]) 1 d)) (new_server empty_db), newUpdateChecker))"


section \<open>A crawl is made of these steps\<close>

definition writes_to :: "api_config \<Rightarrow> db \<Rightarrow> db \<Rightarrow> bool" where
  "writes_to g d d' \<longleftrightarrow> (\<forall>s c. s_db s = d \<longrightarrow> (write_step g)\<^sup>*\<^sup>* (s, c) (set_db d' s, c))"

lemma writes_to_self: "writes_to g d d"
  by (auto simp: writes_to_def)

lemma writes_to_trans: "writes_to g d d1 \<Longrightarrow> writes_to g d1 d2 \<Longrightarrow> writes_to g d d2"
  unfolding writes_to_def by (metis (no_types, lifting) rtranclp_trans set_db_simps(1,2))

lemma writes_to_steps:
  "trig \<in> set triggers \<Longrightarrow> writes_to g d (snd (StartCrawlRun flt now vol trig d))"
  "writes_to g d (snd (UpsertBatch flt (map (entry_file vol) es) run d))"
  "writes_to g d (snd (Sweep flt vol run d))"
  "writes_to g d (snd (FinishCrawlRun flt now run res d))"
  by (auto simp: writes_to_def intro: r_into_rtranclp write_step.intros)

lemma batches_map: "batches n (map f xs) = map (map f) (batches n xs)"
proof (induction "length xs" arbitrary: xs rule: less_induct)
  case less
  show ?case
  proof (cases "xs = []")
    case False
    then have "length (drop (max 1 n) xs) < length xs" by (cases xs) auto
    from less [OF this] False show ?thesis by (simp add: batches_unfold take_map drop_map)
  qed simp
qed

lemma writes_batches:
  "write_batches flts i (map (map (entry_file vol)) bs) run d = (w, e, d') \<Longrightarrow> writes_to g d d'"
proof (induction bs arbitrary: i d w e d')
  case (Cons b bs)
  obtain res d1 where u: "UpsertBatch (flts i) (map (entry_file vol) b) run d = (res, d1)" by fastforce
  obtain w1 e1 d2 where r: "write_batches flts (Suc i) (map (map (entry_file vol)) bs) run d1 = (w1, e1, d2)" by (metis prod_cases3)
  have "d' = d2" using Cons.prems u r by (auto split: sum.splits)
  then show ?case using writes_to_trans [OF _ Cons.IH [OF r]] writes_to_steps(2) [of g d "flts i" vol b run] u by simp
qed (simp add: writes_to_self)

lemma Crawl_steps:
  assumes "trig \<in> set triggers" "Crawl flts t0 t1 vol trig connected out walk_err d = (err, d')"
  shows "writes_to g d d'"
proof -
  obtain r1 d1 where s1: "StartCrawlRun (cf_start flts) t0 vol trig d = (r1, d1)" by fastforce
  have d1: "writes_to g d d1" using writes_to_steps(1) [OF assms(1), of g d "cf_start flts" t0 vol] s1 by simp
  show ?thesis
  proof (cases "connected \<and> (\<exists>run. r1 = Inr run)")
    case False
    then show ?thesis using assms(2) s1 d1 by (cases r1) (auto simp: Crawl_def writes_to_self split: if_splits)
  next
    case True
    then obtain run where run: "r1 = Inr run" and c: "connected" by blast
    obtain w we d2 where s2: "StreamUpsert (cf_stream flts) (map (entry_file vol) out) run crawlWriteBatch d1 = (w, we, d2)"
      by (metis prod_cases3)
    have "writes_to g d1 d2" using s2 writes_batches by (simp add: StreamUpsert_batches batches_map)
    then have d2: "writes_to g d d2" by (rule writes_to_trans [OF d1])
    have sw: "writes_to g d (snd (Sweep (cf_sweep flts) vol run d2))" by (rule writes_to_trans [OF d2 writes_to_steps(3)])
    have "\<exists>res d3. d' = snd (FinishCrawlRun (cf_finish flts) t1 run res d3) \<and> writes_to g d d3"
      using assms(2) s1 run c s2 d2 sw
      by (auto simp: Crawl_def Let_def split: option.splits sum.splits prod.splits)
    then show ?thesis using writes_to_trans [OF _ writes_to_steps(4)] by blast
  qed
qed

end
