(* ===== verification/Responses.thy ===== *)
theory Responses
  imports Routes
begin

text \<open>
  What goes out on the wire: \<open>writeJSON\<close> and \<open>writeError\<close> (internal/httpapi/server.go), \<open>writeTestResult\<close>
  (volumes.go), the dashboard's handler with its security headers (internal/dashboard) and the refusals that
  \<open>http.ServeMux\<close> writes itself. The file server of the embedded pages is a parameter: it is given the
  headers set so far. A struct's JSON is left as the struct.
\<close>

section \<open>Responses\<close>

type_synonym headers = "(string \<times> string) list"

datatype body = ErrorJSON string | TestJSON "string option" | PayloadJSON payload | TextBody string
  | FileBytes opened | PageBytes string | NoBody

record http_response =
  hr_status :: nat
  hr_headers :: headers
  hr_body :: body

text \<open>\<open>http.Header.Set\<close> and \<open>Get\<close>\<close>

definition set_header :: "string \<Rightarrow> string \<Rightarrow> headers \<Rightarrow> headers" where
  "set_header k v h = filter (\<lambda>kv. fst kv \<noteq> k) h @ [(k, v)]"

definition get_header :: "string \<Rightarrow> headers \<Rightarrow> string option" where
  "get_header k h = map_of h k"

definition nosniff :: string where "nosniff = ''X-Content-Type-Options''"
definition content_policy :: string where "content_policy = ''Content-Security-Policy''"
definition content_type :: string where "content_type = ''Content-Type''"

definition writeJSON :: "nat \<Rightarrow> body \<Rightarrow> headers \<Rightarrow> http_response" where
  "writeJSON st b h =
     \<lparr>hr_status = st, hr_headers = set_header nosniff ''nosniff'' (set_header content_type ''application/json'' h), hr_body = b\<rparr>"

definition writeError :: "nat \<Rightarrow> string \<Rightarrow> headers \<Rightarrow> http_response" where
  "writeError st msg h = writeJSON st (ErrorJSON msg) h"

definition writeTestResult :: "string option \<Rightarrow> headers \<Rightarrow> http_response" where
  "writeTestResult e h = writeJSON 200 (TestJSON e) h"

text \<open>\<open>http.Error\<close>\<close>

definition http_Error :: "nat \<Rightarrow> string \<Rightarrow> headers \<Rightarrow> http_response" where
  "http_Error st msg h =
     \<lparr>hr_status = st, hr_headers = set_header nosniff ''nosniff'' (set_header content_type ''text/plain; charset=utf-8'' h),
      hr_body = TextBody msg\<rparr>"

section \<open>The dashboard\<close>

type_synonym file_server = "string list \<Rightarrow> headers \<Rightarrow> http_response"

definition page_policy :: string where
  "page_policy =
     ''default-src '' @ apos @ ''self'' @ apos @ ''; img-src '' @ apos @ ''self'' @ apos @ '' data:; style-src '' @ apos @ ''self'' @ apos @
     '' '' @ apos @ ''unsafe-inline'' @ apos @ ''; base-uri '' @ apos @ ''none'' @ apos @ ''; form-action '' @ apos @ ''self'' @ apos @
     ''; frame-ancestors '' @ apos @ ''none'' @ apos"

definition withSecurityHeaders :: "file_server \<Rightarrow> file_server" where
  "withSecurityHeaders pages path h =
     pages path (set_header ''Referrer-Policy'' ''no-referrer'' (set_header ''X-Frame-Options'' ''DENY''
       (set_header nosniff ''nosniff'' (set_header content_policy page_policy h))))"

definition Handler :: "file_server \<Rightarrow> string list \<Rightarrow> http_response" where
  "Handler pages path = withSecurityHeaders pages path []"

section \<open>Writing a reply\<close>

text \<open>405 is the multiplexer's own refusal; every other error is a handler's or the guard's.\<close>

fun write_reply :: "file_server \<Rightarrow> string list \<Rightarrow> reply \<Rightarrow> http_response" where
  "write_reply pages path (Failed st msg) = (if st = 405 then http_Error st msg [] else writeError st msg [])"
| "write_reply pages path (Answer st (PTest e)) = writeTestResult e []"
| "write_reply pages path (Answer st (PNothing _)) = \<lparr>hr_status = st, hr_headers = [], hr_body = NoBody\<rparr>"
| "write_reply pages path (Answer st (PFileTypes (cache, r))) = writeJSON st (PayloadJSON (PFileTypes (cache, r))) [cache]"
| "write_reply pages path (Answer st (PText (h, TextPlain t))) = \<lparr>hr_status = st, hr_headers = h, hr_body = TextBody t\<rparr>"
| "write_reply pages path (Answer st (PText (h, TextJSON v p n cs))) =
     \<lparr>hr_status = st, hr_headers = h, hr_body = PayloadJSON (PText (h, TextJSON v p n cs))\<rparr>"
| "write_reply pages path (Answer st (PContent (h, f))) = \<lparr>hr_status = st, hr_headers = h, hr_body = FileBytes f\<rparr>"
| "write_reply pages path (Answer st p) = writeJSON st (PayloadJSON p) []"
| "write_reply pages path (Redirect st url) =
     \<lparr>hr_status = st, hr_headers = [(''Location'', url), (content_type, ''text/html; charset=utf-8'')], hr_body = NoBody\<rparr>"
| "write_reply pages path Page = Handler pages path"

definition answer :: "file_server \<Rightarrow> api_config \<Rightarrow> api_env \<Rightarrow> request \<Rightarrow> app \<Rightarrow> http_response \<times> app" where
  "answer pages g e rq a = (case serve g e rq a of (rep, a') \<Rightarrow> (write_reply pages (rq_segs rq) rep, a'))"

section \<open>No response can be taken for another type\<close>

lemma get_set_header [simp]: "get_header k (set_header k' v h) = (if k = k' then Some v else get_header k h)"
proof -
  have "map_of (filter (\<lambda>kv. fst kv \<noteq> k') h) k = (if k = k' then None else map_of h k)" by (induction h) auto
  then show ?thesis by (simp add: get_header_def set_header_def map_add_def split: option.split)
qed

text \<open>The headers a handler sets itself\<close>

definition own_headers :: "reply \<Rightarrow> bool" where
  "own_headers rep \<longleftrightarrow>
     (case rep of
        Answer st (PContent (h, f)) \<Rightarrow> get_header nosniff h = Some ''nosniff'' \<and> get_header content_policy h = Some ''sandbox''
      | Answer st (PText (h, t)) \<Rightarrow> get_header nosniff h = Some ''nosniff'' \<and> get_header content_policy h = Some ''sandbox'' \<and>
          get_header content_type h = Some (case t of TextPlain _ \<Rightarrow> ''text/plain; charset=utf-8'' | _ \<Rightarrow> ''application/json'')
      | _ \<Rightarrow> True)"

lemma served_file_headers:
  "get_header nosniff (setContentHeaders u nm dl) = Some ''nosniff'' \<and>
   get_header content_policy (setContentHeaders u nm dl) = Some ''sandbox''"
  by (simp add: setContentHeaders_def get_header_def nosniff_def content_policy_def Let_def)

lemma own_content: "own_headers (reply_of PContent (handleContent u opn p s))"
  by (simp add: own_headers_def reply_of_def handleContent_def served_file_headers Let_def split: sum.split option.split)

lemma own_text: "own_headers (reply_of PText (handleFileText f1 f2 p s))"
  by (simp add: own_headers_def reply_of_def handleFileText_def get_header_def nosniff_def content_policy_def content_type_def
      Let_def split: sum.split)

lemma own_dispatch: "own_headers (fst (dispatch g e r wild rq (s, c)))"
  by (cases r)
    (simp_all add: unchanged_def with_server_def own_content own_text split: prod.split,
     simp_all add: own_headers_def reply_of_def split: prod.split sum.split)

lemma own_serve: "own_headers (fst (serve g e rq (s, c)))"
proof -
  have "own_headers (Failed st msg)" for st msg by (simp add: own_headers_def)
  then have "own_headers (fst (Routes g e rq (s, c)))" by (simp add: Routes_def unchanged_def own_dispatch split: option.split)
  moreover have "own_headers (Failed st msg)" for st msg by (simp add: own_headers_def)
  ultimately show ?thesis by (simp add: serve_def HostGuard_def)
qed


definition example_pages :: file_server where
  "example_pages path h = \<lparr>hr_status = 200, hr_headers = h, hr_body = PageBytes ''<html>''\<rparr>"


end
