(* ===== verification/Timestamps.thy ===== *)
theory Timestamps
  imports Api
begin

text \<open>
  Times as the API reports them: \<open>formatTime\<close> and \<open>scanCrawlRun\<close> of internal/index/index.go and the times of
  \<open>scanVolume\<close> (volumes.go). A stored time is a number of seconds since 1970 in UTC.
\<close>

text \<open>A number padded with zeros to a width, as package \<open>time\<close> prints it\<close>

definition pad_int :: "nat \<Rightarrow> int \<Rightarrow> string" where
  "pad_int w i =
     (let s = format_nat (nat \<bar>i\<bar>)
      in (if i < 0 then ''-'' else []) @ replicate (w - length s) (CHR ''0'') @ s)"

text \<open>\<open>t.UTC().Format(time.RFC3339)\<close>\<close>

definition formatTime :: "int \<Rightarrow> string" where
  "formatTime t =
     (let (y, mo, d) = civil_of (t div 86400); s = t mod 86400
      in pad_int 4 y @ ''-'' @ pad_int 2 mo @ ''-'' @ pad_int 2 d @ ''T'' @
         pad_int 2 (s div 3600) @ '':'' @ pad_int 2 (s mod 3600 div 60) @ '':'' @ pad_int 2 (s mod 60) @ ''Z'')"

record CrawlRun =
  run_ID :: int
  run_VolumeID :: int
  run_Trigger :: string
  run_StartedAt :: string
  run_FinishedAt :: string
  run_DurationMS :: int
  run_Error :: string
  run_FilesSeen :: int
  run_FilesRemoved :: int
  run_BytesIndexed :: int

definition scanCrawlRun :: "crawl_run \<Rightarrow> CrawlRun" where
  "scanCrawlRun r =
     \<lparr>run_ID = cr_id r, run_VolumeID = cr_volume r, run_Trigger = cr_trigger r,
      run_StartedAt = formatTime (cr_started r),
      run_FinishedAt = (case cr_finished r of None \<Rightarrow> [] | Some t \<Rightarrow> formatTime t),
      run_DurationMS = (case cr_duration r of None \<Rightarrow> 0 | Some n \<Rightarrow> n),
      run_Error = or_empty (cr_error r), run_FilesSeen = cr_files_seen r, run_FilesRemoved = cr_files_removed r,
      run_BytesIndexed = cr_bytes r\<rparr>"

section \<open>A formatted time reads back\<close>

lemma parse_digits_zeros: "parse_digits (replicate n (CHR ''0'') @ s) = parse_digits s"
proof -
  have "foldl (\<lambda>n c. n * 10 + digit_val c) 0 (replicate n (CHR ''0'')) = 0"
  proof (induction n)
    case (Suc n)
    moreover have "digit_val (CHR ''0'') = 0" by code_simp
    ultimately show ?case by simp
  qed simp
  then show ?thesis by (simp add: parse_digits_def)
qed

lemma length_format_nat: "n < 10 ^ w \<Longrightarrow> 0 < w \<Longrightarrow> length (format_nat n) \<le> w"
proof (induction n arbitrary: w rule: format_nat.induct)
  case (1 n)
  show ?case
  proof (cases "n < 10")
    case True
    then show ?thesis using 1(3) by (simp add: format_nat.simps [of n])
  next
    case False
    then obtain v where v: "w = Suc v" "0 < v" using 1(2,3) by (cases w; cases "w - 1") auto
    then have "n div 10 < 10 ^ v" using 1(2) by (simp add: div_less_iff_less_mult mult.commute)
    then show ?thesis using 1(1) [OF False _ v(2)] False v(1) by (simp add: format_nat.simps [of n])
  qed
qed

lemma pad_int_reads:
  assumes "0 \<le> i" "i < 10 ^ w" "0 < w"
  shows "length (pad_int w i) = w \<and> int (parse_digits (pad_int w i)) = i"
proof -
  have "nat i < 10 ^ w" using assms(1,2) by (simp add: nat_less_iff)
  from length_format_nat [OF this assms(3)] show ?thesis
    using assms(1) format_nat_props [of "nat i"] by (simp add: pad_int_def Let_def parse_digits_zeros)
qed

text \<open>What a reader of the format takes from the fixed positions\<close>

definition read_time :: "string \<Rightarrow> int" where
  "read_time s =
     (let f = (\<lambda>i n. int (parse_digits (take n (drop i s))))
      in 86400 * days_of (f 0 4) (f 5 2) (f 8 2) + 3600 * f 11 2 + 60 * f 14 2 + f 17 2)"

lemma year_bounds:
  assumes "civil_of n = (y, mo, d)" "- 719528 \<le> n" "n < 2932897"
  shows "0 \<le> y \<and> y \<le> 9999"
proof -
  have c: "days_of y mo d = n" "1 \<le> mo" "mo \<le> 12" "1 \<le> d" "d \<le> 31" using civil_of_correct [OF assms(1)] by auto
  have b: "first_day (month_index (- 1) 12) = - 719559" "first_day (month_index 10000 1) = 2932897" by code_simp+
  have "\<not> y < 0"
  proof
    assume "y < 0"
    then have "month_index y mo \<le> month_index (- 1) 12" using c(3) by (simp add: month_index_def)
    from first_day_le [OF this] show False using c(1,5) assms(2) b(1) by (simp add: days_of_def)
  qed
  moreover have "\<not> 10000 \<le> y"
  proof
    assume "10000 \<le> y"
    then have "month_index 10000 1 \<le> month_index y mo" using c(2) by (simp add: month_index_def)
    from first_day_le [OF this] show False using c(1,4) assms(3) b(2) by (simp add: days_of_def)
  qed
  ultimately show ?thesis by simp
qed

text \<open>Every stored time from year 0 to year 9999 is reported in the 20 characters of RFC 3339 in UTC, from
  which the same second is read back.\<close>

lemma formatTime_roundtrip:
  assumes "- 62167219200 \<le> t" "t < 253402300800"
  shows "length (formatTime t) = 20 \<and> read_time (formatTime t) = t \<and>
    map (\<lambda>i. formatTime t ! i) [4, 7, 10, 13, 16, 19] = ''--T::Z''"
proof -
  obtain y mo d where c: "civil_of (t div 86400) = (y, mo, d)" by (metis prod_cases3)
  have "- 719528 \<le> t div 86400" "t div 86400 < 2932897" using assms by linarith+
  from year_bounds [OF c this] have y: "0 \<le> y" "y < 10 ^ 4" by simp_all
  have md: "0 \<le> mo" "mo < 10 ^ 2" "0 \<le> d" "d < 10 ^ 2" and days: "days_of y mo d = t div 86400"
    using civil_of_correct [OF c] by simp_all
  define s where "s = t mod 86400"
  have s: "0 \<le> s" "s < 86400" "t = 86400 * (t div 86400) + s" by (simp_all add: s_def)
  have hms: "0 \<le> s div 3600" "s div 3600 < 10 ^ 2" "0 \<le> s mod 3600 div 60" "s mod 3600 div 60 < 10 ^ 2"
    "0 \<le> s mod 60" "s mod 60 < 10 ^ 2"
    using s(1,2) by (auto simp: pos_imp_zdiv_nonneg_iff)
  define Y M D h m sec where "Y = pad_int 4 y" and "M = pad_int 2 mo" and "D = pad_int 2 d" and
    "h = pad_int 2 (s div 3600)" and "m = pad_int 2 (s mod 3600 div 60)" and "sec = pad_int 2 (s mod 60)"
  note parts = Y_def M_def D_def h_def m_def sec_def
  have f: "formatTime t = Y @ ''-'' @ M @ ''-'' @ D @ ''T'' @ h @ '':'' @ m @ '':'' @ sec @ ''Z''"
    by (simp only: formatTime_def c parts s_def Let_def prod.case)
  have len: "length Y = 4" "length M = 2" "length D = 2" "length h = 2" "length m = 2" "length sec = 2"
    unfolding parts using y md hms by (simp_all only: pad_int_reads zero_less_numeral)
  have val: "int (parse_digits Y) = y" "int (parse_digits M) = mo" "int (parse_digits D) = d" "int (parse_digits h) = s div 3600"
    "int (parse_digits m) = s mod 3600 div 60" "int (parse_digits sec) = s mod 60"
    unfolding parts using y md hms by (simp_all only: pad_int_reads zero_less_numeral)
  have "86400 * (t div 86400) + 3600 * (s div 3600) + 60 * (s mod 3600 div 60) + s mod 60 = t"
  proof -
    have "s mod 3600 mod 60 = s mod 60" by (rule mod_mod_cancel) simp
    then show ?thesis using s(3) mult_div_mod_eq [of 3600 s] mult_div_mod_eq [of 60 "s mod 3600"] by linarith
  qed
  then have "read_time (formatTime t) = t" by (simp add: read_time_def f len val days)
  then show ?thesis by (simp add: f len nth_append)
qed

definition reportable :: "int \<Rightarrow> bool" where
  "reportable t \<longleftrightarrow> - 62167219200 \<le> t \<and> t < 253402300800"

text \<open>A crawl run is reported with its start and, once it has ended, its end, each in the 20 characters of
  RFC 3339 in UTC and reading back as the second that is stored, for times from year 0 to year 9999; of a
  run that has not ended no end is reported.\<close>

theorem run_times_read_back:
  assumes "reportable (cr_started r)" "case cr_finished r of None \<Rightarrow> True | Some t \<Rightarrow> reportable t"
  shows "length (run_StartedAt (scanCrawlRun r)) = 20 \<and> read_time (run_StartedAt (scanCrawlRun r)) = cr_started r \<and>
    (case cr_finished r of
       None \<Rightarrow> run_FinishedAt (scanCrawlRun r) = []
     | Some t \<Rightarrow> length (run_FinishedAt (scanCrawlRun r)) = 20 \<and> read_time (run_FinishedAt (scanCrawlRun r)) = t)"
  using assms formatTime_roundtrip by (auto simp: scanCrawlRun_def reportable_def split: option.split)

definition example_run :: crawl_run where
  "example_run = \<lparr>cr_id = 1, cr_volume = 1, cr_trigger = ''manual'', cr_started = 1709210096, cr_finished = Some 1709251200,
     cr_duration = Some 41104000, cr_error = None, cr_files_seen = 2, cr_files_removed = 0, cr_bytes = 5\<rparr>"

theorem run_times_read_back_witness:
  "run_StartedAt (scanCrawlRun example_run) = ''2024-02-29T12:34:56Z'' \<and>
   run_FinishedAt (scanCrawlRun example_run) = ''2024-03-01T00:00:00Z'' \<and>
   read_time (run_FinishedAt (scanCrawlRun example_run)) = 1709251200"
proof -
  have "reportable (cr_started example_run)" "case cr_finished example_run of None \<Rightarrow> True | Some t \<Rightarrow> reportable t" by code_simp+
  from run_times_read_back [OF this] have "read_time (run_FinishedAt (scanCrawlRun example_run)) = 1709251200"
    by (simp add: example_run_def)
  moreover have "run_StartedAt (scanCrawlRun example_run) = ''2024-02-29T12:34:56Z''"
    "run_FinishedAt (scanCrawlRun example_run) = ''2024-03-01T00:00:00Z''" by code_simp+
  ultimately show ?thesis by simp
qed

end
