(* ===== verification/TestDatabase.thy ===== *)
theory TestDatabase
  imports GoNumbers
begin

text \<open>
  The helper that gives each test a schema of its own (internal/testdb/testdb.go). \<open>net/url\<close> is a parameter:
  \<open>with_query u k v\<close> is the URL \<open>u\<close> with \<open>k\<close> set to \<open>v\<close> in its query, if it parses. Random bytes and the
  database's answers come with the call.
\<close>

text \<open>\<open>hex.EncodeToString\<close>\<close>

definition hex_string :: "string \<Rightarrow> string" where
  "hex_string b = concat (map (\<lambda>c. [hex_digit (bval c div 16), hex_digit (bval c mod 16)]) b)"

datatype test_result = Skipped string | Fatal string | Ready string

datatype db_event = AdminOpened | SchemaCreated string | SchemaDropped string | AdminClosed

definition withSearchPath :: "(string \<Rightarrow> string \<Rightarrow> string \<Rightarrow> string option) \<Rightarrow> string \<Rightarrow> string \<Rightarrow> string" where
  "withSearchPath with_query dsn path =
     (if prefix ''postgres://'' dsn \<or> prefix ''postgresql://'' dsn
      then (case with_query dsn ''search_path'' path of None \<Rightarrow> dsn | Some u \<Rightarrow> u)
      else dsn @ '' search_path='' @ path)"

text \<open>The last result is the schema whose removal was registered for the end of the test.\<close>

definition DSN ::
  "(string \<Rightarrow> string \<Rightarrow> string \<Rightarrow> string option) \<Rightarrow> string \<Rightarrow> (string + string) \<Rightarrow> string option \<Rightarrow> (string \<Rightarrow> string option)
    \<Rightarrow> test_result \<times> db_event list \<times> string option" where
  "DSN with_query base rand open_err create_err =
     (if base = [] then (Skipped ''FINDO_TEST_DSN not set; run `make test` (it starts a throwaway Postgres)'', [], None)
      else case rand of
             Inl e \<Rightarrow> (Fatal e, [], None)
           | Inr b \<Rightarrow>
               (let schema = ''t_'' @ hex_string b
                in case open_err of
                     Some e \<Rightarrow> (Fatal (''open test database: '' @ e), [], None)
                   | None \<Rightarrow>
                       (case create_err schema of
                          Some e \<Rightarrow> (Fatal (''create schema: '' @ e), [AdminOpened, AdminClosed], None)
                        | None \<Rightarrow> (Ready (withSearchPath with_query base (schema @ '',public'')),
                                   [AdminOpened, SchemaCreated schema], Some schema))))"

text \<open>The registered function: the reported error and what it did\<close>

definition DSN_cleanup :: "(string \<Rightarrow> string option) \<Rightarrow> string \<Rightarrow> string option \<times> db_event list" where
  "DSN_cleanup drop_err schema =
     (case drop_err schema of
        Some e \<Rightarrow> (Some (''drop schema '' @ schema @ '': '' @ e), [AdminClosed])
      | None \<Rightarrow> (None, [SchemaDropped schema, AdminClosed]))"

text \<open>Whatever fails, the admin connection is closed once for each time it was opened, and a schema that was
  created is dropped unless that is reported.\<close>

lemma DSN_leaves_nothing:
  "case DSN with_query base rand open_err create_err of (r, evs, reg) \<Rightarrow>
     case (case reg of None \<Rightarrow> (None, []) | Some sc \<Rightarrow> DSN_cleanup drop_err sc) of (err, evs') \<Rightarrow>
       count_list (evs @ evs') AdminOpened = count_list (evs @ evs') AdminClosed \<and>
       (if err = None then \<forall>sc. count_list (evs @ evs') (SchemaCreated sc) = count_list (evs @ evs') (SchemaDropped sc) else True)"
  by (simp add: DSN_def DSN_cleanup_def Let_def split: sum.split option.split)

text \<open>The schema's name needs no quoting in the statements it is pasted into.\<close>

lemma hex_string_plain: "list_all (\<lambda>c. c \<in> set ''0123456789abcdef'') (hex_string b)"
proof -
  have "\<forall>n\<in>set [0..<16]. hex_digit n \<in> set ''0123456789abcdef''" by code_simp
  then have d: "n < 16 \<Longrightarrow> hex_digit n \<in> set ''0123456789abcdef''" for n by auto
  have "bval c div 16 < 16" "bval c mod 16 < 16" for c by (simp_all add: less_mult_imp_div_less)
  then show ?thesis using d by (simp add: hex_string_def list_all_iff)
qed

text \<open>A URL that does not parse is returned as it is.\<close>

lemma unparsed_dsn: "prefix ''postgres://'' dsn \<Longrightarrow> with_query dsn ''search_path'' p = None \<Longrightarrow> withSearchPath with_query dsn p = dsn"
  by (simp add: withSearchPath_def)

end
