(* ===== verification/Spec2Isabelle.thy ===== *)
theory Spec2Isabelle
  imports Browse RowTypes Responses Timestamps TestDatabase
    Process ContentSearch DateQuery VolumesApi Config Version Watch SmbSession IndexSafety IndexQuery Settings Chunking TextExtract
    ContentHeaders ContentIndexer
begin

text \<open>
  Verification library of findo's Go backend (src/backend): a server that crawls SMB shares into a Postgres
  index, extracts the text of the files, and answers listing, search, download and configuration requests.

  \<^bold>\<open>Parts and how they meet.\<close> A volume is a share with its credentials. The process (cmd/findo-server/main.go)
  opens the index, migrates its schema, starts every enabled volume and serves the API behind a guard against
  other sites' pages. A started volume has a session on the NAS, an initial crawl, a listener for change
  notifications and a periodic crawl. A crawl walks the share with sixteen workers, streams what it finds
  into the index and then deletes the rows it did not see. The content indexer takes files from a queue that
  the index computes, reads each through the volume's session, extracts its text by file type, cuts it into
  chunks and records the outcome. Requests read the index, the live state and the sessions.

  \<^bold>\<open>Theories, in the order they build on each other.\<close>
  \<^item> \<open>Prelude\<close>: results as sums, generic lemmas. \<open>Utf8\<close>, \<open>GoStrings\<close>, \<open>GoText\<close>, \<open>GoNumbers\<close>, \<open>PathNames\<close>, \<open>GoNet\<close>,
    \<open>GoIP\<close>: the parts of Go's standard library the code uses, over byte strings: UTF-8, \<open>strings\<close>, \<open>strconv\<close>,
    \<open>path\<close>, \<open>net.SplitHostPort\<close> and \<open>net.ParseIP\<close>. Unicode tables are the record \<open>unicode\<close>.
  \<^item> \<open>Tables\<close>: the locale \<open>keyed_table\<close>, a table with a primary key, interpreted in \<open>Database\<close> for four of
    the six tables of \<open>migrations/\<close>. \<open>Database\<close>: rows, the record \<open>db\<close>, keys and cascades (\<open>db_ok\<close>).
    \<open>IndexWrite\<close>, \<open>IndexQuery\<close> (index.go), \<open>ContentStore\<close> (content.go, volumes.go), \<open>Settings\<close> (settings.go),
    \<open>ContentSearch\<close> (contentsearch.go), \<open>Migrate\<close> (migrate.go): one definition per method of \<open>Index\<close>, taking the
    faults of its statements in order. \<open>IndexSafety\<close>: the relation \<open>index_step\<close> of all writes and its
    invariant \<open>index_ok\<close>.
  \<^item> \<open>SmbPaths\<close>, \<open>SmbWalk\<close>, \<open>SmbSession\<close> (smbclient.go, watch.go): paths and change translation; the directory
    queue and its workers as the step relation \<open>walk_step\<close>; a client and its concurrent callers as
    \<open>client_step\<close>, the watch loop with its backoff. \<open>ShareTree\<close>: what the walk reports of a share whose
    listings are like those of a file server (\<open>tidy\<close>).
  \<^item> \<open>Crawl\<close> (httpapi/crawl.go): a crawl against the locale \<open>walker\<close>, interpreted on the worker pool. \<open>Watch\<close>
    (httpapi/watch.go): applying change events.
  \<^item> \<open>Crypto\<close>, \<open>Config\<close>, \<open>HostGuard\<close>, \<open>Version\<close>, \<open>DateQuery\<close>: the packages and files of these names. The four
    regular expressions of datequery.go are terms of a leftmost-first matcher.
  \<^item> \<open>Chunking\<close>, \<open>TextExtract\<close>, \<open>BlockReader\<close>, \<open>Ooxml\<close>, \<open>WordSlides\<close>, \<open>Sheets\<close>, \<open>Protobuf\<close>, \<open>IWork\<close>, \<open>Pdf\<close>, \<open>FileTypes\<close>,
    \<open>Extract\<close>: internal/extract and internal/filetype. Readers are functions of offset and length
    (locale \<open>reader_at\<close>); the zip directory, XML tokens, snappy, protowire (locale \<open>wire_codec\<close>) and PDFium are
    parameters with the laws the code relies on.
  \<^item> \<open>Runtime\<close> (server.go): the record \<open>server\<close> with the runtimes as addresses, so that a torn-down one stays
    visible, and the relation \<open>runtime_step\<close>. \<open>VolumesApi\<close> (volumes.go), \<open>ContentHeaders\<close> (content.go),
    \<open>ContentIndexer\<close> (contentindex.go), \<open>SearchApi\<close> and \<open>Api\<close> (server.go, settings.go, filetext.go): the handlers,
    each the whole handler. \<open>Routes\<close>: the routing table with http.ServeMux's precedence, \<open>serve\<close>, the guarded
    API as one function of a request, and \<open>service_step\<close>, everything the running service does. \<open>Process\<close>:
    dialling, the session's reads, the change listener, \<open>main\<close>. \<open>Responses\<close>: status, headers and body of what
    is sent, the dashboard's pages included. \<open>Timestamps\<close>: the times in answers.
  \<^item> Compositions. \<open>ShareClient\<close>: \<open>Walk\<close> and \<open>Watch\<close> of a client with the crawl and the listener that consume
    them. \<open>Browse\<close>: from a share through walk and crawl to what a listing answers. \<open>RowTypes\<close>: what every stored
    row looks like, under all writers together. The locale \<open>request_writes\<close> of \<open>Routes\<close> has the seven ways a
    request can write; whatever these keep (\<open>index_ok\<close>, being a part of the index before, the row types: three
    interpretations), every request keeps. \<open>TestDatabase\<close>: the schema each test gets (internal/testdb).

  \<^bold>\<open>State and operations.\<close> A Go method that changes the database is a function from a \<open>db\<close> to a result and a \<open>db\<close>;
  a method of \<open>Server\<close> does the same with a \<open>server\<close>. An error is the left of a sum, of a data type of the
  package (\<open>index_err\<close>, \<open>extract_err\<close>, \<open>crypto_err\<close>, \<open>config_err\<close>) or, in a handler, the status and message it
  writes. What the code does not decide is an argument: the fault of each statement, answers of the network,
  the time, random bytes, the scheduling of workers. Goroutines are steps of a relation or a list of choices.
  64-bit integers are \<open>int\<close> where the code only compares and stores them, with the range checks of \<open>strconv\<close>
  written out; the arithmetic of iWork's framing and of block offsets is bounded by checks the model keeps.

  \<^bold>\<open>What the lemmas show.\<close> The properties carry the labels C1 to C40 at their theorems. In groups:
  \<^item> the index: a complete crawl makes it equal to the share, an incomplete one refreshes what it reached and
    deletes nothing; a listing then shows the share's children; every reachable database is consistent and its
    rows well typed; requests remove rows at most; text saved is read back; the queue lists exactly what is not recorded
    for the file's current version; the indexer empties it; opting out and deleting purge;
  \<^item> the share: the parallel walk ends and yields every entry once; one redial per dead session; a batch of
    notifications gives the rows that replaying it in order gives, a gap in them leaves a crawl under way; no request opens a path outside the share;
  \<^item> security: a stored password only goes to the server it was typed for; refused requests change nothing;
    every response's type is pinned; headers of served files; secrets; rebinding; what reaches the full-text query;
  \<^item> extraction: every extractor yields valid UTF-8 within the cap, the capped text is the uncapped text cut,
    an iWork archive reads back, chunks lose nothing, the block cache is transparent, the PDF engine's pool
    is never closed under a user;
  \<^item> answers: search, listing, settings, progress, update offers, date phrases.

  \<^bold>\<open>Bounds and fuel.\<close> Recursions that are not structural have a termination proof. \<open>tree_entries\<close> of \<open>SmbWalk\<close> takes a
  depth that the property assumes to be enough (\<open>fits\<close>); the machine itself has none. Runs of the content indexer,
  of the watch loop and of the PDF engine are driven by finite lists of what happens, of any length.

  \<^bold>\<open>Not modelled.\<close> Postgres, the SMB protocol (go-smb2), AES-GCM, PDFium, archive/zip, encoding/xml, snappy,
  encoding/json, Unicode tables, IANA time zones, net/url and http.ServeContent, which are not under src/ or are
  large standard packages seen through their results; the dashboard's pages, which are not Go and which
  http.FileServer, a parameter, serves; log lines; SQL NULL ordering and collation beyond the parameter \<open>coll\<close>. A commit
  that reports an error is taken to have been rolled back.
\<close>

end
